(* ===== verification/Prelude.thy ===== *)
theory Prelude
  imports Main "HOL-Library.Word" "HOL-Library.List_Lexorder" "HOL-Library.Char_ord"
    "HOL-Library.Product_Lexorder" "HOL-Library.Multiset" "HOL-Library.AList"
begin

text \<open>
  The shared base of the development: Rust's integer types and their saturating operations,
  big-endian byte layouts, UTF-8 validity and the byte view of a string, fallible values,
  and association lists as the model of \<open>BTreeMap\<close> and \<open>HashMap\<close>.

  A Rust \<open>String\<close> is a \<^typ>\<open>string\<close>: the list of its UTF-8 bytes, each a \<^typ>\<open>char\<close>.  With
  \<open>Char_ord\<close> and \<open>List_Lexorder\<close> the order of two strings is the bytewise lexicographic order
  that Rust's \<open>Ord for str\<close> uses, and \<open>Product_Lexorder\<close> gives tuples Rust's order.
  A Rust integer of a signed type is an \<^typ>\<open>int\<close> inside the range of the type; the range
  predicates below state it.  A \<open>Result<T, E>\<close> is \<open>'e + 'a\<close> with the error on the left.
\<close>

section \<open>Collections of facts\<close>

named_theorems range_simps \<open>unfolding of the integer range predicates\<close>
named_theorems codec_simps \<open>reading back what a writer put into a buffer\<close>

section \<open>Fixed-width integers\<close>

type_synonym u8 = "8 word"
type_synonym u32 = "32 word"

definition i16_range :: "int \<Rightarrow> bool" where
  "i16_range x \<longleftrightarrow> - 32768 \<le> x \<and> x \<le> 32767"

definition i32_range :: "int \<Rightarrow> bool" where
  "i32_range x \<longleftrightarrow> - 2147483648 \<le> x \<and> x \<le> 2147483647"

definition i64_max :: int where
  "i64_max = 9223372036854775807"

definition i64_min :: int where
  "i64_min = - 9223372036854775808"

definition i64_range :: "int \<Rightarrow> bool" where
  "i64_range x \<longleftrightarrow> i64_min \<le> x \<and> x \<le> i64_max"

lemmas [range_simps] = i16_range_def i32_range_def i64_range_def i64_min_def i64_max_def

definition sat64 :: "int \<Rightarrow> int" where
  "sat64 x = (if x < i64_min then i64_min else if i64_max < x then i64_max else x)"

text \<open>Rust's \<open>i64::saturating_add\<close>, \<open>saturating_sub\<close> and \<open>saturating_mul\<close>.\<close>

definition sat_add64 :: "int \<Rightarrow> int \<Rightarrow> int" where
  "sat_add64 x y = sat64 (x + y)"

definition sat_sub64 :: "int \<Rightarrow> int \<Rightarrow> int" where
  "sat_sub64 x y = sat64 (x - y)"

definition sat_mul64 :: "int \<Rightarrow> int \<Rightarrow> int" where
  "sat_mul64 x y = sat64 (x * y)"

text \<open>The largest \<open>u32\<close> and \<open>usize\<close> (64-bit targets), and the saturating sums on them.\<close>

definition u32_max :: nat where
  "u32_max = 4294967295"

definition usize_max :: nat where
  "usize_max = 18446744073709551615"

definition sat_addu32 :: "nat \<Rightarrow> nat \<Rightarrow> nat" where
  "sat_addu32 x y = min u32_max (x + y)"

definition sat_addus :: "nat \<Rightarrow> nat \<Rightarrow> nat" where
  "sat_addus x y = min usize_max (x + y)"

definition sat_mulus :: "nat \<Rightarrow> nat \<Rightarrow> nat" where
  "sat_mulus x y = min usize_max (x * y)"

text \<open>\<open>i64::try_from(n).unwrap_or(i64::MAX)\<close> and \<open>i32::try_from(n).unwrap_or(i32::MAX)\<close>.\<close>

definition i64_of_usize :: "nat \<Rightarrow> int" where
  "i64_of_usize n = (if int n \<le> i64_max then int n else i64_max)"

definition i32_of_usize :: "nat \<Rightarrow> int" where
  "i32_of_usize n = (if int n \<le> 2147483647 then int n else 2147483647)"

lemma sat64_range [simp, intro]: "i64_range (sat64 x)"
  by (simp add: sat64_def range_simps)

lemma sat64_id [simp]: "i64_range x \<Longrightarrow> sat64 x = x"
  by (simp add: sat64_def range_simps)

lemma sat64_mono: "x \<le> y \<Longrightarrow> sat64 x \<le> sat64 y"
  by (simp add: sat64_def range_simps)

lemma sat_add64_range [simp, intro]: "i64_range (sat_add64 x y)"
  by (simp add: sat_add64_def)

lemma sat_add64_ge: "i64_range x \<Longrightarrow> 0 \<le> y \<Longrightarrow> x \<le> sat_add64 x y"
  by (simp add: sat_add64_def sat64_def range_simps)

lemma sat_add64_mono: "y \<le> z \<Longrightarrow> sat_add64 x y \<le> sat_add64 x z"
  by (simp add: sat_add64_def sat64_mono)

lemma sat_add64_zero [simp]: "i64_range x \<Longrightarrow> sat_add64 x 0 = x"
  by (simp add: sat_add64_def)

section \<open>Big-endian bytes\<close>

primrec be_bytes :: "nat \<Rightarrow> int \<Rightarrow> u8 list" where
  "be_bytes 0 x = []"
| "be_bytes (Suc n) x = word_of_int (x div 256 ^ n) # be_bytes n x"

definition be_unsigned :: "u8 list \<Rightarrow> int" where
  "be_unsigned bs = foldl (\<lambda>acc b. acc * 256 + uint b) 0 bs"

text \<open>Rust's \<open>iN::from_be_bytes\<close>: the two's complement value of a byte array.\<close>

definition from_be_bytes :: "u8 list \<Rightarrow> int" where
  "from_be_bytes bs =
     (let u = be_unsigned bs; m = 256 ^ length bs in if 2 * u < m then u else u - m)"

lemma length_be_bytes [simp]: "length (be_bytes n x) = n"
  by (induction n) simp_all

lemma foldl_be_shift:
  "foldl (\<lambda>acc b. acc * 256 + uint b) a bs
     = a * 256 ^ length bs + foldl (\<lambda>acc b. acc * 256 + uint b) 0 (bs :: u8 list)"
proof (induction bs arbitrary: a)
  case Nil
  then show ?case by simp
next
  case (Cons b bs)
  show ?case
    using Cons.IH [of "a * 256 + uint b"] Cons.IH [of "uint b"]
    by (simp add: algebra_simps)
qed

lemma be_unsigned_Cons: "be_unsigned (b # bs) = uint b * 256 ^ length bs + be_unsigned bs"
  by (simp add: be_unsigned_def foldl_be_shift [of "uint b"])

lemma be_unsigned_Nil [simp]: "be_unsigned [] = 0"
  by (simp add: be_unsigned_def)

lemma uint_byte_bounds: "0 \<le> uint (b :: u8) \<and> uint b < 256"
  using uint_range_size [of b] by (simp add: word_size)

lemma be_unsigned_bounds: "0 \<le> be_unsigned bs \<and> be_unsigned bs < 256 ^ length bs"
proof (induction bs)
  case Nil
  then show ?case by simp
next
  case (Cons b bs)
  have "uint b * 256 ^ length bs \<le> 255 * 256 ^ length bs"
    using uint_byte_bounds [of b] by (intro mult_right_mono) auto
  moreover have "0 \<le> uint b * 256 ^ length bs"
    using uint_byte_bounds [of b] by simp
  ultimately show ?case
    using Cons be_unsigned_Cons [of b bs] power_Suc [of "256 :: int" "length bs"]
    unfolding length_Cons by linarith
qed

lemma be_unsigned_be_bytes: "be_unsigned (be_bytes n x) = x mod 256 ^ n"
proof (induction n)
  case 0
  then show ?case by simp
next
  case (Suc n)
  have "uint (word_of_int (x div 256 ^ n) :: u8) = (x div 256 ^ n) mod 256"
    by (simp add: uint_word_of_int)
  moreover have "x mod (256 ^ n * 256) = 256 ^ n * (x div 256 ^ n mod 256) + x mod 256 ^ n"
    by (rule zmod_zmult2_eq) simp
  ultimately show ?case
    using Suc by (simp add: be_unsigned_Cons mult.commute)
qed

lemma be_bytes_add_multiple: "be_bytes n (x + k * 256 ^ (n + m)) = be_bytes n x"
proof (induction n arbitrary: m)
  case 0
  then show ?case by simp
next
  case (Suc n)
  have "(x + k * 256 ^ (Suc n + m)) div 256 ^ n = x div 256 ^ n + k * 256 ^ m * 256"
  proof -
    have "x + k * 256 ^ (Suc n + m) = x + (k * 256 ^ m * 256) * 256 ^ n"
      by (simp add: power_add algebra_simps)
    then show ?thesis
      by (simp only: div_mult_self1 div_mult_self2) simp
  qed
  moreover have "(word_of_int (y + z * 256) :: u8) = word_of_int y" for y z
    by (rule word_of_int_eq_iff [THEN iffD2]) (simp add: take_bit_eq_mod)
  moreover have "be_bytes n (x + k * 256 ^ (Suc n + m)) = be_bytes n x"
    using Suc [of "Suc m"] by (simp only: add_Suc_right add_Suc)
  ultimately show ?case
    by (simp only: be_bytes.simps)
qed

lemma be_bytes_be_unsigned: "be_bytes (length bs) (be_unsigned bs) = bs"
proof (induction bs)
  case Nil
  then show ?case by simp
next
  case (Cons b bs)
  have "(uint b * 256 ^ length bs + be_unsigned bs) div 256 ^ length bs = uint b"
    using be_unsigned_bounds [of bs] by (simp add: div_pos_pos_trivial)
  moreover have "be_bytes (length bs) (uint b * 256 ^ length bs + be_unsigned bs)
      = be_bytes (length bs) (be_unsigned bs)"
    using be_bytes_add_multiple [of "length bs" "be_unsigned bs" "uint b" 0]
    by (simp add: add.commute)
  ultimately show ?case
    using Cons by (simp add: be_unsigned_Cons)
qed

lemma be_bytes_from_be [simp]: "length bs = n \<Longrightarrow> be_bytes n (from_be_bytes bs) = bs"
  using be_bytes_add_multiple [of n "be_unsigned bs" "- 1" 0]
  by (auto simp: from_be_bytes_def Let_def be_bytes_be_unsigned)

lemma from_be_be_bytes:
  assumes "- (256 ^ n) \<le> 2 * x" "2 * x < 256 ^ n"
  shows "from_be_bytes (be_bytes n x) = x"
proof (cases "0 \<le> x")
  case True
  with assms have "x mod 256 ^ n = x" by (intro mod_pos_pos_trivial) auto
  with assms show ?thesis by (simp add: from_be_bytes_def Let_def be_unsigned_be_bytes)
next
  case False
  have "(x + 256 ^ n) mod 256 ^ n = x + 256 ^ n"
    using assms False by (intro mod_pos_pos_trivial) auto
  then have "x mod 256 ^ n = x + 256 ^ n" by simp
  with assms False show ?thesis by (simp add: from_be_bytes_def Let_def be_unsigned_be_bytes)
qed

lemma from_be_i16 [codec_simps]: "i16_range x \<Longrightarrow> from_be_bytes (be_bytes 2 x) = x"
  by (rule from_be_be_bytes) (simp_all add: range_simps)

lemma from_be_i32 [codec_simps]: "i32_range x \<Longrightarrow> from_be_bytes (be_bytes 4 x) = x"
  by (rule from_be_be_bytes) (simp_all add: range_simps)

lemma from_be_i64 [codec_simps]: "i64_range x \<Longrightarrow> from_be_bytes (be_bytes 8 x) = x"
  by (rule from_be_be_bytes) (simp_all add: range_simps)

lemma from_be_bounds:
  "- (256 ^ length bs) \<le> 2 * from_be_bytes bs \<and> 2 * from_be_bytes bs < 256 ^ length bs"
  using be_unsigned_bounds [of bs] by (auto simp: from_be_bytes_def Let_def)

lemma from_be_i16_range [simp]: "length bs = 2 \<Longrightarrow> i16_range (from_be_bytes bs)"
  using from_be_bounds [of bs] by (simp add: range_simps)

lemma from_be_i32_range [simp]: "length bs = 4 \<Longrightarrow> i32_range (from_be_bytes bs)"
  using from_be_bounds [of bs] by (simp add: range_simps)

lemma from_be_i64_range [simp]: "length bs = 8 \<Longrightarrow> i64_range (from_be_bytes bs)"
  using from_be_bounds [of bs] by (simp add: range_simps)

section \<open>Strings and UTF-8\<close>

definition byte_of_char :: "char \<Rightarrow> u8" where
  "byte_of_char c = word_of_nat (of_char c)"

definition char_of_byte :: "u8 \<Rightarrow> char" where
  "char_of_byte b = char_of (unat b)"

text \<open>\<open>str::as_bytes\<close>.\<close>

definition as_bytes :: "string \<Rightarrow> u8 list" where
  "as_bytes s = map byte_of_char s"

definition utf8_cont :: "u8 \<Rightarrow> bool" where
  "utf8_cont b \<longleftrightarrow> 128 \<le> b \<and> b \<le> 191"

text \<open>
  Well-formed UTF-8, by the table of the Unicode standard that \<open>str::from_utf8\<close> checks: no
  overlong form, no surrogate and nothing above U+10FFFF.
\<close>

fun utf8_valid :: "u8 list \<Rightarrow> bool" where
  "utf8_valid [] = True"
| "utf8_valid (b # bs) =
     (if b \<le> 127 then utf8_valid bs
      else if 194 \<le> b \<and> b \<le> 223 then
        (case bs of c1 # r \<Rightarrow> utf8_cont c1 \<and> utf8_valid r | _ \<Rightarrow> False)
      else if 224 \<le> b \<and> b \<le> 239 then
        (case bs of
           c1 # c2 # r \<Rightarrow>
             (if b = 224 then 160 \<le> c1 \<and> c1 \<le> 191
              else if b = 237 then 128 \<le> c1 \<and> c1 \<le> 159
              else utf8_cont c1)
             \<and> utf8_cont c2 \<and> utf8_valid r
         | _ \<Rightarrow> False)
      else if 240 \<le> b \<and> b \<le> 244 then
        (case bs of
           c1 # c2 # c3 # r \<Rightarrow>
             (if b = 240 then 144 \<le> c1 \<and> c1 \<le> 191
              else if b = 244 then 128 \<le> c1 \<and> c1 \<le> 143
              else utf8_cont c1)
             \<and> utf8_cont c2 \<and> utf8_cont c3 \<and> utf8_valid r
         | _ \<Rightarrow> False)
      else False)"

text \<open>\<open>str::from_utf8\<close>, with the error as \<^const>\<open>None\<close>.\<close>

definition from_utf8 :: "u8 list \<Rightarrow> string option" where
  "from_utf8 bs = (if utf8_valid bs then Some (map char_of_byte bs) else None)"

text \<open>The type invariant of every Rust \<open>str\<close>.\<close>

definition utf8_str :: "string \<Rightarrow> bool" where
  "utf8_str s \<longleftrightarrow> utf8_valid (as_bytes s)"

lemma char_of_byte_of_char [simp]: "char_of_byte (byte_of_char c) = c"
proof -
  have "(of_char c :: nat) < 256" by simp
  then have "unat (word_of_nat (of_char c) :: u8) = of_char c"
    by (simp add: unat_of_nat)
  then show ?thesis
    by (simp add: char_of_byte_def byte_of_char_def)
qed

lemma byte_of_char_of_byte [simp]: "byte_of_char (char_of_byte b) = b"
proof -
  have "unat b < 2 ^ LENGTH(8)" by (rule unsigned_less)
  then show ?thesis
    by (simp add: char_of_byte_def byte_of_char_def)
qed

lemma length_as_bytes [simp]: "length (as_bytes s) = length s"
  by (simp add: as_bytes_def)

lemma chars_as_bytes [simp]: "map char_of_byte (as_bytes s) = s"
  by (simp add: as_bytes_def comp_def)

lemma as_bytes_chars [simp]: "as_bytes (map char_of_byte bs) = bs"
  by (simp add: as_bytes_def comp_def)

lemma as_bytes_inject [simp]: "as_bytes s = as_bytes t \<longleftrightarrow> s = t"
  by (metis chars_as_bytes)

lemma as_bytes_Nil [simp]: "as_bytes [] = []"
  by (simp add: as_bytes_def)

lemma from_utf8_as_bytes [codec_simps]: "utf8_str s \<Longrightarrow> from_utf8 (as_bytes s) = Some s"
  by (simp add: from_utf8_def utf8_str_def)

lemma from_utf8_eq_Some: "from_utf8 bs = Some s \<longleftrightarrow> utf8_str s \<and> as_bytes s = bs"
  by (auto simp: from_utf8_def utf8_str_def)

lemma utf8_str_Nil [simp]: "utf8_str []"
  by (simp add: utf8_str_def as_bytes_def)

section \<open>Fallible values\<close>

text \<open>The \<open>?\<close> operator of Rust on a \<open>Result\<close>.\<close>

definition res_bind :: "'e + 'a \<Rightarrow> ('a \<Rightarrow> 'e + 'b) \<Rightarrow> 'e + 'b" where
  "res_bind r f = (case r of Inl e \<Rightarrow> Inl e | Inr x \<Rightarrow> f x)"

lemma res_bind_simps [simp]:
  "res_bind (Inl e) f = Inl e"
  "res_bind (Inr x) f = f x"
  by (simp_all add: res_bind_def)

lemma res_bind_eq_Inr [simp]: "res_bind r f = Inr y \<longleftrightarrow> (\<exists>x. r = Inr x \<and> f x = Inr y)"
  by (cases r) auto

lemma res_bind_eq_Inl:
  "res_bind r f = Inl e \<longleftrightarrow> r = Inl e \<or> (\<exists>x. r = Inr x \<and> f x = Inl e)"
  by (cases r) auto

lemma option_ext: "(\<And>x. a = Some x \<longleftrightarrow> b = Some x) \<Longrightarrow> a = b"
  by (cases a; cases b) auto

lemma count_le_one_distinct: "\<forall>x. count (mset xs) x \<le> 1 \<Longrightarrow> distinct xs"
proof (induction xs)
  case (Cons y xs)
  have "count (mset xs) x \<le> 1" for x
    by (rule order_trans [OF _ Cons.prems [rule_format, of x]]) simp
  moreover have "count (mset xs) y = 0" using Cons.prems [rule_format, of y] by simp
  ultimately show ?case using Cons.IH by (simp add: count_mset_0_iff)
qed simp

lemma distinct_count_le_one: "distinct xs \<Longrightarrow> count (mset xs) x \<le> 1"
  by (induction xs) (auto simp: count_mset_0_iff)

section \<open>The contract of a frozen byte layout\<close>

text \<open>
  A codec with one accepted byte string per value: the decoder succeeds exactly on the
  encodings of well-formed values.  Round trips, injectivity of the encoder (so equal keys
  have equal bytes and different keys have different bytes) and rejection of every other
  input follow from that one law.
\<close>

locale frozen_codec =
  fixes enc :: "'a \<Rightarrow> u8 list"
    and dec :: "u8 list \<Rightarrow> 'e + 'a"
    and wf :: "'a \<Rightarrow> bool"
  assumes dec_iff: "dec bs = Inr x \<longleftrightarrow> wf x \<and> bs = enc x"
begin

lemma round_trip: "wf x \<Longrightarrow> dec (enc x) = Inr x"
  by (simp add: dec_iff)

lemma enc_injective: "wf x \<Longrightarrow> wf y \<Longrightarrow> enc x = enc y \<longleftrightarrow> x = y"
  using dec_iff [of "enc x" x] dec_iff [of "enc x" y] by auto

lemma rejects_the_rest: "(\<exists>e. dec bs = Inl e) \<longleftrightarrow> bs \<notin> enc ` {x. wf x}"
  by (cases "dec bs") (auto simp: image_iff, metis dec_iff sum.distinct(1), metis dec_iff)

end

end
