(* ===== verification/Coordination_Record.thy ===== *)
theory Coordination_Record
  imports Prelude
begin

text \<open>
  \<open>crates/client-coordination/src/record.rs\<close>: the frozen layouts of the compacted topic
  \<open>__coordination_state\<close>, the validated names and tokens that the records carry, and the codec.
  The last section shows that each decoder accepts exactly the encodings of well-formed
  values, and that the text form of a fencing token parses back to the token.

  The formatted text of an error message is represented by the constructor of
  \<open>record_fault\<close> that names the message, with the values the text prints.
\<close>

section \<open>Errors\<close>

datatype record_fault =
    TruncatedBuffer
  | TrailingBytes
  | NegativeStringLength int
  | NonUtf8String
  | UnsupportedVersion int
  | UnknownRecordKind int
  | LeaseKeyNamesMember string

datatype record_error =
    RecFormat string record_fault
  | RecEmpty string
  | RecTooLong string nat nat
  | RecNegativeFencingToken int int
  | RecFencingTokenForm string

definition MAX_ROLE_LEN :: nat where "MAX_ROLE_LEN = 249"
definition MAX_MEMBER_ID_LEN :: nat where "MAX_MEMBER_ID_LEN = 249"
definition RECORD_VERSION :: int where "RECORD_VERSION = 0"
abbreviation KEY_PART :: string where "KEY_PART \<equiv> ''key''"
definition REGISTRATION_VALUE_PART :: string where
  "REGISTRATION_VALUE_PART = ''registration value''"
definition LEASE_VALUE_PART :: string where "LEASE_VALUE_PART = ''lease value''"
abbreviation ROLE_FIELD :: string where "ROLE_FIELD \<equiv> ''role''"
abbreviation MEMBER_FIELD :: string where "MEMBER_FIELD \<equiv> ''member id''"
definition COORDINATION_STATE_TOPIC :: string where
  "COORDINATION_STATE_TOPIC = ''__coordination_state''"

section \<open>Names\<close>

definition check_name :: "string \<Rightarrow> string \<Rightarrow> nat \<Rightarrow> record_error + int" where
  "check_name name field bound =
     (if name = [] then Inl (RecEmpty field)
      else if length name > bound then Inl (RecTooLong field (length name) bound)
      else if i16_range (int (length name)) then Inr (int (length name))
      else Inl (RecTooLong field (length name) bound))"

datatype role = Role (role_name: string) (role_wire_length: int)

datatype member_id = MemberId (member_name: string) (member_wire_length: int)

definition role_new :: "string \<Rightarrow> record_error + role" where
  "role_new name =
     res_bind (check_name name ROLE_FIELD MAX_ROLE_LEN) (\<lambda>wire_length.
       Inr (Role name wire_length))"

definition member_id_new :: "string \<Rightarrow> record_error + member_id" where
  "member_id_new member =
     res_bind (check_name member MEMBER_FIELD MAX_MEMBER_ID_LEN) (\<lambda>wire_length.
       Inr (MemberId member wire_length))"

instantiation role :: linorder
begin

definition less_eq_role :: "role \<Rightarrow> role \<Rightarrow> bool" where
  "less_eq_role a b \<longleftrightarrow>
     (role_name a, role_wire_length a) \<le> (role_name b, role_wire_length b)"

definition less_role :: "role \<Rightarrow> role \<Rightarrow> bool" where
  "less_role a b \<longleftrightarrow> (role_name a, role_wire_length a) < (role_name b, role_wire_length b)"

instance
  by standard (auto simp: less_eq_role_def less_role_def intro: role.expand)

end

instantiation member_id :: linorder
begin

definition less_eq_member_id :: "member_id \<Rightarrow> member_id \<Rightarrow> bool" where
  "less_eq_member_id a b \<longleftrightarrow>
     (member_name a, member_wire_length a) \<le> (member_name b, member_wire_length b)"

definition less_member_id :: "member_id \<Rightarrow> member_id \<Rightarrow> bool" where
  "less_member_id a b \<longleftrightarrow>
     (member_name a, member_wire_length a) < (member_name b, member_wire_length b)"

instance
  by standard (auto simp: less_eq_member_id_def less_member_id_def intro: member_id.expand)

end

section \<open>The fencing token\<close>

datatype fencing_token = FencingToken (producer_id: int) (producer_epoch: int)

definition fencing_token_new :: "int \<Rightarrow> int \<Rightarrow> record_error + fencing_token" where
  "fencing_token_new pid epoch =
     (if pid < 0 \<or> epoch < 0 then Inl (RecNegativeFencingToken pid epoch)
      else Inr (FencingToken pid epoch))"

instantiation fencing_token :: linorder
begin

definition less_eq_fencing_token :: "fencing_token \<Rightarrow> fencing_token \<Rightarrow> bool" where
  "less_eq_fencing_token a b \<longleftrightarrow>
     (producer_id a, producer_epoch a) \<le> (producer_id b, producer_epoch b)"

definition less_fencing_token :: "fencing_token \<Rightarrow> fencing_token \<Rightarrow> bool" where
  "less_fencing_token a b \<longleftrightarrow>
     (producer_id a, producer_epoch a) < (producer_id b, producer_epoch b)"

instance
  by standard
    (auto simp: less_eq_fencing_token_def less_fencing_token_def intro: fencing_token.expand)

end

text \<open>Decimal text, as Rust's \<open>Display\<close> for integers prints it and \<open>str::parse\<close> reads it.\<close>

definition digit_char :: "nat \<Rightarrow> char" where
  "digit_char d = char_of (48 + d)"

definition char_digit :: "char \<Rightarrow> nat option" where
  "char_digit c = (let k = of_char c in if 48 \<le> k \<and> k \<le> 57 then Some (k - 48) else None)"

fun nat_text :: "nat \<Rightarrow> string" where
  "nat_text n = (if n < 10 then [digit_char n] else nat_text (n div 10) @ [digit_char (n mod 10)])"

declare nat_text.simps [simp del]

definition int_text :: "int \<Rightarrow> string" where
  "int_text x = (if x < 0 then CHR ''-'' # nat_text (nat (- x)) else nat_text (nat x))"

fun parse_digits :: "nat \<Rightarrow> string \<Rightarrow> nat option" where
  "parse_digits acc [] = Some acc"
| "parse_digits acc (c # cs) =
     (case char_digit c of None \<Rightarrow> None | Some d \<Rightarrow> parse_digits (10 * acc + d) cs)"

definition parse_signed :: "(int \<Rightarrow> bool) \<Rightarrow> string \<Rightarrow> int option" where
  "parse_signed in_range s =
     (let (negative, digits) =
        (case s of
           [] \<Rightarrow> (False, [])
         | c # cs \<Rightarrow>
             if c = CHR ''-'' then (True, cs)
             else if c = CHR ''+'' then (False, cs)
             else (False, s))
      in if digits = [] then None
         else case parse_digits 0 digits of
             None \<Rightarrow> None
           | Some n \<Rightarrow>
               (let x = (if negative then - int n else int n)
                in if in_range x then Some x else None))"

text \<open>\<open>str::split_once\<close> at a character.\<close>

definition split_once :: "char \<Rightarrow> string \<Rightarrow> (string \<times> string) option" where
  "split_once c s =
     (if c \<in> set s then Some (takeWhile (\<lambda>x. x \<noteq> c) s, tl (dropWhile (\<lambda>x. x \<noteq> c) s))
      else None)"

definition fencing_token_to_string :: "fencing_token \<Rightarrow> string" where
  "fencing_token_to_string t =
     int_text (producer_id t) @ CHR '':'' # int_text (producer_epoch t)"

definition fencing_token_from_str :: "string \<Rightarrow> record_error + fencing_token" where
  "fencing_token_from_str serialized =
     (case split_once CHR '':'' serialized of
        None \<Rightarrow> Inl (RecFencingTokenForm serialized)
      | Some (pid_text, epoch_text) \<Rightarrow>
          if CHR '':'' \<in> set epoch_text then Inl (RecFencingTokenForm serialized)
          else case parse_signed i64_range pid_text of
              None \<Rightarrow> Inl (RecFencingTokenForm serialized)
            | Some pid \<Rightarrow>
                (case parse_signed i16_range epoch_text of
                   None \<Rightarrow> Inl (RecFencingTokenForm serialized)
                 | Some epoch \<Rightarrow> fencing_token_new pid epoch))"

section \<open>Keys and values\<close>

datatype record_kind = RegistrationKind | LeaseKind

fun record_kind_code :: "record_kind \<Rightarrow> int" where
  "record_kind_code RegistrationKind = 0"
| "record_kind_code LeaseKind = 1"

definition record_kind_from_code :: "int \<Rightarrow> record_error + record_kind" where
  "record_kind_from_code code =
     (if code = 0 then Inr RegistrationKind
      else if code = 1 then Inr LeaseKind
      else Inl (RecFormat KEY_PART (UnknownRecordKind code)))"

record coordination_key =
  key_kind :: record_kind
  key_role :: role
  key_member :: "member_id option"

definition registration_key :: "role \<Rightarrow> member_id \<Rightarrow> coordination_key" where
  "registration_key r m = \<lparr>key_kind = RegistrationKind, key_role = r, key_member = Some m\<rparr>"

definition lease_key :: "role \<Rightarrow> coordination_key" where
  "lease_key r = \<lparr>key_kind = LeaseKind, key_role = r, key_member = None\<rparr>"

record registration =
  reg_member :: member_id
  reg_registered_at :: int

record lease =
  lease_member :: member_id
  lease_token :: fencing_token
  lease_granted_at :: int
  lease_deadline :: int

datatype coordination_record =
    RegistrationRecord registration
  | LeaseRecord lease
  | TombstoneRecord

section \<open>Writers\<close>

definition put_i16 :: "int \<Rightarrow> u8 list" where "put_i16 x = be_bytes 2 x"
definition put_i64 :: "int \<Rightarrow> u8 list" where "put_i64 x = be_bytes 8 x"

definition put_string :: "string \<Rightarrow> int \<Rightarrow> u8 list" where
  "put_string value len = put_i16 len @ as_bytes value"

definition encode_key :: "coordination_key \<Rightarrow> u8 list" where
  "encode_key key =
     (let (member, member_length) =
        (case key_kind key of
           RegistrationKind \<Rightarrow>
             (case key_member key of
                None \<Rightarrow> ([], 0)
              | Some m \<Rightarrow> (member_name m, member_wire_length m))
         | LeaseKind \<Rightarrow> ([], 0))
      in put_i16 RECORD_VERSION
         @ put_i16 (record_kind_code (key_kind key))
         @ put_string (role_name (key_role key)) (role_wire_length (key_role key))
         @ put_string member member_length)"

definition encode_registration :: "registration \<Rightarrow> u8 list" where
  "encode_registration r =
     put_i16 RECORD_VERSION
     @ put_string (member_name (reg_member r)) (member_wire_length (reg_member r))
     @ put_i64 (reg_registered_at r)"

definition encode_lease :: "lease \<Rightarrow> u8 list" where
  "encode_lease l =
     put_i16 RECORD_VERSION
     @ put_string (member_name (lease_member l)) (member_wire_length (lease_member l))
     @ put_i64 (producer_id (lease_token l))
     @ put_i16 (producer_epoch (lease_token l))
     @ put_i64 (lease_granted_at l)
     @ put_i64 (lease_deadline l)"

fun encode_value :: "coordination_record \<Rightarrow> u8 list option" where
  "encode_value (RegistrationRecord r) = Some (encode_registration r)"
| "encode_value (LeaseRecord l) = Some (encode_lease l)"
| "encode_value TombstoneRecord = None"

section \<open>The reader\<close>

record reader =
  rd_data :: "u8 list"
  rd_part :: string

definition reader_new :: "u8 list \<Rightarrow> string \<Rightarrow> reader" where
  "reader_new data part = \<lparr>rd_data = data, rd_part = part\<rparr>"

definition malformed :: "reader \<Rightarrow> record_fault \<Rightarrow> record_error" where
  "malformed r message = RecFormat (rd_part r) message"

definition truncated :: "reader \<Rightarrow> record_error" where
  "truncated r = malformed r TruncatedBuffer"

definition reader_finish :: "reader \<Rightarrow> record_error + unit" where
  "reader_finish r = (if rd_data r = [] then Inr () else Inl (malformed r TrailingBytes))"

definition take_array :: "nat \<Rightarrow> reader \<Rightarrow> record_error + (u8 list \<times> reader)" where
  "take_array n r =
     (if length (rd_data r) < n then Inl (truncated r)
      else Inr (take n (rd_data r), r\<lparr>rd_data := drop n (rd_data r)\<rparr>))"

definition reader_take :: "nat \<Rightarrow> reader \<Rightarrow> record_error + (u8 list \<times> reader)" where
  "reader_take n r =
     (if n \<le> length (rd_data r)
      then Inr (take n (rd_data r), r\<lparr>rd_data := drop n (rd_data r)\<rparr>)
      else Inl (truncated r))"

definition reader_i16 :: "reader \<Rightarrow> record_error + (int \<times> reader)" where
  "reader_i16 r = res_bind (take_array 2 r) (\<lambda>(bs, r'). Inr (from_be_bytes bs, r'))"

definition reader_i64 :: "reader \<Rightarrow> record_error + (int \<times> reader)" where
  "reader_i64 r = res_bind (take_array 8 r) (\<lambda>(bs, r'). Inr (from_be_bytes bs, r'))"

definition reader_string :: "reader \<Rightarrow> record_error + (string \<times> reader)" where
  "reader_string r =
     res_bind (reader_i16 r) (\<lambda>(len, r1).
       if len < 0 then Inl (malformed r1 (NegativeStringLength len))
       else res_bind (reader_take (nat len) r1) (\<lambda>(bytes, r2).
         case from_utf8 bytes of
           None \<Rightarrow> Inl (malformed r2 NonUtf8String)
         | Some s \<Rightarrow> Inr (s, r2)))"

definition reader_version :: "reader \<Rightarrow> record_error + reader" where
  "reader_version r =
     res_bind (reader_i16 r) (\<lambda>(version, r').
       if version = RECORD_VERSION then Inr r'
       else Inl (malformed r' (UnsupportedVersion version)))"

section \<open>Decoders\<close>

definition decode_key :: "u8 list \<Rightarrow> record_error + coordination_key" where
  "decode_key bytes =
     res_bind (reader_version (reader_new bytes KEY_PART)) (\<lambda>r1.
     res_bind (reader_i16 r1) (\<lambda>(code, r2).
     res_bind (record_kind_from_code code) (\<lambda>kind.
     res_bind (reader_string r2) (\<lambda>(role_text, r3).
     res_bind (reader_string r3) (\<lambda>(member_text, r4).
     res_bind (reader_finish r4) (\<lambda>_.
     res_bind
       (case kind of
          RegistrationKind \<Rightarrow> res_bind (member_id_new member_text) (\<lambda>m. Inr (Some m))
        | LeaseKind \<Rightarrow>
            if member_text \<noteq> [] then Inl (malformed r4 (LeaseKeyNamesMember member_text))
            else Inr None) (\<lambda>member.
     res_bind (role_new role_text) (\<lambda>r.
       Inr \<lparr>key_kind = kind, key_role = r, key_member = member\<rparr>))))))))"

definition decode_registration :: "u8 list \<Rightarrow> record_error + registration" where
  "decode_registration bytes =
     res_bind (reader_version (reader_new bytes REGISTRATION_VALUE_PART)) (\<lambda>r1.
     res_bind (reader_string r1) (\<lambda>(member_text, r2).
     res_bind (reader_i64 r2) (\<lambda>(registered_at, r3).
     res_bind (reader_finish r3) (\<lambda>_.
     res_bind (member_id_new member_text) (\<lambda>m.
       Inr \<lparr>reg_member = m, reg_registered_at = registered_at\<rparr>)))))"

definition decode_lease :: "u8 list \<Rightarrow> record_error + lease" where
  "decode_lease bytes =
     res_bind (reader_version (reader_new bytes LEASE_VALUE_PART)) (\<lambda>r1.
     res_bind (reader_string r1) (\<lambda>(member_text, r2).
     res_bind (reader_i64 r2) (\<lambda>(pid, r3).
     res_bind (reader_i16 r3) (\<lambda>(epoch, r4).
     res_bind (reader_i64 r4) (\<lambda>(granted_at, r5).
     res_bind (reader_i64 r5) (\<lambda>(deadline, r6).
     res_bind (reader_finish r6) (\<lambda>_.
     res_bind (member_id_new member_text) (\<lambda>m.
     res_bind (fencing_token_new pid epoch) (\<lambda>token.
       Inr \<lparr>lease_member = m, lease_token = token,
            lease_granted_at = granted_at, lease_deadline = deadline\<rparr>)))))))))"

definition decode_value ::
    "record_kind \<Rightarrow> u8 list option \<Rightarrow> record_error + coordination_record" where
  "decode_value kind bytes =
     (case bytes of
        None \<Rightarrow> Inr TombstoneRecord
      | Some bs \<Rightarrow>
          (case kind of
             RegistrationKind \<Rightarrow>
               res_bind (decode_registration bs) (\<lambda>r. Inr (RegistrationRecord r))
           | LeaseKind \<Rightarrow> res_bind (decode_lease bs) (\<lambda>l. Inr (LeaseRecord l))))"

section \<open>Well-formed values\<close>

definition wf_role :: "role \<Rightarrow> bool" where
  "wf_role r \<longleftrightarrow> role_name r \<noteq> [] \<and> length (role_name r) \<le> MAX_ROLE_LEN
     \<and> utf8_str (role_name r) \<and> role_wire_length r = int (length (role_name r))"

definition wf_member :: "member_id \<Rightarrow> bool" where
  "wf_member m \<longleftrightarrow> member_name m \<noteq> [] \<and> length (member_name m) \<le> MAX_MEMBER_ID_LEN
     \<and> utf8_str (member_name m) \<and> member_wire_length m = int (length (member_name m))"

definition wf_token :: "fencing_token \<Rightarrow> bool" where
  "wf_token t \<longleftrightarrow> 0 \<le> producer_id t \<and> i64_range (producer_id t)
     \<and> 0 \<le> producer_epoch t \<and> i16_range (producer_epoch t)"

definition wf_key :: "coordination_key \<Rightarrow> bool" where
  "wf_key k \<longleftrightarrow> wf_role (key_role k)
     \<and> (case key_kind k of
          RegistrationKind \<Rightarrow> (case key_member k of None \<Rightarrow> False | Some m \<Rightarrow> wf_member m)
        | LeaseKind \<Rightarrow> key_member k = None)"

definition wf_registration :: "registration \<Rightarrow> bool" where
  "wf_registration r \<longleftrightarrow> wf_member (reg_member r) \<and> i64_range (reg_registered_at r)"

definition wf_lease :: "lease \<Rightarrow> bool" where
  "wf_lease l \<longleftrightarrow> wf_member (lease_member l) \<and> wf_token (lease_token l)
     \<and> i64_range (lease_granted_at l) \<and> i64_range (lease_deadline l)"

fun wf_value :: "record_kind \<Rightarrow> coordination_record \<Rightarrow> bool" where
  "wf_value RegistrationKind (RegistrationRecord r) = wf_registration r"
| "wf_value LeaseKind (LeaseRecord l) = wf_lease l"
| "wf_value _ TombstoneRecord = True"
| "wf_value _ _ = False"

section \<open>Reading back a prefix\<close>

lemma role_new_eq_Inr:
  "role_new s = Inr r \<longleftrightarrow>
     role_name r = s \<and> s \<noteq> [] \<and> length s \<le> MAX_ROLE_LEN
     \<and> role_wire_length r = int (length s)"
  by (cases r) (auto simp: role_new_def check_name_def MAX_ROLE_LEN_def range_simps)

lemma member_id_new_eq_Inr:
  "member_id_new s = Inr m \<longleftrightarrow>
     member_name m = s \<and> s \<noteq> [] \<and> length s \<le> MAX_MEMBER_ID_LEN
     \<and> member_wire_length m = int (length s)"
  by (cases m) (auto simp: member_id_new_def check_name_def MAX_MEMBER_ID_LEN_def range_simps)

lemma fencing_token_new_eq_Inr:
  "fencing_token_new p e = Inr t \<longleftrightarrow>
     producer_id t = p \<and> producer_epoch t = e \<and> 0 \<le> p \<and> 0 \<le> e"
  by (cases t) (auto simp: fencing_token_new_def)

lemma take_array_eq_Inr:
  "take_array n r = Inr (xs, r') \<longleftrightarrow>
     length xs = n \<and> rd_data r = xs @ rd_data r' \<and> rd_part r' = rd_part r"
  by (cases r; cases r') (auto simp: take_array_def)

lemma reader_take_eq_Inr:
  "reader_take n r = Inr (xs, r') \<longleftrightarrow>
     length xs = n \<and> rd_data r = xs @ rd_data r' \<and> rd_part r' = rd_part r"
  by (cases r; cases r') (auto simp: reader_take_def)

lemma reader_i16_eq_Inr:
  "reader_i16 r = Inr (x, r') \<longleftrightarrow>
     i16_range x \<and> rd_data r = put_i16 x @ rd_data r' \<and> rd_part r' = rd_part r"
proof
  assume "reader_i16 r = Inr (x, r')"
  then show "i16_range x \<and> rd_data r = put_i16 x @ rd_data r' \<and> rd_part r' = rd_part r"
    by (auto simp: reader_i16_def take_array_eq_Inr put_i16_def)
next
  assume "i16_range x \<and> rd_data r = put_i16 x @ rd_data r' \<and> rd_part r' = rd_part r"
  then have "take_array 2 r = Inr (put_i16 x, r')" and "from_be_bytes (put_i16 x) = x"
    by (simp_all add: take_array_eq_Inr put_i16_def codec_simps)
  then show "reader_i16 r = Inr (x, r')"
    by (simp add: reader_i16_def)
qed

lemma reader_i64_eq_Inr:
  "reader_i64 r = Inr (x, r') \<longleftrightarrow>
     i64_range x \<and> rd_data r = put_i64 x @ rd_data r' \<and> rd_part r' = rd_part r"
proof
  assume "reader_i64 r = Inr (x, r')"
  then show "i64_range x \<and> rd_data r = put_i64 x @ rd_data r' \<and> rd_part r' = rd_part r"
    by (auto simp: reader_i64_def take_array_eq_Inr put_i64_def)
next
  assume "i64_range x \<and> rd_data r = put_i64 x @ rd_data r' \<and> rd_part r' = rd_part r"
  then have "take_array 8 r = Inr (put_i64 x, r')" and "from_be_bytes (put_i64 x) = x"
    by (simp_all add: take_array_eq_Inr put_i64_def codec_simps)
  then show "reader_i64 r = Inr (x, r')"
    by (simp add: reader_i64_def)
qed

lemma reader_version_eq_Inr:
  "reader_version r = Inr r' \<longleftrightarrow>
     rd_data r = put_i16 RECORD_VERSION @ rd_data r' \<and> rd_part r' = rd_part r"
  by (auto simp: reader_version_def reader_i16_eq_Inr RECORD_VERSION_def range_simps
      split: if_splits)

lemma reader_finish_eq_Inr: "reader_finish r = Inr u \<longleftrightarrow> rd_data r = []"
  by (auto simp: reader_finish_def)

lemma reader_string_eq_Inr:
  "reader_string r = Inr (s, r') \<longleftrightarrow>
     utf8_str s \<and> i16_range (int (length s))
     \<and> rd_data r = put_string s (int (length s)) @ rd_data r' \<and> rd_part r' = rd_part r"
proof
  assume "reader_string r = Inr (s, r')"
  then obtain len r1 bytes where
      "reader_i16 r = Inr (len, r1)" "0 \<le> len" "reader_take (nat len) r1 = Inr (bytes, r')"
      "from_utf8 bytes = Some s"
    by (auto simp: reader_string_def split: if_splits option.splits)
  then show "utf8_str s \<and> i16_range (int (length s))
     \<and> rd_data r = put_string s (int (length s)) @ rd_data r' \<and> rd_part r' = rd_part r"
    by (auto simp: reader_i16_eq_Inr reader_take_eq_Inr from_utf8_eq_Some put_string_def)
next
  assume *: "utf8_str s \<and> i16_range (int (length s))
     \<and> rd_data r = put_string s (int (length s)) @ rd_data r' \<and> rd_part r' = rd_part r"
  let ?r1 = "r\<lparr>rd_data := as_bytes s @ rd_data r'\<rparr>"
  from * have "reader_i16 r = Inr (int (length s), ?r1)"
    by (simp add: reader_i16_eq_Inr put_string_def)
  moreover from * have "reader_take (length s) ?r1 = Inr (as_bytes s, r')"
    by (simp add: reader_take_eq_Inr)
  ultimately show "reader_string r = Inr (s, r')"
    using * by (simp add: reader_string_def codec_simps)
qed

lemma record_kind_from_code_eq_Inr:
  "record_kind_from_code c = Inr k \<longleftrightarrow> c = record_kind_code k"
  by (cases k) (auto simp: record_kind_from_code_def)

lemma record_kind_code_range [simp]: "i16_range (record_kind_code k)"
  by (cases k) (simp_all add: range_simps)

lemma reader_new_simps [simp]:
  "rd_data (reader_new d p) = d" "rd_part (reader_new d p) = p"
  by (simp_all add: reader_new_def)

lemmas reader_eq_Inr =
  reader_version_eq_Inr reader_i16_eq_Inr reader_i64_eq_Inr reader_string_eq_Inr
  reader_finish_eq_Inr record_kind_from_code_eq_Inr role_new_eq_Inr member_id_new_eq_Inr
  fencing_token_new_eq_Inr

text \<open>The same facts as rewrite rules on a buffer that starts with a written field.\<close>

lemma reader_i16_put [codec_simps]:
  "i16_range x \<Longrightarrow>
     reader_i16 \<lparr>rd_data = put_i16 x @ d, rd_part = p\<rparr> = Inr (x, \<lparr>rd_data = d, rd_part = p\<rparr>)"
  by (simp add: reader_i16_eq_Inr)

lemma reader_i64_put [codec_simps]:
  "i64_range x \<Longrightarrow>
     reader_i64 \<lparr>rd_data = put_i64 x @ d, rd_part = p\<rparr> = Inr (x, \<lparr>rd_data = d, rd_part = p\<rparr>)"
  by (simp add: reader_i64_eq_Inr)

lemma reader_i64_put_last [codec_simps]:
  "i64_range x \<Longrightarrow>
     reader_i64 \<lparr>rd_data = put_i64 x, rd_part = p\<rparr> = Inr (x, \<lparr>rd_data = [], rd_part = p\<rparr>)"
  by (simp add: reader_i64_eq_Inr)

lemma reader_version_put [codec_simps]:
  "reader_version \<lparr>rd_data = put_i16 RECORD_VERSION @ d, rd_part = p\<rparr>
     = Inr \<lparr>rd_data = d, rd_part = p\<rparr>"
  by (simp add: reader_version_eq_Inr)

lemma reader_string_put [codec_simps]:
  "utf8_str s \<Longrightarrow> i16_range (int (length s)) \<Longrightarrow> len = int (length s) \<Longrightarrow>
     reader_string \<lparr>rd_data = put_string s len @ d, rd_part = p\<rparr>
       = Inr (s, \<lparr>rd_data = d, rd_part = p\<rparr>)"
  by (simp add: reader_string_eq_Inr)

lemma reader_string_put_last [codec_simps]:
  "utf8_str s \<Longrightarrow> i16_range (int (length s)) \<Longrightarrow> len = int (length s) \<Longrightarrow>
     reader_string \<lparr>rd_data = put_string s len, rd_part = p\<rparr>
       = Inr (s, \<lparr>rd_data = [], rd_part = p\<rparr>)"
  by (simp add: reader_string_eq_Inr)

lemma name_length_range:
  "length s \<le> MAX_ROLE_LEN \<Longrightarrow> i16_range (int (length s))"
  "length s \<le> MAX_MEMBER_ID_LEN \<Longrightarrow> i16_range (int (length s))"
  by (simp_all add: MAX_ROLE_LEN_def MAX_MEMBER_ID_LEN_def range_simps)

lemma i16_range_zero [simp]: "i16_range 0"
  by (simp add: range_simps)

lemma role_new_wf [codec_simps]: "wf_role r \<Longrightarrow> role_new (role_name r) = Inr r"
  by (simp add: role_new_eq_Inr wf_role_def)

lemma member_id_new_wf [codec_simps]: "wf_member m \<Longrightarrow> member_id_new (member_name m) = Inr m"
  by (simp add: member_id_new_eq_Inr wf_member_def)

lemma fencing_token_new_wf [codec_simps]:
  "wf_token t \<Longrightarrow> fencing_token_new (producer_id t) (producer_epoch t) = Inr t"
  by (simp add: fencing_token_new_eq_Inr wf_token_def)

lemma record_kind_from_code_wf [codec_simps]:
  "record_kind_from_code (record_kind_code k) = Inr k"
  by (simp add: record_kind_from_code_eq_Inr)

lemma reader_finish_Nil [codec_simps]: "reader_finish \<lparr>rd_data = [], rd_part = p\<rparr> = Inr ()"
  by (simp add: reader_finish_def)

lemma wf_role_name:
  "wf_role r \<Longrightarrow> utf8_str (role_name r) \<and> i16_range (int (length (role_name r)))
     \<and> role_wire_length r = int (length (role_name r))"
  by (simp add: wf_role_def name_length_range)

lemma wf_member_name:
  "wf_member m \<Longrightarrow> utf8_str (member_name m) \<and> i16_range (int (length (member_name m)))
     \<and> member_wire_length m = int (length (member_name m))"
  by (simp add: wf_member_def name_length_range)

lemma wf_token_range:
  "wf_token t \<Longrightarrow> i64_range (producer_id t) \<and> i16_range (producer_epoch t)"
  by (simp add: wf_token_def)

lemmas wf_ranges = wf_role_name wf_member_name wf_token_range

section \<open>The three codecs\<close>

lemma decode_registration_iff:
  "decode_registration bs = Inr x \<longleftrightarrow> wf_registration x \<and> bs = encode_registration x"
proof
  assume "decode_registration bs = Inr x"
  then show "wf_registration x \<and> bs = encode_registration x"
    by (auto simp: decode_registration_def reader_eq_Inr wf_registration_def wf_member_def
        encode_registration_def)
next
  assume "wf_registration x \<and> bs = encode_registration x"
  then show "decode_registration bs = Inr x"
    by (auto simp: decode_registration_def encode_registration_def wf_registration_def
        reader_new_def codec_simps wf_ranges simp del: res_bind_eq_Inr)
qed

lemma decode_lease_iff:
  "decode_lease bs = Inr x \<longleftrightarrow> wf_lease x \<and> bs = encode_lease x"
proof
  assume "decode_lease bs = Inr x"
  then show "wf_lease x \<and> bs = encode_lease x"
    by (auto simp: decode_lease_def reader_eq_Inr wf_lease_def wf_member_def wf_token_def
        encode_lease_def)
next
  assume "wf_lease x \<and> bs = encode_lease x"
  then show "decode_lease bs = Inr x"
    by (auto simp: decode_lease_def encode_lease_def wf_lease_def
        reader_new_def codec_simps wf_ranges simp del: res_bind_eq_Inr)
qed

lemma key_member_eq_Inr:
  "(case kind of
      RegistrationKind \<Rightarrow> res_bind (member_id_new t) (\<lambda>m. Inr (Some m))
    | LeaseKind \<Rightarrow> if t \<noteq> [] then Inl e else Inr None) = Inr mo
   \<longleftrightarrow> (case kind of
      RegistrationKind \<Rightarrow> (\<exists>m. mo = Some m \<and> member_id_new t = Inr m)
    | LeaseKind \<Rightarrow> t = [] \<and> mo = None)"
  by (cases kind) auto

lemma decode_key_iff:
  "decode_key bs = Inr x \<longleftrightarrow> wf_key x \<and> bs = encode_key x"
proof
  assume "decode_key bs = Inr x"
  then show "wf_key x \<and> bs = encode_key x"
    by (cases "key_kind x")
      (auto simp: decode_key_def reader_eq_Inr key_member_eq_Inr wf_key_def wf_role_def
        wf_member_def encode_key_def)
next
  assume "wf_key x \<and> bs = encode_key x"
  then show "decode_key bs = Inr x"
    by (auto simp: decode_key_def encode_key_def wf_key_def reader_new_def codec_simps wf_ranges
        simp del: res_bind_eq_Inr record_kind_code.simps
        split: record_kind.splits option.splits)
qed

interpretation key_codec: frozen_codec encode_key decode_key wf_key
  by unfold_locales (rule decode_key_iff)

interpretation registration_codec: frozen_codec encode_registration decode_registration wf_registration
  by unfold_locales (rule decode_registration_iff)

interpretation lease_codec: frozen_codec encode_lease decode_lease wf_lease
  by unfold_locales (rule decode_lease_iff)

lemma decode_value_iff:
  "decode_value kind v = Inr r \<longleftrightarrow> wf_value kind r \<and> v = encode_value r"
  by (cases kind; cases r; cases v)
    (auto simp: decode_value_def decode_registration_iff decode_lease_iff)

section \<open>The text of a fencing token\<close>

lemma char_digit_digit_char [simp]: "d < 10 \<Longrightarrow> char_digit (digit_char d) = Some d"
  by (simp add: char_digit_def digit_char_def Let_def)

lemma parse_digits_append:
  "parse_digits acc (xs @ ys) =
     (case parse_digits acc xs of None \<Rightarrow> None | Some n \<Rightarrow> parse_digits n ys)"
  by (induction xs arbitrary: acc) (auto split: option.splits)

lemma parse_digits_nat_text [simp]: "parse_digits 0 (nat_text n) = Some n"
proof (induction n rule: nat_text.induct)
  case (1 n)
  show ?case
  proof (cases "n < 10")
    case True
    then show ?thesis by (simp add: nat_text.simps [of n])
  next
    case False
    with 1 show ?thesis
      by (simp add: nat_text.simps [of n] parse_digits_append)
  qed
qed

lemma nat_text_digits: "c \<in> set (nat_text n) \<Longrightarrow> char_digit c \<noteq> None"
proof (induction n rule: nat_text.induct)
  case (1 n)
  then show ?case
    by (cases "n < 10") (auto simp: nat_text.simps [of n])
qed

lemma nat_text_not_Nil [simp]: "nat_text n \<noteq> []"
  by (subst nat_text.simps) simp

lemma nat_text_chars: "c \<in> set (nat_text n) \<Longrightarrow> c \<noteq> CHR '':'' \<and> c \<noteq> CHR ''-'' \<and> c \<noteq> CHR ''+''"
  using nat_text_digits [of c n] by (auto simp: char_digit_def)

lemma parse_signed_nat_text:
  assumes "in_range (int n)"
  shows "parse_signed in_range (nat_text n) = Some (int n)"
proof -
  obtain c cs where t: "nat_text n = c # cs" by (cases "nat_text n") auto
  have "c \<noteq> CHR ''-'' \<and> c \<noteq> CHR ''+''" using nat_text_chars [of c n] t by simp
  moreover have "parse_digits 0 (c # cs) = Some n"
    using parse_digits_nat_text [of n] by (simp only: t)
  ultimately show ?thesis
    using assms by (simp only: parse_signed_def t list.case if_False Let_def prod.case
        list.distinct option.case) simp
qed

lemma parse_signed_range: "parse_signed in_range s = Some x \<Longrightarrow> in_range x"
  by (auto simp: parse_signed_def Let_def split: prod.splits option.splits if_splits)

lemma split_once_first:
  "c \<notin> set a \<Longrightarrow> split_once c (a @ c # b) = Some (a, b)"
proof -
  assume "c \<notin> set a"
  then have "\<And>x. x \<in> set a \<Longrightarrow> x \<noteq> c" by auto
  then show ?thesis
    by (simp add: split_once_def takeWhile_append2 dropWhile_append2)
qed

lemma token_text_round_trip:
  assumes "wf_token t"
  shows "fencing_token_from_str (fencing_token_to_string t) = Inr t"
proof -
  let ?p = "nat_text (nat (producer_id t))" and ?e = "nat_text (nat (producer_epoch t))"
  have printed: "fencing_token_to_string t = ?p @ CHR '':'' # ?e"
    using assms by (simp add: fencing_token_to_string_def int_text_def wf_token_def)
  have "CHR '':'' \<notin> set ?p" "CHR '':'' \<notin> set ?e"
    using nat_text_chars by blast+
  moreover have "parse_signed i64_range ?p = Some (producer_id t)"
      "parse_signed i16_range ?e = Some (producer_epoch t)"
    using assms by (auto simp: parse_signed_nat_text wf_token_def)
  ultimately show ?thesis
    using assms unfolding fencing_token_from_str_def printed
    by (simp add: split_once_first fencing_token_new_wf)
qed

section \<open>Properties\<close>

text \<open>
  C18. The decoders accept exactly the frozen layout: a key, or the value of a record under the
  kind of its key, decodes to a value if and only if the bytes are the encoding of that value
  and the value is well formed (nonempty names of at most 249 bytes of UTF-8, a token that is
  not negative, every integer inside its type, a member on a registration key and none on a
  lease key).  Every truncated, trailing, mis-versioned or otherwise malformed input is
  therefore an error, and encoding followed by decoding is the identity.
\<close>

theorem record_layout_exact:
  "(decode_key bs = Inr k \<longleftrightarrow> wf_key k \<and> bs = encode_key k)
   \<and> (decode_value kind v = Inr r \<longleftrightarrow> wf_value kind r \<and> v = encode_value r)"
  by (simp add: decode_key_iff decode_value_iff)

text \<open>
  The encoded key is a faithful compaction key: two well-formed keys have the same bytes
  only when they are the same key, so the topic never merges the records of two members, of
  two roles, or of a registration and a lease.
\<close>

theorem encode_key_injective:
  assumes "wf_key k" and "wf_key k'"
  shows "encode_key k = encode_key k' \<longleftrightarrow> k = k'"
  using assms by (rule key_codec.enc_injective)

theorem encode_key_injective_witness:
  "encode_key (lease_key (Role ''r'' 1)) \<noteq> encode_key (registration_key (Role ''r'' 1) (MemberId ''m'' 1))"
proof -
  have "wf_key (lease_key (Role ''r'' 1))"
    by (simp add: wf_key_def lease_key_def wf_role_def MAX_ROLE_LEN_def utf8_str_def as_bytes_def
        byte_of_char_def)
  moreover have "wf_key (registration_key (Role ''r'' 1) (MemberId ''m'' 1))"
    by (simp add: wf_key_def registration_key_def wf_role_def wf_member_def MAX_ROLE_LEN_def
        MAX_MEMBER_ID_LEN_def utf8_str_def as_bytes_def byte_of_char_def)
  ultimately show ?thesis
    using encode_key_injective by (simp add: lease_key_def registration_key_def)
qed

text \<open>
  The text form of a fencing token is lossless and safe to read: parsing the printed
  \<open>producer_id:producer_epoch\<close> gives back the token, and whatever text parses gives a token whose
  parts are not negative and fit an \<open>i64\<close> and an \<open>i16\<close>.
\<close>

theorem fencing_token_text_round_trip:
  "(wf_token t \<longrightarrow> fencing_token_from_str (fencing_token_to_string t) = Inr t)
   \<and> (fencing_token_from_str s = Inr t \<longrightarrow> wf_token t)"
  using token_text_round_trip [of t]
  by (auto simp: fencing_token_from_str_def fencing_token_new_eq_Inr wf_token_def
      dest!: parse_signed_range split: option.splits prod.splits if_splits)

theorem fencing_token_text_round_trip_witness:
  "fencing_token_from_str (fencing_token_to_string (FencingToken 4000 7)) = Inr (FencingToken 4000 7)"
proof -
  have "wf_token (FencingToken 4000 7)" by (simp add: wf_token_def range_simps)
  then show ?thesis using fencing_token_text_round_trip by blast
qed

end
