(* ===== verification/Errors.thy ===== *)
theory Errors
  imports Coordination_Record
begin

text \<open>
  The error enumerations that the components return: \<open>ClientError\<close> (client-core),
  \<open>ProducerError\<close> (client-producer), \<open>ConsumerError\<close> (client-consumer), \<open>AdminError\<close> (client-admin)
  and \<open>CoordinationError\<close> (client-coordination).  A cause that comes from outside the repository (an I/O error, a
  codec error, a SASL error, a \<open>Time\<close>) is kept as its printed text: no code modelled here looks
  inside it.  A formatted configuration message is a constructor with the printed values.
\<close>

datatype authentication_error =
    AuthTls string
  | AuthSasl string

datatype client_error =
    ClientConnect string string
  | ClientTls string string
  | ClientSasl string string
  | ClientAuthentication string authentication_error
  | ClientDisconnected
  | ClientInvalidConfig string
  | ClientInvalidArgument string
  | ClientTelemetryDisabled
  | ClientTimeout string
  | ClientIncompatibleVersion (iv_api_key: int) (iv_broker_min: int) (iv_broker_max: int)
      (iv_client_min: int) (iv_client_max: int)
  | ClientServer int
  | ClientNoCoordinator string
  | ClientCodec string
  | ClientIo string

fun is_authentication_failure :: "client_error \<Rightarrow> bool" where
  "is_authentication_failure (ClientAuthentication _ _) = True"
| "is_authentication_failure _ = False"

datatype record_size_limit =
    MaxRequestSize nat
  | BufferMemory

datatype producer_error =
    ProducerClient client_error
  | ProducerProtocol string
  | ProducerServer int
  | FencedProducer
  | ProducerInvalidConfig string
  | InvalidPartition int
  | InvalidTimestamp int
  | InvalidPartitionerResult int
  | BatchTooLarge nat
  | RecordTooLarge nat record_size_limit
  | BufferExhausted (be_size: nat) (be_max_block: nat) (be_total: nat) (be_available: nat)
      (be_poolable: nat)
  | ProducerClosed
  | FlushTimeout
  | MetadataTimeout string "int option" "int option" nat
  | SendTimeout
  | ProducerCompression string
  | NotTransactional
  | InvalidTransactionState string
  | TransactionAborted
  | ConcurrentTransactions
  | RecoveryRequired
  | FatalTransactionError int

text \<open>\<open>ConsumerError\<close> with the sets of topics and of partitions in ascending order.\<close>

datatype consumer_error =
    ConsumerClient client_error
  | ConsumerProtocol string
  | RebalanceFailed string
  | RebalanceListenerFailed string
  | ConsumerInvalidConfig string
  | StartupAfterJoin consumer_error
  | NotSubscribed
  | IllegalState string
  | ConsumerInvalidArgument string
  | InvalidTopic string
  | Wakeup
  | InvalidGroupId
  | ConsumerTimeout string "consumer_error option"
  | InvalidOffset int
  | NoCurrentAssignment string int
  | RetriableCommitFailed consumer_error
  | CommitInvalid
  | CoordinatorUnavailable
  | LogTruncation (lt_topic: string) (lt_partition: int) (lt_fetch_offset: int) (lt_safe_offset: int)
  | ConsumerServer int
  | GroupAuthorizationFailed string
  | TopicAuthorizationFailed "string list"
  | OffsetFetchFailed int
  | FencedInstanceId string
  | CommitFailed
  | RebalanceInProgress string
  | NoOffsetForPartition "(string \<times> int) list"

fun is_transport_error :: "client_error \<Rightarrow> bool \<Rightarrow> bool" where
  "is_transport_error (ClientConnect _ _) _ = True"
| "is_transport_error (ClientTls _ _) _ = True"
| "is_transport_error (ClientSasl _ _) _ = True"
| "is_transport_error ClientDisconnected _ = True"
| "is_transport_error (ClientIo _) _ = True"
| "is_transport_error (ClientTimeout _) includes_timeout = includes_timeout"
| "is_transport_error _ _ = False"

fun is_fatal_offset_fetch_error :: "consumer_error \<Rightarrow> bool" where
  "is_fatal_offset_fetch_error (GroupAuthorizationFailed _) = True"
| "is_fatal_offset_fetch_error (TopicAuthorizationFailed _) = True"
| "is_fatal_offset_fetch_error (OffsetFetchFailed _) = True"
| "is_fatal_offset_fetch_error _ = False"

datatype admin_error =
    AdminConnect nat "admin_error option"
  | AdminInvalidConfig string
  | AdminInvalidArgument string
  | AdminBroker (ab_api: string) (ab_code: int) (ab_name: string) (ab_message: "string option")
  | AdminTransport client_error
  | AdminProtocol string

fun admin_is_authentication_failure :: "admin_error \<Rightarrow> bool" where
  "admin_is_authentication_failure (AdminTransport e) = is_authentication_failure e"
| "admin_is_authentication_failure _ = False"

text \<open>
  The reasons that \<open>CoordinationError::InvalidConfig\<close> prints: the two of \<open>lease.rs\<close>, and those
  of \<open>broker.rs\<close>.
\<close>

datatype config_fault =
    BadExtent string string
  | RenewNotShorter int int
  | TopicReports int
  | NeedsPartition int
  | NeedsReplica int

datatype coordination_error =
    CoordRecord record_error
  | CoordClient client_error
  | CoordProducer producer_error
  | CoordAdmin admin_error
  | CoordFenced role
  | CoordNotHeld role member_id
  | CoordAcquireTimeout role
  | CoordInvalidConfig config_fault

fun coordination_is_fenced :: "coordination_error \<Rightarrow> bool" where
  "coordination_is_fenced (CoordFenced _) = True"
| "coordination_is_fenced (CoordProducer FencedProducer) = True"
| "coordination_is_fenced _ = False"

end
