(* ===== verification/Coordination_Lease.thy ===== *)
theory Coordination_Lease
  imports Errors
begin

text \<open>
  The lease clock of \<open>client-coordination/src/lease.rs\<close>: the policy \<open>LeaseConfig\<close>, the clock
  questions \<open>LeaseTiming\<close> answers, and \<open>signed_millis\<close>, which turns the host clock into an epoch
  instant.

  \<open>krabka_units::Time\<close> is not part of the repository.  It is the type parameter \<open>'t\<close>, and the
  operations that the code calls on it are the fields of \<open>time_ops\<close>; \<open>time_laws\<close> states what
  the code relies on.
\<close>

section \<open>The external time unit\<close>

record 't time_ops =
  millis_i64 :: "'t \<Rightarrow> int"
  from_millis :: "int \<Rightarrow> 't"
  secs_finite :: "'t \<Rightarrow> bool"
  secs_nonpos :: "'t \<Rightarrow> bool"
  secs_text :: "'t \<Rightarrow> string"
  time_ge :: "'t \<Rightarrow> 't \<Rightarrow> bool"

text \<open>A finite extent above zero seconds: the ones that a policy may have.\<close>

definition positive_extent :: "'t time_ops \<Rightarrow> 't \<Rightarrow> bool" where
  "positive_extent T t \<longleftrightarrow> secs_finite T t \<and> \<not> secs_nonpos T t"

text \<open>
  What the code relies on: \<open>millis_i64\<close> gives an \<open>i64\<close>, it does not turn a positive extent into
  a negative count of milliseconds, and it keeps the order of two positive extents.
\<close>

definition time_laws :: "'t time_ops \<Rightarrow> bool" where
  "time_laws T \<longleftrightarrow>
     (\<forall>t. i64_range (millis_i64 T t))
   \<and> (\<forall>t. positive_extent T t \<longrightarrow> 0 \<le> millis_i64 T t)
   \<and> (\<forall>s t. positive_extent T s \<and> positive_extent T t \<and> \<not> time_ge T s t
        \<longrightarrow> millis_i64 T s \<le> millis_i64 T t)"

section \<open>The policy\<close>

record 't lease_config =
  cfg_duration :: 't
  cfg_renew_interval :: 't
  cfg_challenge_stagger :: 't

definition check_extent :: "'t time_ops \<Rightarrow> string \<Rightarrow> 't \<Rightarrow> coordination_error + unit" where
  "check_extent T field v =
     (if \<not> secs_finite T v \<or> secs_nonpos T v
      then Inl (CoordInvalidConfig (BadExtent field (secs_text T v)))
      else Inr ())"

definition lease_config_new ::
    "'t time_ops \<Rightarrow> 't \<Rightarrow> 't \<Rightarrow> 't \<Rightarrow> coordination_error + 't lease_config" where
  "lease_config_new T duration renew_interval challenge_stagger =
     res_bind (check_extent T ''lease duration'' duration) (\<lambda>_.
     res_bind (check_extent T ''renew interval'' renew_interval) (\<lambda>_.
     res_bind (check_extent T ''challenge stagger'' challenge_stagger) (\<lambda>_.
       if time_ge T renew_interval duration
       then Inl (CoordInvalidConfig
              (RenewNotShorter (millis_i64 T renew_interval) (millis_i64 T duration)))
       else Inr \<lparr>cfg_duration = duration, cfg_renew_interval = renew_interval,
                 cfg_challenge_stagger = challenge_stagger\<rparr>)))"

definition challenge_delay_millis :: "'t time_ops \<Rightarrow> 't lease_config \<Rightarrow> nat \<Rightarrow> int" where
  "challenge_delay_millis T c rank =
     sat_mul64 (i64_of_usize rank) (millis_i64 T (cfg_challenge_stagger c))"

definition grant ::
    "'t time_ops \<Rightarrow> 't lease_config \<Rightarrow> member_id \<Rightarrow> fencing_token \<Rightarrow> int \<Rightarrow> lease" where
  "grant T c member token now_millis =
     \<lparr>lease_member = member, lease_token = token, lease_granted_at = now_millis,
      lease_deadline = sat_add64 now_millis (millis_i64 T (cfg_duration c))\<rparr>"

section \<open>The clock of one lease\<close>

record 't lease_timing =
  timing_lease :: lease
  timing_config :: "'t lease_config"

definition timing :: "'t lease_config \<Rightarrow> lease \<Rightarrow> 't lease_timing" where
  "timing c l = \<lparr>timing_lease = l, timing_config = c\<rparr>"

definition expires_at_millis :: "'t lease_timing \<Rightarrow> int" where
  "expires_at_millis lt = lease_deadline (timing_lease lt)"

definition is_live_at :: "'t lease_timing \<Rightarrow> int \<Rightarrow> bool" where
  "is_live_at lt now_millis \<longleftrightarrow> now_millis < lease_deadline (timing_lease lt)"

definition remaining_at :: "'t time_ops \<Rightarrow> 't lease_timing \<Rightarrow> int \<Rightarrow> 't" where
  "remaining_at T lt now_millis =
     from_millis T (max (sat_sub64 (lease_deadline (timing_lease lt)) now_millis) 0)"

definition renew_at_millis :: "'t time_ops \<Rightarrow> 't lease_timing \<Rightarrow> int" where
  "renew_at_millis T lt =
     min (sat_add64 (lease_granted_at (timing_lease lt))
            (millis_i64 T (cfg_renew_interval (timing_config lt))))
         (lease_deadline (timing_lease lt))"

definition renew_due_at :: "'t time_ops \<Rightarrow> 't lease_timing \<Rightarrow> int \<Rightarrow> bool" where
  "renew_due_at T lt now_millis \<longleftrightarrow> now_millis \<ge> renew_at_millis T lt"

definition challenge_at_millis :: "'t time_ops \<Rightarrow> 't lease_timing \<Rightarrow> nat \<Rightarrow> int" where
  "challenge_at_millis T lt rank =
     sat_add64 (lease_deadline (timing_lease lt))
       (challenge_delay_millis T (timing_config lt) rank)"

text \<open>
  \<open>signed_millis\<close>: a duration of the standard library is a count of milliseconds, \<^const>\<open>Inr\<close>
  after the epoch and \<^const>\<open>Inl\<close> before it.
\<close>

definition signed_millis :: "nat + nat \<Rightarrow> int" where
  "signed_millis since_epoch =
     (case since_epoch of Inr after \<Rightarrow> i64_of_usize after | Inl before \<Rightarrow> - i64_of_usize before)"

section \<open>Lemmas\<close>

lemma check_extent_eq_Inr [simp]: "check_extent T f v = Inr u \<longleftrightarrow> positive_extent T v"
  by (auto simp: check_extent_def positive_extent_def)

lemma lease_config_new_eq_Inr:
  "lease_config_new T d r s = Inr c \<longleftrightarrow>
     positive_extent T d \<and> positive_extent T r \<and> positive_extent T s \<and> \<not> time_ge T r d
   \<and> c = \<lparr>cfg_duration = d, cfg_renew_interval = r, cfg_challenge_stagger = s\<rparr>"
  by (auto simp: lease_config_new_def)

text \<open>What a policy that \<open>LeaseConfig::new\<close> accepted guarantees to the clock.\<close>

definition config_ok :: "'t time_ops \<Rightarrow> 't lease_config \<Rightarrow> bool" where
  "config_ok T c \<longleftrightarrow>
     i64_range (millis_i64 T (cfg_duration c))
   \<and> i64_range (millis_i64 T (cfg_challenge_stagger c))
   \<and> 0 \<le> millis_i64 T (cfg_renew_interval c)
   \<and> 0 \<le> millis_i64 T (cfg_challenge_stagger c)
   \<and> millis_i64 T (cfg_renew_interval c) \<le> millis_i64 T (cfg_duration c)"

lemma lease_config_new_ok: "time_laws T \<Longrightarrow> lease_config_new T d r s = Inr c \<Longrightarrow> config_ok T c"
  by (auto simp: lease_config_new_eq_Inr time_laws_def config_ok_def)

lemma i64_of_usize_nonneg [simp]: "0 \<le> i64_of_usize n"
  by (simp add: i64_of_usize_def range_simps)

lemma i64_of_usize_mono: "m \<le> n \<Longrightarrow> i64_of_usize m \<le> i64_of_usize n"
  by (simp add: i64_of_usize_def range_simps)

lemma i64_of_usize_zero [simp]: "i64_of_usize 0 = 0"
  by (simp add: i64_of_usize_def range_simps)

lemma sat64_zero [simp]: "sat64 0 = 0"
  by (simp add: sat64_def range_simps)

lemma challenge_delay_zero [simp]: "challenge_delay_millis T c 0 = 0"
  by (simp add: challenge_delay_millis_def sat_mul64_def)

lemma challenge_delay_mono:
  assumes "config_ok T c" "m \<le> n"
  shows "challenge_delay_millis T c m \<le> challenge_delay_millis T c n"
  unfolding challenge_delay_millis_def sat_mul64_def
  using assms i64_of_usize_mono [of m n]
  by (intro sat64_mono mult_right_mono) (auto simp: config_ok_def)

lemma challenge_delay_nonneg [simp]: "config_ok T c \<Longrightarrow> 0 \<le> challenge_delay_millis T c n"
  using challenge_delay_mono [of T c 0 n] by simp

lemma challenge_at_mono:
  "config_ok T c \<Longrightarrow> m \<le> n
     \<Longrightarrow> challenge_at_millis T (timing c l) m \<le> challenge_at_millis T (timing c l) n"
  by (simp add: challenge_at_millis_def timing_def sat_add64_mono challenge_delay_mono)

lemma challenge_at_ge_deadline:
  "config_ok T c \<Longrightarrow> i64_range (lease_deadline l)
     \<Longrightarrow> lease_deadline l \<le> challenge_at_millis T (timing c l) n"
  by (simp add: challenge_at_millis_def timing_def sat_add64_ge)

lemma sat_add64_mono_left: "x \<le> y \<Longrightarrow> sat_add64 x z \<le> sat_add64 y z"
  by (simp add: sat_add64_def sat64_mono)

section \<open>Properties\<close>

text \<open>Milliseconds as the time unit: an instance of the parameter for concrete runs.\<close>

definition ms_time :: "int time_ops" where
  "ms_time = \<lparr>millis_i64 = sat64, from_millis = (\<lambda>t. t), secs_finite = (\<lambda>_. True),
     secs_nonpos = (\<lambda>t. t \<le> 0), secs_text = int_text, time_ge = (\<lambda>s t. t \<le> s)\<rparr>"

lemma ms_time_laws [simp]: "time_laws ms_time"
  by (auto simp: time_laws_def ms_time_def positive_extent_def sat64_mono)
    (auto simp: sat64_def range_simps)

lemma ms_config_new:
  "0 < d \<Longrightarrow> 0 < r \<Longrightarrow> 0 < s \<Longrightarrow> r < d \<Longrightarrow> lease_config_new ms_time d r s
     = Inr \<lparr>cfg_duration = d, cfg_renew_interval = r, cfg_challenge_stagger = s\<rparr>"
  by (simp add: lease_config_new_def check_extent_def ms_time_def)

text \<open>
  C17. The clock of a lease that a member grants itself under an accepted policy: the renewal
  instant lies between the grant and the deadline, so a holder that follows it writes before it
  loses the lease; while the lease is live no rank may challenge, rank 0 may challenge exactly at
  the deadline and a later rank never before an earlier one; and a renewal never moves the
  deadline back, even where the sums saturate.
\<close>
theorem lease_clock_sound:
  assumes "time_laws T" and "lease_config_new T d r s = Inr c" and "i64_range now_millis"
  shows "now_millis \<le> renew_at_millis T (timing c (grant T c m tok now_millis))
    \<and> renew_at_millis T (timing c (grant T c m tok now_millis))
        \<le> expires_at_millis (timing c (grant T c m tok now_millis))
    \<and> (is_live_at (timing c (grant T c m tok now_millis)) t
        \<longrightarrow> t < challenge_at_millis T (timing c (grant T c m tok now_millis)) rank)
    \<and> challenge_at_millis T (timing c (grant T c m tok now_millis)) 0
        = expires_at_millis (timing c (grant T c m tok now_millis))
    \<and> (rank \<le> later \<longrightarrow>
         challenge_at_millis T (timing c (grant T c m tok now_millis)) rank
         \<le> challenge_at_millis T (timing c (grant T c m tok now_millis)) later)
    \<and> (now_millis \<le> renewed_at \<longrightarrow>
         lease_deadline (grant T c m tok now_millis) \<le> lease_deadline (grant T c m tok renewed_at))"
proof -
  let ?l = "grant T c m tok now_millis"
  have ok: "config_ok T c" using assms(1,2) by (rule lease_config_new_ok)
  have deadline: "i64_range (lease_deadline ?l)" by (simp add: grant_def)
  have renew: "now_millis \<le> sat_add64 now_millis (millis_i64 T (cfg_renew_interval c))"
    "now_millis \<le> sat_add64 now_millis (millis_i64 T (cfg_duration c))"
    using ok assms(3) by (auto simp: config_ok_def intro!: sat_add64_ge)
  have "is_live_at (timing c ?l) t \<Longrightarrow> t < challenge_at_millis T (timing c ?l) rank"
    using challenge_at_ge_deadline [OF ok deadline, of rank]
    by (simp add: is_live_at_def timing_def)
  moreover have "challenge_at_millis T (timing c ?l) 0 = expires_at_millis (timing c ?l)"
    using deadline by (simp add: challenge_at_millis_def expires_at_millis_def timing_def)
  ultimately show ?thesis
    using renew challenge_at_mono [OF ok, of rank later ?l]
    by (simp add: renew_at_millis_def expires_at_millis_def timing_def grant_def
        sat_add64_mono_left)
qed

theorem lease_clock_sound_witness:
  "let c = \<lparr>cfg_duration = 30000, cfg_renew_interval = 10000, cfg_challenge_stagger = 5000\<rparr>;
       l = grant ms_time c (MemberId ''n1'' 2) (FencingToken 7 3) 1000
   in renew_at_millis ms_time (timing c l) = 11000
    \<and> challenge_at_millis ms_time (timing c l) 2 = 41000
    \<and> 30999 < challenge_at_millis ms_time (timing c l) 1"
  using lease_clock_sound [OF ms_time_laws ms_config_new [of 30000 10000 5000], of 1000
      "MemberId ''n1'' 2" "FencingToken 7 3" 30999 1]
  by (simp add: is_live_at_def timing_def grant_def ms_time_def sat_add64_def sat64_def
      renew_at_millis_def challenge_at_millis_def challenge_delay_millis_def sat_mul64_def
      i64_of_usize_def range_simps)

end
