(* ===== verification/Coordination_Succession.thy ===== *)
theory Coordination_Succession
  imports Coordination_Lease
begin

text \<open>
  The succession rules of \<open>client-coordination/src/succession.rs\<close>: the fold of the records of
  one role into a \<open>RoleState\<close>, the challenge rank, and the decision \<open>evaluate\<close>.

  The \<open>HashMap\<close> of the fold is an association list in insertion order.  The order in which the
  code walks it does not matter, because \<open>build\<close> sorts the roster by offset and the offsets of a
  partition are distinct (\<open>roster_unique\<close>).
\<close>

section \<open>The fold\<close>

record roster_entry =
  entry_member :: member_id
  entry_offset :: int
  entry_registered_at :: int

record role_state =
  roster :: "roster_entry list"
  role_lease :: "lease option"

record member_slot =
  slot_offset :: int
  slot_registered_at :: "int option"

record lease_slot =
  lslot_offset :: int
  lslot_lease :: "lease option"

record role_state_builder =
  builder_role :: role
  members :: "(member_id \<times> member_slot) list"
  builder_lease :: "lease_slot option"

type_synonym log_record = "int \<times> coordination_key \<times> coordination_record"

definition role_state_builder_new :: "role \<Rightarrow> role_state_builder" where
  "role_state_builder_new r = \<lparr>builder_role = r, members = [], builder_lease = None\<rparr>"

definition put_member ::
    "int \<Rightarrow> member_id \<Rightarrow> int option \<Rightarrow> role_state_builder \<Rightarrow> role_state_builder" where
  "put_member ofs member registered_at b =
     (let slot = \<lparr>slot_offset = ofs, slot_registered_at = registered_at\<rparr> in
      case map_of (members b) member of
        Some held \<Rightarrow>
          (if slot_offset held \<ge> ofs then b
           else b\<lparr>members := AList.update member slot (members b)\<rparr>)
      | None \<Rightarrow> b\<lparr>members := AList.update member slot (members b)\<rparr>)"

definition put_lease :: "int \<Rightarrow> lease option \<Rightarrow> role_state_builder \<Rightarrow> role_state_builder" where
  "put_lease ofs l b =
     (case builder_lease b of
        Some held \<Rightarrow>
          (if lslot_offset held \<ge> ofs then b
           else b\<lparr>builder_lease := Some \<lparr>lslot_offset = ofs, lslot_lease = l\<rparr>\<rparr>)
      | None \<Rightarrow> b\<lparr>builder_lease := Some \<lparr>lslot_offset = ofs, lslot_lease = l\<rparr>\<rparr>)"

definition apply_record ::
    "int \<Rightarrow> coordination_key \<Rightarrow> coordination_record \<Rightarrow> role_state_builder
       \<Rightarrow> role_state_builder" where
  "apply_record ofs key rec b =
     (if key_role key \<noteq> builder_role b then b
      else case (key_kind key, rec) of
        (RegistrationKind, RegistrationRecord reg) \<Rightarrow>
          (case key_member key of
             Some member \<Rightarrow> put_member ofs member (Some (reg_registered_at reg)) b
           | None \<Rightarrow> b)
      | (RegistrationKind, TombstoneRecord) \<Rightarrow>
          (case key_member key of
             Some member \<Rightarrow> put_member ofs member None b
           | None \<Rightarrow> b)
      | (LeaseKind, LeaseRecord l) \<Rightarrow> put_lease ofs (Some l) b
      | (LeaseKind, TombstoneRecord) \<Rightarrow> put_lease ofs None b
      | (RegistrationKind, LeaseRecord _) \<Rightarrow> b
      | (LeaseKind, RegistrationRecord _) \<Rightarrow> b)"

definition roster_of :: "(member_id \<times> member_slot) list \<Rightarrow> roster_entry list" where
  "roster_of ms =
     sort_key entry_offset
       (List.map_filter (\<lambda>(member, slot).
          map_option (\<lambda>registered_at.
            \<lparr>entry_member = member, entry_offset = slot_offset slot,
             entry_registered_at = registered_at\<rparr>) (slot_registered_at slot)) ms)"

definition build :: "role_state_builder \<Rightarrow> role_state" where
  "build b = \<lparr>roster = roster_of (members b),
     role_lease = Option.bind (builder_lease b) lslot_lease\<rparr>"

definition fold_records :: "role \<Rightarrow> log_record list \<Rightarrow> role_state_builder" where
  "fold_records r records =
     foldl (\<lambda>b (ofs, key, rec). apply_record ofs key rec b) (role_state_builder_new r) records"

definition from_records :: "role \<Rightarrow> log_record list \<Rightarrow> role_state" where
  "from_records r records = build (fold_records r records)"

section \<open>Questions about a role state\<close>

definition holder :: "role_state \<Rightarrow> member_id option" where
  "holder st = map_option lease_member (role_lease st)"

definition state_entry :: "role_state \<Rightarrow> member_id \<Rightarrow> roster_entry option" where
  "state_entry st member = List.find (\<lambda>e. entry_member e = member) (roster st)"

text \<open>\<open>Iterator::position\<close>.\<close>

primrec position :: "('a \<Rightarrow> bool) \<Rightarrow> 'a list \<Rightarrow> nat option" where
  "position P [] = None"
| "position P (x # xs) = (if P x then Some 0 else map_option Suc (position P xs))"

definition rank_of :: "role_state \<Rightarrow> member_id \<Rightarrow> nat option" where
  "rank_of st member =
     (case state_entry st member of
        None \<Rightarrow> None
      | Some _ \<Rightarrow>
          (if holder st = Some member then Some 0
           else position (\<lambda>e. entry_member e = member)
                  (filter (\<lambda>e. Some (entry_member e) \<noteq> holder st) (roster st))))"

datatype decision = Hold | Challenge | Wait (until_millis: int) | NotRegistered

definition evaluate ::
    "'t time_ops \<Rightarrow> role_state \<Rightarrow> member_id \<Rightarrow> int \<Rightarrow> 't lease_config \<Rightarrow> decision" where
  "evaluate T st me now_millis c =
     (case (state_entry st me, rank_of st me) of
        (Some entry, Some rank) \<Rightarrow>
          (let decide = (\<lambda>challenge_at.
                 if now_millis \<ge> challenge_at then Challenge else Wait challenge_at) in
           case role_lease st of
             Some l \<Rightarrow>
               (if lease_member l = me \<and> is_live_at (timing c l) now_millis then Hold
                else decide (challenge_at_millis T (timing c l) rank))
           | None \<Rightarrow>
               decide (sat_add64 (entry_registered_at entry) (challenge_delay_millis T c rank)))
      | _ \<Rightarrow> NotRegistered)"

section \<open>What the fold computes\<close>

text \<open>
  The records that write the slot of one member, and those that write the lease.  The newest
  record of a slot is the one that log compaction keeps.
\<close>

definition writes_member :: "role \<Rightarrow> member_id \<Rightarrow> log_record \<Rightarrow> bool" where
  "writes_member r m x \<longleftrightarrow>
     (case x of (_, key, rec) \<Rightarrow>
        key_role key = r \<and> key_kind key = RegistrationKind \<and> key_member key = Some m
        \<and> (case rec of LeaseRecord _ \<Rightarrow> False | _ \<Rightarrow> True))"

definition writes_lease :: "role \<Rightarrow> log_record \<Rightarrow> bool" where
  "writes_lease r x \<longleftrightarrow>
     (case x of (_, key, rec) \<Rightarrow>
        key_role key = r \<and> key_kind key = LeaseKind
        \<and> (case rec of RegistrationRecord _ \<Rightarrow> False | _ \<Rightarrow> True))"

definition newest :: "(log_record \<Rightarrow> bool) \<Rightarrow> log_record list \<Rightarrow> log_record \<Rightarrow> bool" where
  "newest P records x \<longleftrightarrow> x \<in> set records \<and> P x \<and> (\<forall>y\<in>set records. P y \<longrightarrow> fst y \<le> fst x)"

fun member_slot_of :: "log_record \<Rightarrow> member_slot" where
  "member_slot_of (ofs, key, rec) =
     \<lparr>slot_offset = ofs, slot_registered_at =
        (case rec of RegistrationRecord reg \<Rightarrow> Some (reg_registered_at reg) | _ \<Rightarrow> None)\<rparr>"

fun lease_slot_of :: "log_record \<Rightarrow> lease_slot" where
  "lease_slot_of (ofs, key, rec) =
     \<lparr>lslot_offset = ofs, lslot_lease = (case rec of LeaseRecord l \<Rightarrow> Some l | _ \<Rightarrow> None)\<rparr>"

text \<open>Keeping the value of the highest offset seen so far, the shape of both slots.\<close>

definition keep_newest :: "('s \<Rightarrow> int) \<Rightarrow> 's option \<Rightarrow> 's \<Rightarrow> 's option" where
  "keep_newest off held s =
     (case held of Some h \<Rightarrow> if off h \<ge> off s then held else Some s | None \<Rightarrow> Some s)"

lemma apply_record_role [simp]: "builder_role (apply_record ofs key rec b) = builder_role b"
  by (auto simp: apply_record_def put_member_def put_lease_def Let_def
      split: record_kind.splits coordination_record.splits option.splits)

lemma apply_record_members:
  "map_of (members (apply_record ofs key rec b)) m =
     (if writes_member (builder_role b) m (ofs, key, rec)
      then keep_newest slot_offset (map_of (members b) m) (member_slot_of (ofs, key, rec))
      else map_of (members b) m)"
  by (cases "key_kind key"; cases rec; cases "key_member key")
    (auto simp: apply_record_def put_member_def put_lease_def Let_def writes_member_def
      keep_newest_def update_conv' split: option.splits)

lemma apply_record_distinct:
  "distinct (map fst (members b)) \<Longrightarrow> distinct (map fst (members (apply_record ofs key rec b)))"
  by (cases "key_kind key"; cases rec; cases "key_member key")
    (auto simp: apply_record_def put_member_def put_lease_def Let_def distinct_update
      split: option.splits)

lemma apply_record_lease:
  "builder_lease (apply_record ofs key rec b) =
     (if writes_lease (builder_role b) (ofs, key, rec)
      then keep_newest lslot_offset (builder_lease b) (lease_slot_of (ofs, key, rec))
      else builder_lease b)"
  by (cases "key_kind key"; cases rec; cases "key_member key")
    (auto simp: apply_record_def put_member_def put_lease_def Let_def writes_lease_def
      keep_newest_def split: option.splits)

lemma fold_records_snoc:
  "fold_records r (records @ [(ofs, key, rec)]) = apply_record ofs key rec (fold_records r records)"
  by (simp add: fold_records_def)

lemma fold_records_role [simp]: "builder_role (fold_records r records) = r"
  by (induction records rule: rev_induct)
    (auto simp: fold_records_snoc, simp add: fold_records_def role_state_builder_new_def)

lemma fold_records_distinct [simp]: "distinct (map fst (members (fold_records r records)))"
  by (induction records rule: rev_induct)
    (auto simp: fold_records_snoc apply_record_distinct,
     simp add: fold_records_def role_state_builder_new_def)

text \<open>
  A slot that every matching record may overwrite, and that keeps the value of the highest
  offset: after a walk it holds the newest matching record, in whatever order the walk ran.
\<close>

locale newest_slot =
  fixes run :: "log_record list \<Rightarrow> 's option"
    and P :: "log_record \<Rightarrow> bool"
    and val_of :: "log_record \<Rightarrow> 's"
    and off :: "'s \<Rightarrow> int"
  assumes run_Nil: "run [] = None"
    and run_snoc: "run (records @ [x]) =
      (if P x then keep_newest off (run records) (val_of x) else run records)"
    and off_val: "off (val_of x) = fst x"
begin

lemma run_eq_None: "run records = None \<longleftrightarrow> (\<forall>x\<in>set records. \<not> P x)"
  by (induction records rule: rev_induct)
    (auto simp: run_Nil run_snoc keep_newest_def split: option.splits)

lemma run_newest: "run records = Some s \<Longrightarrow> \<exists>x. newest P records x \<and> val_of x = s"
proof (induction records arbitrary: s rule: rev_induct)
  case Nil
  then show ?case by (simp add: run_Nil)
next
  case (snoc x records)
  show ?case
  proof (cases "P x")
    case False
    with snoc show ?thesis by (auto simp: run_snoc newest_def)
  next
    case True
    show ?thesis
    proof (cases "run records")
      case None
      with True snoc.prems show ?thesis
        by (intro exI [of _ x]) (auto simp: run_snoc keep_newest_def newest_def run_eq_None)
    next
      case (Some h)
      then obtain y where y: "newest P records y" "val_of y = h" using snoc.IH by blast
      then have "newest P (records @ [x]) (if fst x \<le> fst y then y else x)"
        using True by (auto simp: newest_def)
      moreover have "val_of (if fst x \<le> fst y then y else x) = s"
        using True snoc.prems Some y(2) off_val [of x] off_val [of y]
        by (auto simp: run_snoc keep_newest_def split: if_splits)
      ultimately show ?thesis by blast
    qed
  qed
qed

lemma run_eq_Some:
  assumes "distinct (map fst records)"
  shows "run records = Some s \<longleftrightarrow> (\<exists>x. newest P records x \<and> val_of x = s)"
proof
  assume "\<exists>x. newest P records x \<and> val_of x = s"
  then obtain x where x: "newest P records x" "val_of x = s" by blast
  then obtain s' where s': "run records = Some s'"
    using run_eq_None [of records] by (auto simp: newest_def)
  then obtain y where y: "newest P records y" "val_of y = s'" using run_newest by blast
  have "fst x = fst y" using x(1) y(1) by (auto simp: newest_def intro: antisym)
  then have "x = y"
    using x(1) y(1) assms by (auto simp: newest_def distinct_map dest: inj_onD)
  with x y s' show "run records = Some s" by simp
qed (rule run_newest)

end

interpretation member_slots:
  newest_slot "\<lambda>records. map_of (members (fold_records r records)) m"
    "writes_member r m" member_slot_of slot_offset for r m
proof unfold_locales
  show "slot_offset (member_slot_of x) = fst x" for x by (cases x) simp
qed (auto simp: fold_records_snoc apply_record_members,
     auto simp: fold_records_def role_state_builder_new_def)

interpretation lease_slots:
  newest_slot "\<lambda>records. builder_lease (fold_records r records)"
    "writes_lease r" lease_slot_of lslot_offset for r
proof unfold_locales
  show "lslot_offset (lease_slot_of x) = fst x" for x by (cases x) simp
qed (auto simp: fold_records_snoc apply_record_lease,
     auto simp: fold_records_def role_state_builder_new_def)

lemma set_map_filter: "set (List.map_filter f xs) = {y. \<exists>x\<in>set xs. f x = Some y}"
  by (induction xs) (auto simp: List.map_filter_simps split: option.splits)

lemma mem_roster_of:
  assumes "distinct (map fst ms)"
  shows "e \<in> set (roster_of ms) \<longleftrightarrow>
    (\<exists>slot. map_of ms (entry_member e) = Some slot \<and> slot_offset slot = entry_offset e
      \<and> slot_registered_at slot = Some (entry_registered_at e))"
  using assms by (auto simp: roster_of_def set_map_filter)
    (force intro!: bexI [rotated, OF map_of_SomeD])

lemma mem_roster:
  assumes "distinct (map fst records)"
  shows "e \<in> set (roster (from_records r records)) \<longleftrightarrow>
    (\<exists>key reg. newest (writes_member r (entry_member e)) records
       (entry_offset e, key, RegistrationRecord reg)
     \<and> reg_registered_at reg = entry_registered_at e)"
proof -
  have "e \<in> set (roster (from_records r records)) \<longleftrightarrow>
      (\<exists>x. newest (writes_member r (entry_member e)) records x
        \<and> slot_offset (member_slot_of x) = entry_offset e
        \<and> slot_registered_at (member_slot_of x) = Some (entry_registered_at e))"
    by (auto simp: from_records_def build_def mem_roster_of member_slots.run_eq_Some [OF assms]
        simp del: split_paired_Ex member_slot_of.simps)
  also have "\<dots> \<longleftrightarrow> (\<exists>key reg. newest (writes_member r (entry_member e)) records
       (entry_offset e, key, RegistrationRecord reg)
     \<and> reg_registered_at reg = entry_registered_at e)"
    by (auto split: coordination_record.splits) (metis coordination_record.exhaust)+
  finally show ?thesis .
qed

lemma roster_sorted [simp]: "sorted (map entry_offset (roster (from_records r records)))"
  by (simp add: from_records_def build_def roster_of_def)

lemma distinct_map_filter_members:
  "distinct (map fst ms) \<Longrightarrow> distinct (map entry_member (List.map_filter (\<lambda>(member, slot).
     map_option (\<lambda>registered_at. \<lparr>entry_member = member, entry_offset = slot_offset slot,
       entry_registered_at = registered_at\<rparr>) (slot_registered_at slot)) ms))"
  by (induction ms)
    (auto simp: List.map_filter_simps set_map_filter image_iff split: option.splits)

lemma distinct_map_sort_key [simp]: "distinct (map f (sort_key k xs)) \<longleftrightarrow> distinct (map f xs)"
  by (simp add: distinct_map)

lemma roster_members_distinct [simp]:
  "distinct (map entry_member (roster (from_records r records)))"
  by (simp add: from_records_def build_def roster_of_def distinct_map_filter_members)

lemma roster_offsets_distinct:
  assumes "distinct (map fst records)"
  shows "distinct (map entry_offset (roster (from_records r records)))"
proof -
  let ?R = "roster (from_records r records)"
  have "a = b" if "a \<in> set ?R" "b \<in> set ?R" "entry_offset a = entry_offset b" for a b
  proof -
    obtain ka ra where a: "newest (writes_member r (entry_member a)) records
        (entry_offset a, ka, RegistrationRecord ra)"
      using \<open>a \<in> set ?R\<close> by (auto simp: mem_roster [OF assms])
    obtain kb rb where b: "newest (writes_member r (entry_member b)) records
        (entry_offset b, kb, RegistrationRecord rb)"
      using \<open>b \<in> set ?R\<close> by (auto simp: mem_roster [OF assms])
    have "ka = kb"
      using a b that(3) assms by (auto simp: newest_def dest: eq_key_imp_eq_value)
    then have "entry_member a = entry_member b"
      using a b by (auto simp: newest_def writes_member_def)
    then show ?thesis
      using that roster_members_distinct [of r records] by (auto simp: distinct_map dest: inj_onD)
  qed
  moreover have "distinct ?R" using roster_members_distinct distinct_map by blast
  ultimately show ?thesis by (auto simp: distinct_map intro: inj_onI)
qed

text \<open>Two lists in strictly ascending key order with the same elements are the same list.\<close>

lemma sorted_key_unique:
  assumes "sorted (map f xs)" "distinct (map f xs)" "sorted (map f ys)" "distinct (map f ys)"
    and "set xs = set ys"
  shows "xs = ys"
proof -
  have "map f xs = map f ys"
    using assms by (intro sorted_distinct_set_unique) auto
  moreover have "inj_on f (set xs \<union> set ys)"
    using assms by (simp add: distinct_map)
  ultimately show ?thesis by (rule map_inj_on)
qed

lemma lease_of_records:
  assumes "distinct (map fst records)"
  shows "role_lease (from_records r records) = Some l \<longleftrightarrow>
    (\<exists>ofs key. newest (writes_lease r) records (ofs, key, LeaseRecord l))"
proof -
  have "role_lease (from_records r records) = Some l \<longleftrightarrow>
      (\<exists>x. newest (writes_lease r) records x \<and> lslot_lease (lease_slot_of x) = Some l)"
    by (auto simp: from_records_def build_def bind_eq_Some_conv lease_slots.run_eq_Some [OF assms]
        simp del: split_paired_Ex lease_slot_of.simps)
  also have "\<dots> \<longleftrightarrow> (\<exists>ofs key. newest (writes_lease r) records (ofs, key, LeaseRecord l))"
    by (auto split: coordination_record.splits) (metis coordination_record.exhaust)+
  finally show ?thesis .
qed

text \<open>
  Two logs with the same newest records give the same role state: the order of the walk and the
  superseded records do not matter.
\<close>

lemma from_records_cong:
  assumes "distinct (map fst xs)" "distinct (map fst ys)"
    and "\<And>m x. newest (writes_member r m) xs x \<longleftrightarrow> newest (writes_member r m) ys x"
    and "\<And>x. newest (writes_lease r) xs x \<longleftrightarrow> newest (writes_lease r) ys x"
  shows "from_records r xs = from_records r ys"
proof -
  have "roster (from_records r xs) = roster (from_records r ys)"
    using assms by (intro sorted_key_unique [of entry_offset] roster_offsets_distinct roster_sorted)
      (auto simp: mem_roster)
  moreover have "role_lease (from_records r xs) = role_lease (from_records r ys)"
    using assms by (intro option_ext) (simp add: lease_of_records)
  ultimately show ?thesis by simp
qed

section \<open>Ranks and decisions\<close>

lemma position_eq_None: "position P xs = None \<longleftrightarrow> (\<forall>x\<in>set xs. \<not> P x)"
  by (induction xs) auto

lemma position_append:
  "position P (xs @ ys) = (case position P xs of
     Some i \<Rightarrow> Some i | None \<Rightarrow> map_option (\<lambda>i. length xs + i) (position P ys))"
  by (induction xs) (cases "position P ys"; auto split: option.splits)+

lemma position_less: "position P xs = Some i \<Longrightarrow> i < length xs"
  by (induction xs arbitrary: i) (auto split: if_splits)

lemma position_nth:
  "distinct (map g xs) \<Longrightarrow> i < length xs \<Longrightarrow> position (\<lambda>x. g x = g (xs ! i)) xs = Some i"
proof (induction xs arbitrary: i)
  case (Cons x xs)
  then show ?case by (cases i) (auto simp: image_iff)
qed simp

lemma position_order:
  fixes f :: "'a \<Rightarrow> 'o :: linorder"
  assumes "sorted (map f xs)" "distinct (map g xs)" "a \<in> set xs" "b \<in> set xs" "f a < f b"
  shows "\<exists>i j. position (\<lambda>x. g x = g a) xs = Some i \<and> position (\<lambda>x. g x = g b) xs = Some j \<and> i < j"
proof -
  obtain i j where ij: "i < length xs" "xs ! i = a" "j < length xs" "xs ! j = b"
    using assms(3,4) by (auto simp: in_set_conv_nth)
  have "i < j"
  proof (rule ccontr)
    assume "\<not> i < j"
    then have "f (xs ! j) \<le> f (xs ! i)"
      using assms(1) ij by (auto simp: sorted_iff_nth_mono)
    with assms(5) ij show False by simp
  qed
  then show ?thesis
    using position_nth [OF assms(2) ij(1)] position_nth [OF assms(2) ij(3)] ij by auto
qed

lemma state_entry_eq_None: "state_entry st m = None \<longleftrightarrow> m \<notin> entry_member ` set (roster st)"
  by (auto simp: state_entry_def find_None_iff)

lemma rank_of_eq_None: "rank_of st m = None \<longleftrightarrow> m \<notin> entry_member ` set (roster st)"
proof (cases "state_entry st m")
  case None
  then have "m \<notin> entry_member ` set (roster st)" using state_entry_eq_None by blast
  with None show ?thesis by (simp add: rank_of_def)
next
  case (Some e)
  then have "m \<in> entry_member ` set (roster st)" using state_entry_eq_None [of st m] by auto
  moreover from this have "holder st \<noteq> Some m \<Longrightarrow> position (\<lambda>e. entry_member e = m)
      (filter (\<lambda>e. Some (entry_member e) \<noteq> holder st) (roster st)) \<noteq> None"
    by (auto simp: position_eq_None simp del: not_None_eq)
  ultimately show ?thesis
    using Some by (simp add: rank_of_def)
qed

text \<open>A member that joined later never outranks one that joined earlier.\<close>

lemma rank_of_order:
  assumes "sorted (map entry_offset (roster st))" "distinct (map entry_member (roster st))"
    and "a \<in> set (roster st)" "Some (entry_member a) \<noteq> holder st"
    and "b \<in> set (roster st)" "Some (entry_member b) \<noteq> holder st"
    and "entry_offset a < entry_offset b"
  shows "\<exists>i j. rank_of st (entry_member a) = Some i \<and> rank_of st (entry_member b) = Some j \<and> i < j"
proof -
  let ?L = "filter (\<lambda>e. Some (entry_member e) \<noteq> holder st) (roster st)"
  have "sorted (map entry_offset ?L)" using assms(1) by (rule sorted_filter)
  moreover have "distinct (map entry_member ?L)" using assms(2) by (rule distinct_map_filter)
  moreover have "a \<in> set ?L" "b \<in> set ?L" using assms by auto
  ultimately obtain i j where "position (\<lambda>x. entry_member x = entry_member a) ?L = Some i"
      "position (\<lambda>x. entry_member x = entry_member b) ?L = Some j" "i < j"
    using position_order [of entry_offset ?L entry_member a b] assms(7) by blast
  moreover have "state_entry st (entry_member a) \<noteq> None" "state_entry st (entry_member b) \<noteq> None"
    using assms(3,5) by (auto simp: state_entry_eq_None simp del: not_None_eq)
  ultimately show ?thesis
    using assms(4,6) by (auto simp: rank_of_def)
qed

text \<open>The instant from which a registered member may challenge: the anchor of rule 3.\<close>

definition challenge_instant ::
    "'t time_ops \<Rightarrow> role_state \<Rightarrow> roster_entry \<Rightarrow> nat \<Rightarrow> 't lease_config \<Rightarrow> int" where
  "challenge_instant T st e rank c =
     (case role_lease st of
        Some l \<Rightarrow> challenge_at_millis T (timing c l) rank
      | None \<Rightarrow> sat_add64 (entry_registered_at e) (challenge_delay_millis T c rank))"

lemma evaluate_registered:
  assumes "state_entry st me = Some e" "rank_of st me = Some rank"
  shows "evaluate T st me t c =
    (if \<exists>l. role_lease st = Some l \<and> lease_member l = me \<and> t < lease_deadline l then Hold
     else if challenge_instant T st e rank c \<le> t then Challenge
     else Wait (challenge_instant T st e rank c))"
  using assms
  by (simp add: evaluate_def challenge_instant_def is_live_at_def timing_def Let_def
      split: option.splits)

lemma evaluate_unregistered: "state_entry st me = None \<Longrightarrow> evaluate T st me t c = NotRegistered"
  by (simp add: evaluate_def)

lemma entry_has_rank:
  "state_entry st me = Some e \<Longrightarrow> \<exists>rank. rank_of st me = Some rank"
  using state_entry_eq_None [of st me] rank_of_eq_None [of st me] by auto

lemma challenge_instant_range [simp]: "i64_range (challenge_instant T st e rank c)"
  by (simp add: challenge_instant_def challenge_at_millis_def split: option.splits)

lemma challenge_instant_ge_deadline:
  "config_ok T c \<Longrightarrow> role_lease st = Some l \<Longrightarrow> i64_range (lease_deadline l)
     \<Longrightarrow> lease_deadline l \<le> challenge_instant T st e rank c"
  by (simp add: challenge_instant_def challenge_at_ge_deadline)

lemma holder_rank: "role_lease st = Some l \<Longrightarrow> rank_of st (lease_member l) \<in> {None, Some 0}"
  by (simp add: rank_of_def holder_def split: option.splits)

lemma holder_challenge_instant:
  assumes "role_lease st = Some l" "i64_range (lease_deadline l)"
    and "rank_of st (lease_member l) = Some rank"
  shows "challenge_instant T st e rank c = lease_deadline l"
  using assms holder_rank [of st l]
  by (simp add: challenge_instant_def challenge_at_millis_def timing_def)

lemma evaluate_Hold_iff:
  "evaluate T st me t c = Hold \<longleftrightarrow>
     me \<in> entry_member ` set (roster st)
   \<and> (\<exists>l. role_lease st = Some l \<and> lease_member l = me \<and> t < lease_deadline l)"
proof (cases "state_entry st me")
  case None
  then show ?thesis using evaluate_unregistered [of st me T t c] state_entry_eq_None [of st me] by simp
next
  case (Some e)
  then show ?thesis
    using entry_has_rank [OF Some] state_entry_eq_None [of st me]
    by (auto simp: evaluate_registered split: if_splits)
qed

lemma evaluate_NotRegistered_iff:
  "evaluate T st me t c = NotRegistered \<longleftrightarrow> me \<notin> entry_member ` set (roster st)"
proof (cases "state_entry st me")
  case None
  then show ?thesis using evaluate_unregistered [of st me T t c] state_entry_eq_None [of st me] by simp
next
  case (Some e)
  then show ?thesis
    using entry_has_rank [OF Some] state_entry_eq_None [of st me]
    by (auto simp: evaluate_registered split: if_splits)
qed

lemma no_early_challenge:
  assumes "config_ok T c" "role_lease st = Some l" "i64_range (lease_deadline l)"
    and "evaluate T st me t c = Challenge"
  shows "lease_deadline l \<le> t"
proof -
  obtain e where e: "state_entry st me = Some e"
    using assms(4) evaluate_unregistered by (metis decision.distinct(9) option.exhaust)
  then obtain rank where "rank_of st me = Some rank" using entry_has_rank by blast
  then show ?thesis
    using assms challenge_instant_ge_deadline [OF assms(1-3), of e rank]
    by (auto simp: evaluate_registered [OF e] split: if_splits)
qed

lemma wait_is_stable:
  assumes "config_ok T c" "\<And>l. role_lease st = Some l \<Longrightarrow> i64_range (lease_deadline l)"
    and "evaluate T st me t c = Wait u"
  shows "i64_range u \<and> t < u
    \<and> (\<forall>t'. t \<le> t' \<longrightarrow> evaluate T st me t' c = (if t' < u then Wait u else Challenge))"
proof -
  obtain e where e: "state_entry st me = Some e"
    using assms(3) evaluate_unregistered by (metis decision.distinct(11) option.exhaust)
  then obtain rank where rank: "rank_of st me = Some rank" using entry_has_rank by blast
  let ?u = "challenge_instant T st e rank c"
  have u: "u = ?u" "t < ?u"
    and "\<not> (\<exists>l. role_lease st = Some l \<and> lease_member l = me \<and> t < lease_deadline l)"
    using assms(3) by (auto simp: evaluate_registered [OF e rank] split: if_splits)
  then have "evaluate T st me t' c = (if t' < u then Wait u else Challenge)" if "t \<le> t'" for t'
    using that by (auto simp: evaluate_registered [OF e rank])
  with u show ?thesis by simp
qed

section \<open>Properties\<close>

text \<open>A log as \<open>decode_key\<close> and \<open>decode_value\<close> give it, with one record per offset.\<close>

definition decoded_log :: "log_record list \<Rightarrow> bool" where
  "decoded_log records \<longleftrightarrow> distinct (map fst records)
     \<and> (\<forall>(ofs, key, rec) \<in> set records. wf_key key \<and> wf_value (key_kind key) rec)"

text \<open>
  A copy of a log after any amount of compaction, in any order: it has records of the log only,
  and the newest record of every key is among them.
\<close>

definition compacted_from :: "log_record list \<Rightarrow> log_record list \<Rightarrow> bool" where
  "compacted_from records kept \<longleftrightarrow> set kept \<subseteq> set records \<and> distinct (map fst kept)
     \<and> (\<forall>x\<in>set records. (\<forall>y\<in>set records. fst (snd y) = fst (snd x) \<longrightarrow> fst y \<le> fst x)
          \<longrightarrow> x \<in> set kept)"

lemma compacted_newest:
  assumes "compacted_from records kept"
    and key: "\<And>x y. x \<in> set records \<Longrightarrow> y \<in> set records \<Longrightarrow> P x
      \<Longrightarrow> P y \<longleftrightarrow> fst (snd y) = fst (snd x)"
  shows "newest P kept x \<longleftrightarrow> newest P records x"
proof
  assume x: "newest P kept x"
  then have in_records: "x \<in> set records" using assms(1) by (auto simp: compacted_from_def newest_def)
  have "fst y \<le> fst x" if y: "y \<in> set records" "P y" for y
  proof -
    let ?S = "{z \<in> set records. fst (snd z) = fst (snd y)}"
    have "y \<in> ?S" using y by simp
    then have "fst ` ?S \<noteq> {}" by blast
    moreover have "finite (fst ` ?S)" by simp
    ultimately have "Max (fst ` ?S) \<in> fst ` ?S" by (intro Max_in)
    then obtain z where z: "z \<in> ?S" "fst z = Max (fst ` ?S)" by force
    have "fst w \<le> fst z" if "w \<in> ?S" for w
      using that z(2) by simp
    then have "z \<in> set kept" and "fst y \<le> fst z"
      using assms(1) z(1) y by (auto simp: compacted_from_def)
    moreover have "P z" using key [OF y(1) _ y(2), of z] z(1) by auto
    ultimately show ?thesis using x by (force simp: newest_def)
  qed
  with x in_records show "newest P records x" by (auto simp: newest_def)
next
  assume x: "newest P records x"
  then have "\<forall>y\<in>set records. fst (snd y) = fst (snd x) \<longrightarrow> fst y \<le> fst x"
    using key [of x] by (auto simp: newest_def)
  with x show "newest P kept x"
    using assms(1) by (auto simp: compacted_from_def newest_def)
qed

lemma decoded_writes_member:
  assumes "decoded_log records" "x \<in> set records"
  shows "writes_member r m x \<longleftrightarrow> fst (snd x) = registration_key r m"
proof -
  obtain ofs key rec where x: "x = (ofs, key, rec)" by (cases x)
  then have "wf_key key" "wf_value (key_kind key) rec" using assms by (auto simp: decoded_log_def)
  then show ?thesis
    by (cases rec; cases "key_kind key"; cases key)
      (auto simp: x writes_member_def registration_key_def)
qed

lemma decoded_writes_lease:
  assumes "decoded_log records" "x \<in> set records"
  shows "writes_lease r x \<longleftrightarrow> fst (snd x) = lease_key r"
proof -
  obtain ofs key rec where x: "x = (ofs, key, rec)" by (cases x)
  then have "wf_key key" "wf_value (key_kind key) rec" using assms by (auto simp: decoded_log_def)
  then show ?thesis
    by (cases rec; cases "key_kind key"; cases key)
      (auto simp: x writes_lease_def lease_key_def wf_key_def)
qed

text \<open>
  C14. The role state of a decoded log is the newest record of every key: the roster holds exactly
  the members whose newest registration record is not a tombstone, in strictly ascending offset
  order, and the lease is the newest lease record; and the state does not change when the log is
  compacted or read in another order.
\<close>
theorem role_state_of_log:
  assumes "decoded_log records" and "compacted_from records kept"
  shows "(e \<in> set (roster (from_records r records)) \<longleftrightarrow>
        (\<exists>key reg. newest (writes_member r (entry_member e)) records
           (entry_offset e, key, RegistrationRecord reg)
         \<and> reg_registered_at reg = entry_registered_at e))
    \<and> sorted_wrt (<) (map entry_offset (roster (from_records r records)))
    \<and> (role_lease (from_records r records) = Some l \<longleftrightarrow>
        (\<exists>ofs key. newest (writes_lease r) records (ofs, key, LeaseRecord l)))
    \<and> from_records r kept = from_records r records"
proof -
  have d: "distinct (map fst records)" using assms(1) by (simp add: decoded_log_def)
  have "from_records r kept = from_records r records"
  proof (rule from_records_cong)
    show "distinct (map fst kept)" using assms(2) by (simp add: compacted_from_def)
    show "newest (writes_member r m) kept x \<longleftrightarrow> newest (writes_member r m) records x" for m x
      by (rule compacted_newest [OF assms(2)]) (auto simp: decoded_writes_member [OF assms(1)])
    show "newest (writes_lease r) kept x \<longleftrightarrow> newest (writes_lease r) records x" for x
      by (rule compacted_newest [OF assms(2)]) (auto simp: decoded_writes_lease [OF assms(1)])
  qed (fact d)
  moreover have "sorted_wrt (<) (map entry_offset (roster (from_records r records)))"
    using roster_offsets_distinct [OF d] by (simp add: strict_sorted_iff)
  ultimately show ?thesis
    using mem_roster [OF d] lease_of_records [OF d] by blast
qed

definition log_example :: "log_record list" where
  "log_example =
    [(0, registration_key (Role ''r'' 1) (MemberId ''a'' 1),
        RegistrationRecord \<lparr>reg_member = MemberId ''a'' 1, reg_registered_at = 5\<rparr>),
     (1, registration_key (Role ''r'' 1) (MemberId ''b'' 1),
        RegistrationRecord \<lparr>reg_member = MemberId ''b'' 1, reg_registered_at = 6\<rparr>),
     (2, registration_key (Role ''r'' 1) (MemberId ''a'' 1),
        RegistrationRecord \<lparr>reg_member = MemberId ''a'' 1, reg_registered_at = 9\<rparr>)]"

lemma log_example_decoded: "decoded_log log_example"
  by (simp add: decoded_log_def log_example_def registration_key_def wf_key_def wf_role_def
      wf_member_def wf_registration_def MAX_ROLE_LEN_def MAX_MEMBER_ID_LEN_def utf8_str_def
      as_bytes_def byte_of_char_def range_simps)

theorem role_state_of_log_witness:
  "compacted_from log_example (rev (tl log_example))
   \<and> from_records (Role ''r'' 1) (rev (tl log_example)) = from_records (Role ''r'' 1) log_example
   \<and> map entry_member (roster (from_records (Role ''r'' 1) log_example))
       = [MemberId ''b'' 1, MemberId ''a'' 1]"
proof -
  have c: "compacted_from log_example (rev (tl log_example))"
    by (auto simp: compacted_from_def log_example_def)
  show ?thesis
    using c role_state_of_log [OF log_example_decoded c, of _ "Role ''r'' 1"]
    by (simp add: log_example_def from_records_def fold_records_def role_state_builder_new_def
        apply_record_def put_member_def registration_key_def build_def roster_of_def
        List.map_filter_simps)
qed

text \<open>
  Registering again: the record gets the highest offset of the partition, so it is the newest
  record of its member and it changes no other slot.
\<close>

lemma newest_snoc_other: "\<not> P x \<Longrightarrow> newest P (records @ [x]) y \<longleftrightarrow> newest P records y"
  by (auto simp: newest_def)

lemma newest_snoc_self:
  assumes "P x" "\<And>y. y \<in> set records \<Longrightarrow> fst y < fst x"
  shows "newest P (records @ [x]) y \<longleftrightarrow> y = x"
proof
  assume "newest P (records @ [x]) y"
  then have "y \<in> insert x (set records)" "fst x \<le> fst y" using assms(1) by (auto simp: newest_def)
  with assms(2) [of y] show "y = x" by auto
next
  assume "y = x"
  then show "newest P (records @ [x]) y"
    using assms by (auto simp: newest_def dest!: assms(2))
qed

lemma roster_offset_bound:
  assumes "distinct (map fst records)" "\<And>x. x \<in> set records \<Longrightarrow> fst x < ofs"
    and "e \<in> set (roster (from_records r records))"
  shows "entry_offset e < ofs"
  using assms by (auto simp: mem_roster newest_def)

lemma register_at_tail:
  assumes d: "distinct (map fst records)" and tail: "\<And>x. x \<in> set records \<Longrightarrow> fst x < ofs"
    and x_def: "x = (ofs, registration_key r m, RegistrationRecord reg)"
  shows "roster (from_records r (records @ [x])) =
      filter (\<lambda>e. entry_member e \<noteq> m) (roster (from_records r records))
      @ [\<lparr>entry_member = m, entry_offset = ofs, entry_registered_at = reg_registered_at reg\<rparr>]"
    (is "?L = ?R @ [?e]")
    and "role_lease (from_records r (records @ [x])) = role_lease (from_records r records)"
proof -
  have d': "distinct (map fst (records @ [x]))" using d tail by (force simp: x_def)
  have others: "writes_member r n x \<longleftrightarrow> n = m" for n
    by (auto simp: x_def writes_member_def registration_key_def)
  have mem: "a \<in> set ?L \<longleftrightarrow> a \<in> set (?R @ [?e])" for a
  proof (cases "entry_member a = m")
    case True
    then have "writes_member r (entry_member a) x" by (simp add: others)
    then have "newest (writes_member r (entry_member a)) (records @ [x]) y \<longleftrightarrow> y = x" for y
      using tail by (intro newest_snoc_self) (auto simp: x_def)
    then have "a \<in> set ?L \<longleftrightarrow> (\<exists>key reg'. (entry_offset a, key, RegistrationRecord reg') = x
        \<and> reg_registered_at reg' = entry_registered_at a)"
      by (simp add: mem_roster [OF d'])
    then show ?thesis
      using True by (cases a) (auto simp: x_def)
  next
    case False
    then show ?thesis
      by (auto simp: mem_roster [OF d] mem_roster [OF d'] others newest_snoc_other)
  qed
  show "?L = ?R @ [?e]"
  proof (rule sorted_key_unique [of entry_offset])
    have "sorted (map entry_offset ?R)"
      using roster_sorted by (rule sorted_filter)
    then show "sorted (map entry_offset (?R @ [?e]))"
      using roster_offset_bound [OF d tail] by (force simp: sorted_append)
    have "distinct (map entry_offset ?R)"
      using roster_offsets_distinct [OF d] by (simp add: distinct_map_filter)
    then show "distinct (map entry_offset (?R @ [?e]))"
      using roster_offset_bound [OF d tail] by force
    show "set ?L = set (?R @ [?e])" using mem by blast
  qed (simp_all add: roster_offsets_distinct [OF d'])
  have "\<not> writes_lease r x" by (simp add: x_def writes_lease_def registration_key_def)
  then show "role_lease (from_records r (records @ [x])) = role_lease (from_records r records)"
    by (intro option_ext) (simp add: lease_of_records [OF d'] lease_of_records [OF d] newest_snoc_other)
qed

lemma rank_of_tail:
  assumes "roster st = es @ [e]" "m \<notin> entry_member ` set es" "entry_member e = m"
    and "holder st \<noteq> Some m"
  shows "rank_of st m = Some (length (filter (\<lambda>a. Some (entry_member a) \<noteq> holder st) es))"
proof -
  have "state_entry st m \<noteq> None" using assms by (simp add: state_entry_eq_None del: not_None_eq)
  moreover have "position (\<lambda>a. entry_member a = m)
      (filter (\<lambda>a. Some (entry_member a) \<noteq> holder st) es) = None"
    using assms(2) by (auto simp: position_eq_None)
  ultimately show ?thesis
    using assms by (auto simp: rank_of_def position_append)
qed

text \<open>
  C15. No failback: a member that registers again, at an offset past every record of the partition,
  leaves its old place and lands at the tail of the roster; the order of the others and the lease
  do not change, so unless the lease already names it, it ranks behind every other contender and
  cannot preempt the member that replaced it.
\<close>
theorem no_failback:
  assumes "distinct (map fst records)" and "\<forall>x\<in>set records. fst x < ofs"
  shows "let before = from_records r records;
             after = from_records r
               (records @ [(ofs, registration_key r m, RegistrationRecord reg)])
         in roster after = filter (\<lambda>e. entry_member e \<noteq> m) (roster before)
              @ [\<lparr>entry_member = m, entry_offset = ofs,
                  entry_registered_at = reg_registered_at reg\<rparr>]
          \<and> role_lease after = role_lease before
          \<and> (holder before \<noteq> Some m \<longrightarrow>
               rank_of after m = Some (length (filter (\<lambda>e. entry_member e \<noteq> m
                 \<and> Some (entry_member e) \<noteq> holder before) (roster before))))"
proof -
  let ?before = "from_records r records"
  let ?after = "from_records r (records @ [(ofs, registration_key r m, RegistrationRecord reg)])"
  note tail = register_at_tail [OF assms(1), of ofs _ r m reg]
  have roster: "roster ?after = filter (\<lambda>e. entry_member e \<noteq> m) (roster ?before)
      @ [\<lparr>entry_member = m, entry_offset = ofs, entry_registered_at = reg_registered_at reg\<rparr>]"
    and lease: "role_lease ?after = role_lease ?before"
    using tail assms(2) by auto
  have "rank_of ?after m = Some (length (filter (\<lambda>e. entry_member e \<noteq> m
      \<and> Some (entry_member e) \<noteq> holder ?before) (roster ?before)))" if "holder ?before \<noteq> Some m"
    using rank_of_tail [OF roster, of m] that lease by (auto simp: holder_def conj_commute)
  with roster lease show ?thesis by (simp add: Let_def)
qed

theorem no_failback_witness:
  "let after = from_records (Role ''r'' 1) (log_example @
       [(7, registration_key (Role ''r'' 1) (MemberId ''b'' 1),
         RegistrationRecord \<lparr>reg_member = MemberId ''b'' 1, reg_registered_at = 20\<rparr>)])
   in map entry_member (roster after) = [MemberId ''a'' 1, MemberId ''b'' 1]
    \<and> rank_of after (MemberId ''b'' 1) = Some 1"
  using no_failback [of log_example 7 "Role ''r'' 1" "MemberId ''b'' 1"
      "\<lparr>reg_member = MemberId ''b'' 1, reg_registered_at = 20\<rparr>"]
  by (simp add: Let_def log_example_def from_records_def fold_records_def holder_def
      role_state_builder_new_def apply_record_def put_member_def registration_key_def build_def
      roster_of_def List.map_filter_simps)



end
