(* ===== verification/Succession_Model.thy ===== *)
theory Succession_Model
  imports Coordination_Succession
begin

text \<open>
  The cluster of \<open>client-coordination/src/succession/model.rs\<close>: three candidates that run
  \<^const>\<open>evaluate\<close>, a transaction coordinator that mints strictly growing epochs, and a broker
  that fences a write whose epoch is not the newest minted one.  Candidates crash, lose their
  session and come back at any point.  The repository explores this state machine up to a depth and
  a number of states; here its properties hold in every reachable state, for every accepted policy.
  The caps that are part of the state machine itself stay: at most four ticks, three epochs, the
  offsets up to four and two crashes (\<open>MAX_TICK\<close>, \<open>MAX_EPOCH\<close>, \<open>MAX_OFFSET\<close>, \<open>MAX_CRASHES\<close>).
\<close>

section \<open>The state machine\<close>

definition MEMBERS :: nat where "MEMBERS = 3"
definition TICK_MILLIS :: int where "TICK_MILLIS = 1000"
definition LEASE_TICKS :: nat where "LEASE_TICKS = 2"
definition PRODUCER_ID :: int where "PRODUCER_ID = 1"
definition MAX_TICK :: nat where "MAX_TICK = 4"
definition MAX_EPOCH :: nat where "MAX_EPOCH = 3"
definition MAX_OFFSET :: nat where "MAX_OFFSET = 4"
definition MAX_CRASHES :: nat where "MAX_CRASHES = 2"

record candidate =
  cand_up :: bool
  cand_offset :: "nat option"
  cand_registered_at :: nat
  cand_epoch :: "nat option"
  cand_pending :: bool

definition candidate_down :: candidate where
  "candidate_down = \<lparr>cand_up = False, cand_offset = None, cand_registered_at = 0,
     cand_epoch = None, cand_pending = False\<rparr>"

definition candidate_start :: candidate where
  "candidate_start = candidate_down\<lparr>cand_up := True\<rparr>"

definition registered :: "candidate \<Rightarrow> bool" where
  "registered c \<longleftrightarrow> cand_up c \<and> cand_offset c \<noteq> None"

record lease_state =
  ls_holder :: nat
  ls_epoch :: nat
  ls_deadline :: nat

record cluster =
  cl_now :: nat
  next_offset :: nat
  minted :: nat
  crashes :: nat
  candidates :: "candidate list"
  cl_lease :: "lease_state option"
  lease_epoch_water :: nat
  fenced_write_seen :: bool

datatype act =
    Tick
  | Register nat
  | Mint nat
  | PublishLease nat
  | Renew nat
  | Crash nat
  | ExpireSession nat
  | Recover nat

definition model_ids :: "member_id list" where
  "model_ids = [MemberId ''m0'' 2, MemberId ''m1'' 2, MemberId ''m2'' 2]"

definition millis :: "nat \<Rightarrow> int" where
  "millis ticks = int ticks * TICK_MILLIS"

definition model_lease :: "lease_state \<Rightarrow> lease" where
  "model_lease l = \<lparr>lease_member = model_ids ! ls_holder l,
     lease_token = FencingToken PRODUCER_ID (int (ls_epoch l)),
     lease_granted_at = millis (ls_deadline l - LEASE_TICKS),
     lease_deadline = millis (ls_deadline l)\<rparr>"

definition candidate_entry :: "nat \<times> candidate \<Rightarrow> roster_entry option" where
  "candidate_entry ic = map_option (\<lambda>ofs.
     \<lparr>entry_member = model_ids ! fst ic, entry_offset = int ofs,
      entry_registered_at = millis (cand_registered_at (snd ic))\<rparr>) (cand_offset (snd ic))"

definition role_state_of :: "cluster \<Rightarrow> role_state" where
  "role_state_of s =
     \<lparr>roster = sort_key entry_offset
        (List.map_filter candidate_entry (List.enumerate 0 (candidates s))),
      role_lease = map_option model_lease (cl_lease s)\<rparr>"

definition outcome :: "'t time_ops \<Rightarrow> 't lease_config \<Rightarrow> cluster \<Rightarrow> nat \<Rightarrow> decision" where
  "outcome T c s i = evaluate T (role_state_of s) (model_ids ! i) (millis (cl_now s)) c"

definition outcomes :: "'t time_ops \<Rightarrow> 't lease_config \<Rightarrow> cluster \<Rightarrow> decision option list" where
  "outcomes T c s = map (\<lambda>i. if registered (candidates s ! i) then Some (outcome T c s i) else None)
     [0..<MEMBERS]"

definition lease_is_live :: "cluster \<Rightarrow> bool" where
  "lease_is_live s \<longleftrightarrow> (case cl_lease s of Some l \<Rightarrow> cl_now s < ls_deadline l | None \<Rightarrow> False)"

definition normalise :: "cluster \<Rightarrow> cluster" where
  "normalise s = (case cl_lease s of
     Some _ \<Rightarrow> s\<lparr>candidates := map (\<lambda>c. c\<lparr>cand_registered_at := 0\<rparr>) (candidates s)\<rparr>
   | None \<Rightarrow> s)"

definition init_state :: cluster where
  "init_state = \<lparr>cl_now = 0, next_offset = 0, minted = 0, crashes = 0,
     candidates = replicate MEMBERS candidate_start, cl_lease = None, lease_epoch_water = 0,
     fenced_write_seen = False\<rparr>"

definition candidate_acts :: "'t time_ops \<Rightarrow> 't lease_config \<Rightarrow> cluster \<Rightarrow> nat \<Rightarrow> act list" where
  "candidate_acts T c s i =
     (let k = candidates s ! i in
      if \<not> cand_up k then
        Recover i # (if cand_offset k \<noteq> None then [ExpireSession i] else [])
      else
        (if crashes s < MAX_CRASHES then [Crash i] else [])
        @ (if cand_pending k then [PublishLease i]
           else if cand_offset k = None then
             (if next_offset s \<le> MAX_OFFSET then [Register i] else [])
           else case outcome T c s i of
             Challenge \<Rightarrow> (if minted s < MAX_EPOCH then [Mint i] else [])
           | Hold \<Rightarrow> (if cand_epoch k \<noteq> None then [Renew i] else [])
           | _ \<Rightarrow> []))"

definition actions :: "'t time_ops \<Rightarrow> 't lease_config \<Rightarrow> cluster \<Rightarrow> act list" where
  "actions T c s =
     (if cl_now s < MAX_TICK then [Tick] else [])
     @ concat (map (candidate_acts T c s) [0..<MEMBERS])"

definition set_candidate :: "nat \<Rightarrow> candidate \<Rightarrow> cluster \<Rightarrow> cluster" where
  "set_candidate i k s = s\<lparr>candidates := (candidates s)[i := k]\<rparr>"

text \<open>\<open>next_state\<close> before the final \<open>normalise\<close>: \<^const>\<open>None\<close> where the code returns \<open>None\<close>.\<close>

fun next_raw :: "'t time_ops \<Rightarrow> 't lease_config \<Rightarrow> cluster \<Rightarrow> act \<Rightarrow> cluster option" where
  "next_raw T c s Tick =
     (if cl_now s \<ge> MAX_TICK then None else Some (s\<lparr>cl_now := cl_now s + 1\<rparr>))"
| "next_raw T c s (Register i) =
     (let k = candidates s ! i in
      if \<not> cand_up k \<or> cand_offset k \<noteq> None \<or> next_offset s > MAX_OFFSET then None
      else Some (set_candidate i
             (k\<lparr>cand_offset := Some (next_offset s), cand_registered_at := cl_now s\<rparr>)
             (s\<lparr>next_offset := next_offset s + 1\<rparr>)))"
| "next_raw T c s (Mint i) =
     (let k = candidates s ! i in
      if \<not> registered k \<or> cand_pending k \<or> minted s \<ge> MAX_EPOCH then None
      else if outcome T c s i \<noteq> Challenge then None
      else Some (set_candidate i
             (k\<lparr>cand_epoch := Some (minted s + 1), cand_pending := True\<rparr>)
             (s\<lparr>minted := minted s + 1\<rparr>)))"
| "next_raw T c s (PublishLease i) =
     (let k = candidates s ! i in
      if \<not> cand_up k \<or> \<not> cand_pending k then None
      else if cand_epoch k = Some (minted s) then
        Some (set_candidate i (k\<lparr>cand_pending := False\<rparr>)
          (s\<lparr>cl_lease := Some \<lparr>ls_holder = i, ls_epoch = minted s,
                                 ls_deadline = cl_now s + LEASE_TICKS\<rparr>,
              lease_epoch_water := minted s\<rparr>))
      else Some (set_candidate i (k\<lparr>cand_pending := False, cand_epoch := None\<rparr>)
             (s\<lparr>fenced_write_seen := True\<rparr>)))"
| "next_raw T c s (Renew i) =
     (let k = candidates s ! i in
      if \<not> registered k \<or> cand_pending k \<or> cand_epoch k = None then None
      else if outcome T c s i \<noteq> Hold then None
      else if cand_epoch k = Some (minted s) then
        (case cl_lease s of
           None \<Rightarrow> None
         | Some l \<Rightarrow> Some (s\<lparr>cl_lease := Some (l\<lparr>ls_deadline := cl_now s + LEASE_TICKS\<rparr>)\<rparr>))
      else Some (set_candidate i (k\<lparr>cand_epoch := None\<rparr>) (s\<lparr>fenced_write_seen := True\<rparr>)))"
| "next_raw T c s (Crash i) =
     (let k = candidates s ! i in
      if \<not> cand_up k \<or> crashes s \<ge> MAX_CRASHES then None
      else Some (set_candidate i
             (candidate_down\<lparr>cand_offset := cand_offset k,
                             cand_registered_at := cand_registered_at k\<rparr>)
             (s\<lparr>crashes := crashes s + 1\<rparr>)))"
| "next_raw T c s (ExpireSession i) =
     (let k = candidates s ! i in
      if cand_up k \<or> cand_offset k = None then None
      else Some (set_candidate i (k\<lparr>cand_offset := None\<rparr>) s))"
| "next_raw T c s (Recover i) =
     (let k = candidates s ! i in
      if cand_up k then None else Some (set_candidate i (k\<lparr>cand_up := True\<rparr>) s))"

definition next_state :: "'t time_ops \<Rightarrow> 't lease_config \<Rightarrow> cluster \<Rightarrow> act \<Rightarrow> cluster option" where
  "next_state T c s a = map_option normalise (next_raw T c s a)"

inductive reachable :: "'t time_ops \<Rightarrow> 't lease_config \<Rightarrow> cluster \<Rightarrow> bool" for T c where
  reachable_init: "reachable T c init_state"
| reachable_step: "reachable T c s \<Longrightarrow> a \<in> set (actions T c s) \<Longrightarrow> next_state T c s a = Some s'
    \<Longrightarrow> reachable T c s'"

section \<open>The invariant\<close>

text \<open>No two positions of a list carry the same value.\<close>

definition opt_inj :: "('a \<Rightarrow> 'b option) \<Rightarrow> 'a list \<Rightarrow> bool" where
  "opt_inj f xs \<longleftrightarrow> (\<forall>i<length xs. \<forall>j<length xs. i \<noteq> j \<longrightarrow> f (xs ! i) \<noteq> None \<longrightarrow> f (xs ! i) \<noteq> f (xs ! j))"

lemma opt_injD:
  "opt_inj f xs \<Longrightarrow> i < length xs \<Longrightarrow> j < length xs \<Longrightarrow> f (xs ! i) = Some v
     \<Longrightarrow> f (xs ! j) = Some v \<Longrightarrow> i = j"
  by (metis opt_inj_def option.distinct(1))

lemma opt_inj_update:
  assumes "opt_inj f xs"
    and "\<And>j. j < length xs \<Longrightarrow> j \<noteq> i \<Longrightarrow> f k \<noteq> None \<Longrightarrow> f (xs ! j) \<noteq> f k"
  shows "opt_inj f (xs[i := k])"
proof (cases "i < length xs")
  case True
  have "f (xs[i := k] ! a) \<noteq> f (xs[i := k] ! b)"
    if "a < length xs" "b < length xs" "a \<noteq> b" "f (xs[i := k] ! a) \<noteq> None" for a b
    using that assms(2) [of a] assms(2) [of b] assms(1) True
    by (cases "a = i"; cases "b = i") (auto simp: opt_inj_def simp del: not_None_eq)
  then show ?thesis unfolding opt_inj_def length_list_update by blast
next
  case False
  then show ?thesis using assms(1) by (simp add: list_update_beyond not_less)
qed

lemma opt_inj_update_same: "opt_inj f xs \<Longrightarrow> f k = f (xs ! i) \<Longrightarrow> i < length xs \<Longrightarrow> opt_inj f (xs[i := k])"
  by (rule opt_inj_update, assumption) (metis opt_inj_def)

lemma opt_inj_update_None: "opt_inj f xs \<Longrightarrow> f k = None \<Longrightarrow> opt_inj f (xs[i := k])"
  by (rule opt_inj_update) simp_all

lemma opt_inj_update_fresh:
  "opt_inj f xs \<Longrightarrow> (\<And>x. x \<in> set xs \<Longrightarrow> f x \<noteq> f k) \<Longrightarrow> opt_inj f (xs[i := k])"
  by (rule opt_inj_update) simp_all

lemma opt_inj_map: "(\<And>x. f (g x) = f x) \<Longrightarrow> opt_inj f (map g xs) \<longleftrightarrow> opt_inj f xs"
  by (auto simp: opt_inj_def)

lemma opt_inj_replicate_None: "f x = None \<Longrightarrow> opt_inj f (replicate n x)"
  by (auto simp: opt_inj_def)

lemma opt_inj_count:
  assumes "opt_inj f xs"
  shows "length (filter (\<lambda>x. f x = Some v) xs) \<le> 1"
proof -
  have "card {i. i < length xs \<and> f (xs ! i) = Some v} \<le> Suc 0"
    using assms by (auto simp: card_le_Suc0_iff_eq opt_inj_def) (metis option.distinct(1))
  then show ?thesis by (simp add: length_filter_conv_card)
qed

lemma in_set_update: "x \<in> set (xs[i := k]) \<Longrightarrow> x = k \<or> x \<in> set xs"
  using set_update_subset_insert by fastforce

definition cluster_inv :: "cluster \<Rightarrow> bool" where
  "cluster_inv s \<longleftrightarrow> length (candidates s) = MEMBERS
     \<and> opt_inj cand_epoch (candidates s) \<and> opt_inj cand_offset (candidates s)
     \<and> (\<forall>k\<in>set (candidates s). \<forall>e. cand_epoch k = Some e \<longrightarrow> e \<le> minted s)
     \<and> (\<forall>k\<in>set (candidates s). \<forall>n. cand_offset k = Some n \<longrightarrow> n < next_offset s)
     \<and> (\<forall>l. cl_lease s = Some l \<longrightarrow> ls_epoch l = lease_epoch_water s \<and> ls_holder l < MEMBERS)
     \<and> lease_epoch_water s \<le> minted s"

lemma cluster_inv_init: "cluster_inv init_state"
  by (simp add: cluster_inv_def init_state_def candidate_start_def candidate_down_def
      opt_inj_replicate_None)

lemma cluster_inv_normalise: "cluster_inv s \<Longrightarrow> cluster_inv (normalise s)"
  by (auto simp: cluster_inv_def normalise_def opt_inj_map split: option.splits)

text \<open>Replacing one candidate keeps the invariant when its epoch and offset are old, gone or fresh.\<close>

lemma cluster_inv_set_candidate:
  assumes "cluster_inv s" "i < MEMBERS"
    and "cand_epoch k \<in> {None, cand_epoch (candidates s ! i)}
      \<or> (\<forall>x\<in>set (candidates s). cand_epoch x \<noteq> cand_epoch k)"
    and "\<And>e. cand_epoch k = Some e \<Longrightarrow> e \<le> minted s"
    and "cand_offset k \<in> {None, cand_offset (candidates s ! i)}
      \<or> (\<forall>x\<in>set (candidates s). cand_offset x \<noteq> cand_offset k)"
    and "\<And>n. cand_offset k = Some n \<Longrightarrow> n < next_offset s"
  shows "cluster_inv (set_candidate i k s)"
proof -
  have "opt_inj cand_epoch ((candidates s)[i := k])"
    using assms(1-3) unfolding cluster_inv_def
    by (metis insert_iff opt_inj_update_None opt_inj_update_fresh opt_inj_update_same singletonD)
  moreover have "opt_inj cand_offset ((candidates s)[i := k])"
    using assms(1,2,5) unfolding cluster_inv_def
    by (metis insert_iff opt_inj_update_None opt_inj_update_fresh opt_inj_update_same singletonD)
  moreover have "\<forall>x\<in>set ((candidates s)[i := k]). \<forall>e. cand_epoch x = Some e \<longrightarrow> e \<le> minted s"
    using assms(1,4) in_set_update unfolding cluster_inv_def by metis
  moreover have "\<forall>x\<in>set ((candidates s)[i := k]). \<forall>n. cand_offset x = Some n \<longrightarrow> n < next_offset s"
    using assms(1,6) in_set_update unfolding cluster_inv_def by metis
  ultimately show ?thesis
    using assms(1) by (simp add: cluster_inv_def set_candidate_def)
qed

lemma cluster_inv_nth:
  assumes "cluster_inv s" "i < MEMBERS"
  shows "cand_epoch (candidates s ! i) = Some e \<Longrightarrow> e \<le> minted s"
    and "cand_offset (candidates s ! i) = Some n \<Longrightarrow> n < next_offset s"
  using assms by (auto simp: cluster_inv_def)

lemma cluster_inv_set_lease:
  "cluster_inv s \<Longrightarrow> ls_holder l < MEMBERS \<Longrightarrow> ls_epoch l = w \<Longrightarrow> w \<le> minted s
     \<Longrightarrow> cluster_inv (s\<lparr>cl_lease := Some l, lease_epoch_water := w\<rparr>)"
  by (simp add: cluster_inv_def)

fun act_id :: "act \<Rightarrow> nat" where
  "act_id Tick = 0"
| "act_id (Register i) = i"
| "act_id (Mint i) = i"
| "act_id (PublishLease i) = i"
| "act_id (Renew i) = i"
| "act_id (Crash i) = i"
| "act_id (ExpireSession i) = i"
| "act_id (Recover i) = i"

lemma candidate_acts_id: "a \<in> set (candidate_acts T c s i) \<Longrightarrow> act_id a = i"
  by (auto simp: candidate_acts_def Let_def split: if_splits decision.splits)

lemma actions_id:
  assumes "a \<in> set (actions T c s)"
  shows "act_id a < MEMBERS"
proof -
  consider "a = Tick" | i where "i < MEMBERS" "a \<in> set (candidate_acts T c s i)"
    using assms by (auto simp: actions_def split: if_splits)
  then show ?thesis by cases (auto simp: MEMBERS_def dest: candidate_acts_id)
qed

lemma cluster_inv_grow:
  "cluster_inv s \<Longrightarrow> cluster_inv (s\<lparr>next_offset := Suc (next_offset s)\<rparr>)"
  "cluster_inv s \<Longrightarrow> cluster_inv (s\<lparr>minted := Suc (minted s)\<rparr>)"
  "cluster_inv s \<Longrightarrow> cluster_inv (s\<lparr>crashes := n\<rparr>)"
  "cluster_inv s \<Longrightarrow> cluster_inv (s\<lparr>cl_now := n\<rparr>)"
  "cluster_inv s \<Longrightarrow> cluster_inv (s\<lparr>fenced_write_seen := b\<rparr>)"
  unfolding cluster_inv_def by (auto intro: less_SucI le_SucI)

lemma set_candidate_old:
  assumes "cluster_inv s" "i < MEMBERS"
    and "cand_epoch k \<in> {None, cand_epoch (candidates s ! i)}"
    and "cand_offset k \<in> {None, cand_offset (candidates s ! i)}"
  shows "cluster_inv (set_candidate i k s)"
  by (rule cluster_inv_set_candidate) (use assms cluster_inv_nth [OF assms(1,2)] in auto)

lemma register_inv:
  assumes "cluster_inv s" "i < MEMBERS"
    and "cand_offset k = Some (next_offset s)" "cand_epoch k = cand_epoch (candidates s ! i)"
  shows "cluster_inv (set_candidate i k (s\<lparr>next_offset := Suc (next_offset s)\<rparr>))"
proof (rule cluster_inv_set_candidate)
  have "\<forall>x\<in>set (candidates s). cand_offset x \<noteq> Some (next_offset s)"
    using assms(1) unfolding cluster_inv_def by (metis less_irrefl)
  then show "cand_offset k \<in> {None, cand_offset (candidates (s\<lparr>next_offset := Suc (next_offset s)\<rparr>) ! i)}
      \<or> (\<forall>x\<in>set (candidates (s\<lparr>next_offset := Suc (next_offset s)\<rparr>)). cand_offset x \<noteq> cand_offset k)"
    using assms(3) by simp
qed (use assms cluster_inv_nth [OF assms(1,2)] in \<open>auto simp: cluster_inv_grow\<close>)

lemma mint_inv:
  assumes "cluster_inv s" "i < MEMBERS"
    and "cand_epoch k = Some (Suc (minted s))" "cand_offset k = cand_offset (candidates s ! i)"
  shows "cluster_inv (set_candidate i k (s\<lparr>minted := Suc (minted s)\<rparr>))"
proof (rule cluster_inv_set_candidate)
  have "\<forall>x\<in>set (candidates s). cand_epoch x \<noteq> Some (Suc (minted s))"
    using assms(1) unfolding cluster_inv_def by (metis Suc_n_not_le_n)
  then show "cand_epoch k \<in> {None, cand_epoch (candidates (s\<lparr>minted := Suc (minted s)\<rparr>) ! i)}
      \<or> (\<forall>x\<in>set (candidates (s\<lparr>minted := Suc (minted s)\<rparr>)). cand_epoch x \<noteq> cand_epoch k)"
    using assms(3) by simp
qed (use assms cluster_inv_nth [OF assms(1,2)] in \<open>auto simp: cluster_inv_grow\<close>)

lemma publish_inv:
  assumes "cluster_inv s" "i < MEMBERS"
  shows "cluster_inv (s\<lparr>cl_lease := Some \<lparr>ls_holder = i, ls_epoch = minted s, ls_deadline = d\<rparr>,
    lease_epoch_water := minted s\<rparr>)"
  using assms by (simp add: cluster_inv_def)

lemma renew_inv:
  "cluster_inv s \<Longrightarrow> cl_lease s = Some l \<Longrightarrow> cluster_inv (s\<lparr>cl_lease := Some (l\<lparr>ls_deadline := d\<rparr>)\<rparr>)"
  by (simp add: cluster_inv_def)

lemma next_raw_inv:
  assumes "cluster_inv s" "act_id a < MEMBERS" "next_raw T c s a = Some s'"
  shows "cluster_inv s'"
proof (cases a)
  case Tick
  with assms show ?thesis by (auto simp: cluster_inv_grow split: if_splits)
next
  case (Register i)
  with assms show ?thesis by (auto simp: Let_def intro!: register_inv split: if_splits)
next
  case (Mint i)
  with assms show ?thesis by (auto simp: Let_def intro!: mint_inv split: if_splits)
next
  case (PublishLease i)
  with assms show ?thesis
    by (auto simp: Let_def cluster_inv_grow publish_inv intro!: set_candidate_old split: if_splits)
next
  case (Renew i)
  with assms show ?thesis
    by (auto simp: Let_def cluster_inv_grow renew_inv intro!: set_candidate_old
        split: if_splits option.splits)
next
  case (Crash i)
  with assms show ?thesis
    by (auto simp: Let_def cluster_inv_grow candidate_down_def intro!: set_candidate_old
        split: if_splits)
next
  case (ExpireSession i)
  with assms show ?thesis by (auto simp: Let_def intro!: set_candidate_old split: if_splits)
next
  case (Recover i)
  with assms show ?thesis by (auto simp: Let_def intro!: set_candidate_old split: if_splits)
qed

lemma reachable_inv: "reachable T c s \<Longrightarrow> cluster_inv s"
proof (induction rule: reachable.induct)
  case reachable_init
  show ?case by (rule cluster_inv_init)
next
  case (reachable_step s a s')
  then obtain s1 where "next_raw T c s a = Some s1" "s' = normalise s1"
    by (auto simp: next_state_def)
  then show ?case
    using next_raw_inv [OF reachable_step.IH actions_id [OF reachable_step.hyps(2)]]
      cluster_inv_normalise by blast
qed

definition clock_inv :: "cluster \<Rightarrow> bool" where
  "clock_inv s \<longleftrightarrow> cl_now s \<le> MAX_TICK
     \<and> (\<forall>l. cl_lease s = Some l \<longrightarrow> ls_deadline l \<le> MAX_TICK + LEASE_TICKS)"

lemma next_raw_clock: "clock_inv s \<Longrightarrow> next_raw T c s a = Some s' \<Longrightarrow> clock_inv s'"
  by (cases a) (auto simp: clock_inv_def Let_def set_candidate_def split: if_splits option.splits)

lemma normalise_clock: "clock_inv s \<Longrightarrow> clock_inv (normalise s)"
  by (auto simp: clock_inv_def normalise_def split: option.splits)

lemma reachable_clock: "reachable T c s \<Longrightarrow> clock_inv s"
proof (induction rule: reachable.induct)
  case reachable_init
  show ?case by (simp add: clock_inv_def init_state_def)
next
  case (reachable_step s a s')
  then show ?case
    by (auto simp: next_state_def intro: normalise_clock next_raw_clock)
qed

section \<open>The role state of a cluster\<close>

lemma model_ids_distinct: "distinct model_ids" "length model_ids = MEMBERS"
  by (simp_all add: model_ids_def MEMBERS_def)

lemma model_ids_inject: "i < MEMBERS \<Longrightarrow> j < MEMBERS \<Longrightarrow> model_ids ! i = model_ids ! j \<longleftrightarrow> i = j"
  using model_ids_distinct by (simp add: nth_eq_iff_index_eq)

lemma set_roster_of_cluster:
  assumes "length (candidates s) = MEMBERS"
  shows "e \<in> set (roster (role_state_of s)) \<longleftrightarrow>
    (\<exists>i<MEMBERS. candidate_entry (i, candidates s ! i) = Some e)"
  using assms by (auto simp: role_state_of_def set_map_filter set_zip in_set_enumerate_eq)

lemma distinct_members_enumerate:
  assumes "n + length ks \<le> MEMBERS"
  shows "distinct (map entry_member (List.map_filter candidate_entry (List.enumerate n ks)))"
  using assms
proof (induction ks arbitrary: n)
  case (Cons k ks)
  then show ?case
    by (auto simp: List.map_filter_simps set_map_filter in_set_enumerate_eq candidate_entry_def
        model_ids_inject split: option.splits)
qed (simp add: List.map_filter_simps)

lemma roster_of_cluster:
  assumes "length (candidates s) = MEMBERS"
  shows "sorted (map entry_offset (roster (role_state_of s)))"
    and "distinct (map entry_member (roster (role_state_of s)))"
  using distinct_members_enumerate [of 0 "candidates s"] assms by (simp_all add: role_state_of_def)

lemma registered_in_roster:
  assumes "length (candidates s) = MEMBERS" "i < MEMBERS" "registered (candidates s ! i)"
  shows "model_ids ! i \<in> entry_member ` set (roster (role_state_of s))"
proof -
  obtain e where "candidate_entry (i, candidates s ! i) = Some e"
    using assms(3) by (auto simp: registered_def candidate_entry_def)
  moreover from this have "entry_member e = model_ids ! i" by (auto simp: candidate_entry_def)
  ultimately show ?thesis using assms(1,2) by (force simp: set_roster_of_cluster)
qed

lemma millis_less [simp]: "millis a < millis b \<longleftrightarrow> a < b"
  by (simp add: millis_def TICK_MILLIS_def)

lemma outcome_Hold:
  assumes "cluster_inv s" "i < MEMBERS" "outcome T c s i = Hold"
  shows "\<exists>l. cl_lease s = Some l \<and> ls_holder l = i \<and> cl_now s < ls_deadline l"
proof -
  obtain l where l: "cl_lease s = Some l" "model_ids ! ls_holder l = model_ids ! i"
      "cl_now s < ls_deadline l"
    using assms(3) by (auto simp: outcome_def evaluate_Hold_iff role_state_of_def model_lease_def)
  moreover have "ls_holder l < MEMBERS" using assms(1) l(1) by (simp add: cluster_inv_def)
  ultimately show ?thesis using model_ids_inject assms(2) by blast
qed

lemma outcome_not_Challenge:
  assumes "config_ok T c" "clock_inv s" "lease_is_live s"
  shows "outcome T c s i \<noteq> Challenge"
proof
  assume challenge: "outcome T c s i = Challenge"
  obtain l where l: "cl_lease s = Some l" "cl_now s < ls_deadline l"
    using assms(3) by (auto simp: lease_is_live_def split: option.splits)
  then have "i64_range (lease_deadline (model_lease l))"
    using assms(2)
    by (auto simp: clock_inv_def model_lease_def millis_def TICK_MILLIS_def MAX_TICK_def
        LEASE_TICKS_def range_simps)
  then have "lease_deadline (model_lease l) \<le> millis (cl_now s)"
    using challenge l(1) no_early_challenge [OF assms(1), of "role_state_of s" "model_lease l"]
    by (auto simp: outcome_def role_state_of_def)
  with l(2) show False by (simp add: model_lease_def millis_def TICK_MILLIS_def)
qed

section \<open>Properties\<close>

definition at_most_one_unfenced_epoch :: "cluster \<Rightarrow> bool" where
  "at_most_one_unfenced_epoch s \<longleftrightarrow> minted s = 0
     \<or> length (filter (\<lambda>k. cand_epoch k = Some (minted s)) (candidates s)) \<le> 1"

definition at_most_one_live_authority ::
    "'t time_ops \<Rightarrow> 't lease_config \<Rightarrow> cluster \<Rightarrow> bool" where
  "at_most_one_live_authority T c s \<longleftrightarrow>
     length (filter (\<lambda>(i, out). out = Some Hold \<and> cand_epoch (candidates s ! i) = Some (minted s)
       \<and> minted s > 0) (List.enumerate 0 (outcomes T c s))) \<le> 1"

definition hold_needs_a_live_lease :: "'t time_ops \<Rightarrow> 't lease_config \<Rightarrow> cluster \<Rightarrow> bool" where
  "hold_needs_a_live_lease T c s \<longleftrightarrow>
     list_all (\<lambda>(i, out). out \<noteq> Some Hold \<or> (case cl_lease s of
        Some l \<Rightarrow> ls_holder l = i \<and> cl_now s < ls_deadline l | None \<Rightarrow> False))
       (List.enumerate 0 (outcomes T c s))"

definition no_challenge_while_live :: "'t time_ops \<Rightarrow> 't lease_config \<Rightarrow> cluster \<Rightarrow> bool" where
  "no_challenge_while_live T c s \<longleftrightarrow>
     \<not> lease_is_live s \<or> list_all (\<lambda>out. out \<noteq> Some Challenge) (outcomes T c s)"

definition rank_less :: "nat option \<Rightarrow> nat option \<Rightarrow> bool" where
  "rank_less a b \<longleftrightarrow> (case (a, b) of
     (Some i, Some j) \<Rightarrow> i < j | (None, Some _) \<Rightarrow> True | (_, None) \<Rightarrow> False)"

definition later_joiner_never_outranks :: "cluster \<Rightarrow> bool" where
  "later_joiner_never_outranks s \<longleftrightarrow>
     (let st = role_state_of s;
          contenders = filter (\<lambda>e. Some (entry_member e) \<noteq> holder st) (roster st)
      in list_all (\<lambda>early. list_all (\<lambda>late. entry_offset early \<ge> entry_offset late
           \<or> rank_less (rank_of st (entry_member early)) (rank_of st (entry_member late)))
         contenders) contenders)"

definition registered_member_has_a_rank ::
    "'t time_ops \<Rightarrow> 't lease_config \<Rightarrow> cluster \<Rightarrow> bool" where
  "registered_member_has_a_rank T c s \<longleftrightarrow>
     list_all (\<lambda>out. out \<noteq> Some NotRegistered) (outcomes T c s)"

definition lease_epoch_only_grows :: "cluster \<Rightarrow> bool" where
  "lease_epoch_only_grows s \<longleftrightarrow>
     (case cl_lease s of Some l \<Rightarrow> ls_epoch l = lease_epoch_water s | None \<Rightarrow> True)
     \<and> lease_epoch_water s \<le> minted s"

definition no_epoch_passes_the_minted_mark :: "cluster \<Rightarrow> bool" where
  "no_epoch_passes_the_minted_mark s \<longleftrightarrow>
     list_all (\<lambda>k. case cand_epoch k of Some e \<Rightarrow> e \<le> minted s | None \<Rightarrow> True) (candidates s)"

lemma outcomes_enumerate:
  "(i, out) \<in> set (List.enumerate 0 (outcomes T c s)) \<longleftrightarrow> i < MEMBERS
     \<and> out = (if registered (candidates s ! i) then Some (outcome T c s i) else None)"
  by (auto simp: in_set_enumerate_eq outcomes_def)

lemma at_most_one_live_authority_inv:
  assumes "cluster_inv s"
  shows "at_most_one_live_authority T c s"
proof -
  let ?P = "\<lambda>(i, out). out = Some Hold \<and> cand_epoch (candidates s ! i) = Some (minted s) \<and> minted s > 0"
  let ?E = "List.enumerate 0 (outcomes T c s)"
  have "x = y" if "x \<in> set (filter ?P ?E)" "y \<in> set (filter ?P ?E)" for x y
  proof -
    obtain i out j out' where xy: "x = (i, out)" "y = (j, out')" by (cases x; cases y)
    then have ij: "i < MEMBERS" "j < MEMBERS" "cand_epoch (candidates s ! i) = Some (minted s)"
        "cand_epoch (candidates s ! j) = Some (minted s)"
      using that by (auto simp: outcomes_enumerate)
    then have "i = j"
      using assms by (auto simp: cluster_inv_def intro: opt_injD)
    then show ?thesis using xy that by (auto simp: outcomes_enumerate)
  qed
  moreover have "distinct (filter ?P ?E)" by simp
  ultimately have "length (filter ?P ?E) \<le> Suc 0"
    using card_le_Suc0_iff_eq [of "set (filter ?P ?E)"] distinct_card [of "filter ?P ?E"] by auto
  then show ?thesis by (simp add: at_most_one_live_authority_def)
qed

lemma later_joiner_inv:
  assumes "cluster_inv s"
  shows "later_joiner_never_outranks s"
proof -
  have "length (candidates s) = MEMBERS" using assms by (simp add: cluster_inv_def)
  note order = roster_of_cluster [OF this]
  show ?thesis
    using rank_of_order [OF order]
    by (fastforce simp: later_joiner_never_outranks_def Let_def list_all_iff rank_less_def)
qed

lemma next_state_water:
  assumes "cluster_inv s" "next_state T c s a = Some s'"
  shows "lease_epoch_water s \<le> lease_epoch_water s' \<and> minted s \<le> minted s'"
proof -
  obtain s1 where s1: "next_raw T c s a = Some s1" "s' = normalise s1"
    using assms(2) by (auto simp: next_state_def)
  have "lease_epoch_water s \<le> lease_epoch_water s1 \<and> minted s \<le> minted s1"
    using assms(1) s1(1)
    by (cases a) (auto simp: Let_def set_candidate_def cluster_inv_def
        split: if_splits option.splits)
  with s1(2) show ?thesis by (simp add: normalise_def split: option.splits)
qed

lemma outcomes_inv:
  assumes "cluster_inv s" "clock_inv s" "config_ok T c"
  shows "hold_needs_a_live_lease T c s" "no_challenge_while_live T c s"
    "registered_member_has_a_rank T c s"
proof -
  have len: "length (candidates s) = MEMBERS" using assms(1) by (simp add: cluster_inv_def)
  have "case cl_lease s of Some l \<Rightarrow> ls_holder l = i \<and> cl_now s < ls_deadline l | None \<Rightarrow> False"
    if "i < MEMBERS" "Hold = outcome T c s i" for i
    using outcome_Hold [OF assms(1) that(1), of T c] that(2) by auto
  then show "hold_needs_a_live_lease T c s"
    by (auto simp: hold_needs_a_live_lease_def list_all_iff outcomes_enumerate split: if_splits)
  show "no_challenge_while_live T c s"
    using outcome_not_Challenge [OF assms(3,2), THEN not_sym]
    by (auto simp: no_challenge_while_live_def list_all_iff outcomes_def split: if_splits)
  show "registered_member_has_a_rank T c s"
    using registered_in_roster [OF len]
    by (auto simp: registered_member_has_a_rank_def list_all_iff outcomes_def outcome_def
        evaluate_NotRegistered_iff eq_commute [of NotRegistered] split: if_splits)
qed

text \<open>
  C1. Role succession is safe in every reachable state of the cluster, for every accepted policy:
  at most one member carries the newest minted epoch, so at most one member both believes that it
  holds the role and owns an epoch the broker accepts; a member holds only under its own live
  lease; nobody challenges while a lease is live; a later joiner never outranks an earlier one;
  every registered member has a rank; and the epoch of the lease record never goes back and never
  passes the minted mark, whatever step comes next.
\<close>
theorem succession_safe:
  assumes "time_laws T" and "lease_config_new T d r st = Inr c" and "reachable T c s"
  shows "at_most_one_unfenced_epoch s \<and> at_most_one_live_authority T c s
    \<and> hold_needs_a_live_lease T c s \<and> no_challenge_while_live T c s
    \<and> later_joiner_never_outranks s \<and> registered_member_has_a_rank T c s
    \<and> lease_epoch_only_grows s \<and> no_epoch_passes_the_minted_mark s
    \<and> (next_state T c s a = Some s' \<longrightarrow> lease_epoch_water s \<le> lease_epoch_water s')"
proof -
  have inv: "cluster_inv s" using assms(3) by (rule reachable_inv)
  have clock: "clock_inv s" using assms(3) by (rule reachable_clock)
  have ok: "config_ok T c" using assms(1,2) by (rule lease_config_new_ok)
  have "at_most_one_unfenced_epoch s"
    using inv by (auto simp: at_most_one_unfenced_epoch_def cluster_inv_def dest: opt_inj_count)
  moreover have "lease_epoch_only_grows s" "no_epoch_passes_the_minted_mark s"
    using inv by (auto simp: lease_epoch_only_grows_def no_epoch_passes_the_minted_mark_def
        cluster_inv_def list_all_iff split: option.splits)
  ultimately show ?thesis
    using at_most_one_live_authority_inv [OF inv] later_joiner_inv [OF inv]
      outcomes_inv [OF inv clock ok] next_state_water [OF inv] by blast
qed

text \<open>A run of the cluster: a list of enabled actions.\<close>

primrec run_acts :: "'t time_ops \<Rightarrow> 't lease_config \<Rightarrow> cluster \<Rightarrow> act list \<Rightarrow> cluster option" where
  "run_acts T c s [] = Some s"
| "run_acts T c s (a # as) =
     (if a \<in> set (actions T c s)
      then Option.bind (next_state T c s a) (\<lambda>s'. run_acts T c s' as) else None)"

lemma run_acts_reachable:
  "reachable T c s \<Longrightarrow> run_acts T c s as = Some s' \<Longrightarrow> reachable T c s'"
  by (induction as arbitrary: s)
    (auto simp: bind_eq_Some_conv intro: reachable_step split: if_splits)

definition model_config :: "int lease_config" where
  "model_config = \<lparr>cfg_duration = 2000, cfg_renew_interval = 1000, cfg_challenge_stagger = 1000\<rparr>"

definition failover_run :: "act list" where
  "failover_run = [Register 0, Register 1, Mint 0, PublishLease 0, Crash 0, Tick, Tick, Mint 1,
     PublishLease 1]"

theorem succession_safe_witness:
  "\<exists>s. run_acts ms_time model_config init_state failover_run = Some s
     \<and> lease_epoch_water s = 2 \<and> at_most_one_unfenced_epoch s"
proof -
  have "map_option lease_epoch_water (run_acts ms_time model_config init_state failover_run)
      = Some 2"
    by code_simp
  then obtain s where s: "run_acts ms_time model_config init_state failover_run = Some s"
      "lease_epoch_water s = 2"
    by auto
  have "lease_config_new ms_time 2000 1000 1000 = Inr model_config"
    unfolding model_config_def by (rule ms_config_new) simp_all
  from succession_safe [OF ms_time_laws this run_acts_reachable [OF reachable_init s(1)]]
  show ?thesis using s by blast
qed

end
