(* ===== verification/Partitioner.thy ===== *)
theory Partitioner
  imports Prelude
begin

text \<open>
  The built-in partitioner of \<open>client-producer/src/partitioner.rs\<close>: the key hash that every
  Kafka client shares, the weighted table of adaptive partitioning, and the sticky partition of a
  topic.

  The lock around the topic map makes every operation atomic, so an operation is a function on the
  partitioner state.  The random source is code that the caller supplies: the value it returns is
  the argument \<open>rnd\<close> of the operations that may pick (each picks at most once).  The closures
  \<open>has_leader\<close> and \<open>leader_rack\<close> are fields of the arguments.  \<open>slice::partition_point\<close> is defined
  on a slice that the predicate partitions; \<open>load_stats_wf\<close> gives that for every table.
\<close>

unbundle bit_operations_syntax

section \<open>The key hash\<close>

text \<open>\<open>u32::from_le_bytes\<close>.\<close>

definition from_le_u32 :: "u8 \<Rightarrow> u8 \<Rightarrow> u8 \<Rightarrow> u8 \<Rightarrow> u32" where
  "from_le_u32 b0 b1 b2 b3 =
     ucast b0 OR push_bit 8 (ucast b1) OR push_bit 16 (ucast b2) OR push_bit 24 (ucast b3)"

definition murmur_m :: u32 where "murmur_m = 0x5bd1e995"
definition murmur_seed :: u32 where "murmur_seed = 0x9747b28c"

definition murmur_mix :: "u32 \<Rightarrow> u32 \<Rightarrow> u32" where
  "murmur_mix h k0 =
     (let k1 = k0 * murmur_m;
          k2 = k1 XOR drop_bit 24 k1;
          k3 = k2 * murmur_m
      in (h * murmur_m) XOR k3)"

fun murmur_chunks :: "u32 \<Rightarrow> u8 list \<Rightarrow> u32 \<times> u8 list" where
  "murmur_chunks h (b0 # b1 # b2 # b3 # rest) =
     murmur_chunks (murmur_mix h (from_le_u32 b0 b1 b2 b3)) rest"
| "murmur_chunks h rest = (h, rest)"

fun murmur_tail :: "u32 \<Rightarrow> u8 list \<Rightarrow> u32" where
  "murmur_tail h [r0, r1, r2] =
     ((h XOR push_bit 16 (ucast r2)) XOR push_bit 8 (ucast r1) XOR ucast r0) * murmur_m"
| "murmur_tail h [r0, r1] = ((h XOR push_bit 8 (ucast r1)) XOR ucast r0) * murmur_m"
| "murmur_tail h [r0] = (h XOR ucast r0) * murmur_m"
| "murmur_tail h _ = h"

definition murmur2 :: "u8 list \<Rightarrow> int" where
  "murmur2 bytes =
     (let h0 = murmur_seed XOR word_of_nat (length bytes);
          (h1, remainder) = murmur_chunks h0 bytes;
          h2 = murmur_tail h1 remainder;
          h3 = (h2 XOR drop_bit 13 h2) * murmur_m
      in sint (h3 XOR drop_bit 15 h3))"

text \<open>\<^const>\<open>None\<close> is the panic of the assertion.\<close>

definition partition_for_key :: "u8 list \<Rightarrow> int \<Rightarrow> int option" where
  "partition_for_key key num_partitions =
     (if num_partitions > 0 then Some ((murmur2 key AND 0x7fffffff) mod num_partitions) else None)"

lemma partition_for_key_range:
  "partition_for_key key n = Some p \<Longrightarrow> 0 \<le> p \<and> p < n"
  by (auto simp: partition_for_key_def split: if_splits)

lemma partition_for_key_total: "0 < n \<Longrightarrow> \<exists>p. partition_for_key key n = Some p"
  by (simp add: partition_for_key_def)

section \<open>Settings and views\<close>

record partitioner_config =
  sticky_batch_size :: nat
  ignore_keys :: bool
  adaptive_partitioning :: bool
  availability_timeout :: nat
  rack_aware :: bool

record topic_partitions =
  tp_count :: int
  tp_has_leader :: "int \<Rightarrow> bool"

record rack_preference =
  leader_rack :: "int \<Rightarrow> string option"
  client_rack :: string

record sticky_partition =
  sp_partition :: int
  sp_pick :: nat

record queue_sizes =
  qs_sizes :: "nat list"
  qs_partition_ids :: "int list"
  qs_all :: nat

record load_stats =
  cumulative_frequency :: "nat list"
  stats_partition_ids :: "int list"

section \<open>The weighted table\<close>

text \<open>The running saturating sum that the \<open>map\<close> closure of \<open>from_queue_sizes\<close> keeps.\<close>

primrec running_sums :: "nat \<Rightarrow> nat list \<Rightarrow> nat list" where
  "running_sums acc [] = []"
| "running_sums acc (w # ws) = (let acc' = sat_addu32 acc w in acc' # running_sums acc' ws)"

definition from_queue_sizes :: "queue_sizes \<Rightarrow> load_stats option" where
  "from_queue_sizes q =
     (if qs_sizes q = [] \<or> qs_all q < 2 \<or> length (qs_sizes q) \<noteq> length (qs_partition_ids q)
      then None
      else let largest = Max (set (qs_sizes q)) in
        if list_all (\<lambda>size. size = largest) (qs_sizes q) \<and> length (qs_sizes q) = qs_all q
        then None
        else let weight_base = sat_addu32 largest 1 in
          Some \<lparr>cumulative_frequency = running_sums 0 (map (\<lambda>size. weight_base - size) (qs_sizes q)),
                stats_partition_ids = qs_partition_ids q\<rparr>)"

definition partition_point :: "('a \<Rightarrow> bool) \<Rightarrow> 'a list \<Rightarrow> nat" where
  "partition_point P xs = length (takeWhile P xs)"

text \<open>\<open>slice::get\<close>.\<close>

definition get_at :: "'a list \<Rightarrow> nat \<Rightarrow> 'a option" where
  "get_at xs i = (if i < length xs then Some (xs ! i) else None)"

section \<open>Picking a partition\<close>

text \<open>\<open>(0..count).filter(has_leader)\<close>.\<close>

definition led_partitions :: "topic_partitions \<Rightarrow> int list" where
  "led_partitions tp = filter (tp_has_leader tp) (map int [0..<nat (tp_count tp)])"

definition rack_aware_candidates ::
    "partitioner_config \<Rightarrow> topic_partitions \<Rightarrow> rack_preference option \<Rightarrow> int list option" where
  "rack_aware_candidates cfg tp rack =
     (if \<not> rack_aware cfg then None
      else case rack of
        None \<Rightarrow> None
      | Some r \<Rightarrow>
          (let in_rack = filter (\<lambda>p. leader_rack r p = Some (client_rack r)) (led_partitions tp)
           in if in_rack \<noteq> [] then Some in_rack else None))"

text \<open>
  The loop of \<open>pick_among\<close> over the table: the weight of a row is the difference to the previous
  sum, and only the candidates' rows are kept and summed again.
\<close>

fun restrict_table ::
    "int list \<Rightarrow> nat list \<Rightarrow> nat \<Rightarrow> nat \<Rightarrow> int list \<Rightarrow> nat list \<times> int list" where
  "restrict_table cands cums prev running [] = ([], [])"
| "restrict_table cands cums prev running (pid # pids) =
     (let cumulative = (case cums of [] \<Rightarrow> 0 | c # _ \<Rightarrow> c);
          weight = cumulative - prev
      in if pid \<in> set cands
         then let running' = sat_addu32 running weight;
                  (cs, ids) = restrict_table cands (tl cums) cumulative running' pids
              in (running' # cs, pid # ids)
         else restrict_table cands (tl cums) cumulative running pids)"

text \<open>The draw from a table: \<open>partition_point\<close> of the remainder, and its partition if any.\<close>

definition weighted_index :: "nat list \<Rightarrow> nat \<Rightarrow> nat" where
  "weighted_index table random =
     (let total = max (case table of [] \<Rightarrow> 1 | _ \<Rightarrow> last table) 1 in
      partition_point (\<lambda>sum. sum \<le> random mod total) table)"

definition uniform_pick :: "int list \<Rightarrow> nat \<Rightarrow> int option" where
  "uniform_pick cands random =
     (if cands = [] then None else get_at cands (random mod length cands))"

definition pick_among :: "load_stats option \<Rightarrow> int list \<Rightarrow> nat \<Rightarrow> int option" where
  "pick_among stats cands random =
     (case stats of
        None \<Rightarrow> uniform_pick cands random
      | Some st \<Rightarrow>
          (let (table, ids) = restrict_table cands (cumulative_frequency st) 0 0
                 (stats_partition_ids st)
           in if ids \<noteq> []
              then (case get_at ids (weighted_index table random) of
                      Some p \<Rightarrow> Some p
                    | None \<Rightarrow> get_at cands 0)
              else uniform_pick cands random))"

definition pick_partition ::
    "partitioner_config \<Rightarrow> load_stats option \<Rightarrow> topic_partitions \<Rightarrow> rack_preference option
       \<Rightarrow> nat \<Rightarrow> int" where
  "pick_partition cfg stats tp rack rnd =
     (let random = rnd mod 2 ^ 31 in
      case Option.bind (rack_aware_candidates cfg tp rack)
             (\<lambda>cands. pick_among stats cands random) of
        Some p \<Rightarrow> p
      | None \<Rightarrow>
          (case stats of
             Some st \<Rightarrow>
               (case get_at (stats_partition_ids st)
                       (weighted_index (cumulative_frequency st) random) of
                  Some p \<Rightarrow> p | None \<Rightarrow> 0)
           | None \<Rightarrow>
               (case uniform_pick (led_partitions tp) random of
                  Some p \<Rightarrow> p
                | None \<Rightarrow> int (random mod nat (max (tp_count tp) 1)))))"

section \<open>The partitioner\<close>

record topic_state =
  ts_sticky :: "(sticky_partition \<times> nat) option"
  ts_load_stats :: "load_stats option"

record partitioner =
  pt_config :: partitioner_config
  pt_picks :: nat
  pt_topics :: "string \<rightharpoonup> topic_state"

definition partitioner_new :: "partitioner_config \<Rightarrow> partitioner" where
  "partitioner_new cfg = \<lparr>pt_config = cfg, pt_picks = 0, pt_topics = Map.empty\<rparr>"

definition topic_state_default :: topic_state where
  "topic_state_default = \<lparr>ts_sticky = None, ts_load_stats = None\<rparr>"

definition keyed_partition :: "partitioner \<Rightarrow> u8 list option \<Rightarrow> int \<Rightarrow> int option option" where
  "keyed_partition p key tcount =
     (case key of
        Some k \<Rightarrow> (if ignore_keys (pt_config p) then Some None
                   else map_option Some (partition_for_key k tcount))
      | None \<Rightarrow> Some None)"

definition pick ::
    "partitioner \<Rightarrow> load_stats option \<Rightarrow> topic_partitions \<Rightarrow> rack_preference option \<Rightarrow> nat
       \<Rightarrow> sticky_partition \<times> partitioner" where
  "pick p stats tp rack rnd =
     (\<lparr>sp_partition = pick_partition (pt_config p) stats tp rack rnd, sp_pick = pt_picks p\<rparr>,
      p\<lparr>pt_picks := (pt_picks p + 1) mod 2 ^ 64\<rparr>)"

definition peek_inner ::
    "partitioner \<Rightarrow> string \<Rightarrow> topic_partitions \<Rightarrow> rack_preference option \<Rightarrow> nat
       \<Rightarrow> sticky_partition \<times> partitioner" where
  "peek_inner p topic tp rack rnd =
     (let st = (case pt_topics p topic of Some st \<Rightarrow> st | None \<Rightarrow> topic_state_default) in
      case ts_sticky st of
        Some (sticky, _) \<Rightarrow> (sticky, p\<lparr>pt_topics := (pt_topics p)(topic \<mapsto> st)\<rparr>)
      | None \<Rightarrow>
          (let (sticky, p') = pick p (ts_load_stats st) tp rack rnd in
           (sticky,
            p'\<lparr>pt_topics := (pt_topics p')(topic \<mapsto> st\<lparr>ts_sticky := Some (sticky, 0)\<rparr>)\<rparr>)))"

definition is_changed :: "partitioner \<Rightarrow> string \<Rightarrow> sticky_partition \<Rightarrow> bool" where
  "is_changed p topic sticky =
     (case Option.bind (pt_topics p topic) ts_sticky of
        None \<Rightarrow> True
      | Some (current, _) \<Rightarrow> current \<noteq> sticky)"

definition update_inner ::
    "partitioner \<Rightarrow> string \<Rightarrow> sticky_partition \<Rightarrow> nat \<Rightarrow> topic_partitions \<Rightarrow> bool
       \<Rightarrow> rack_preference option \<Rightarrow> nat \<Rightarrow> partitioner" where
  "update_inner p topic sticky appended tp enable_switch rack rnd =
     (let size = max (sticky_batch_size (pt_config p)) 1 in
      case pt_topics p topic of
        None \<Rightarrow> p
      | Some st \<Rightarrow>
          (case ts_sticky st of
             None \<Rightarrow> p
           | Some (current, produced) \<Rightarrow>
               if current \<noteq> sticky then p
               else let produced' = sat_addus produced appended in
                 if (produced' \<ge> size \<and> enable_switch) \<or> produced' \<ge> sat_mulus size 2
                 then let (nxt, p') = pick p (ts_load_stats st) tp rack rnd in
                   p'\<lparr>pt_topics := (pt_topics p')(topic \<mapsto> st\<lparr>ts_sticky := Some (nxt, 0)\<rparr>)\<rparr>
                 else p\<lparr>pt_topics := (pt_topics p)
                        (topic \<mapsto> st\<lparr>ts_sticky := Some (current, produced')\<rparr>)\<rparr>))"

definition update_load_stats :: "partitioner \<Rightarrow> string \<Rightarrow> queue_sizes option \<Rightarrow> partitioner" where
  "update_load_stats p topic queues =
     (let stats = Option.bind queues from_queue_sizes in
      case pt_topics p topic of
        Some st \<Rightarrow> p\<lparr>pt_topics := (pt_topics p)(topic \<mapsto> st\<lparr>ts_load_stats := stats\<rparr>)\<rparr>
      | None \<Rightarrow>
          (if stats \<noteq> None
           then p\<lparr>pt_topics := (pt_topics p)
                  (topic \<mapsto> \<lparr>ts_sticky = None, ts_load_stats = stats\<rparr>)\<rparr>
           else p))"

section \<open>The table is a distribution\<close>

lemma length_running_sums [simp]: "length (running_sums acc ws) = length ws"
  by (induction ws arbitrary: acc) (simp_all add: Let_def)

lemma running_sums_eq_Nil [simp]: "running_sums acc ws = [] \<longleftrightarrow> ws = []"
  by (cases ws) (simp_all add: Let_def)

lemma running_sums_ge: "acc \<le> u32_max \<Longrightarrow> x \<in> set (running_sums acc ws) \<Longrightarrow> acc \<le> x"
proof (induction ws arbitrary: acc)
  case (Cons w ws)
  have "acc \<le> sat_addu32 acc w" "sat_addu32 acc w \<le> u32_max"
    using Cons.prems(1) by (auto simp: sat_addu32_def)
  with Cons show ?case by (auto simp: Let_def intro: order_trans)
qed simp

lemma running_sums_sorted: "acc \<le> u32_max \<Longrightarrow> sorted (running_sums acc ws)"
proof (induction ws arbitrary: acc)
  case (Cons w ws)
  have "sat_addu32 acc w \<le> u32_max" by (simp add: sat_addu32_def)
  with Cons.IH [OF this] running_sums_ge [OF this] show ?case by (auto simp: Let_def)
qed simp

text \<open>What every table of the partitioner satisfies, so that \<open>partition_point\<close> is defined on it.\<close>

definition load_stats_wf :: "load_stats \<Rightarrow> bool" where
  "load_stats_wf st \<longleftrightarrow> sorted (cumulative_frequency st) \<and> cumulative_frequency st \<noteq> []
     \<and> length (cumulative_frequency st) = length (stats_partition_ids st)"

lemma from_queue_sizes_wf: "from_queue_sizes q = Some st \<Longrightarrow> load_stats_wf st"
  by (auto simp: from_queue_sizes_def Let_def load_stats_wf_def u32_max_def
      intro!: running_sums_sorted dest: arg_cong [where f = length] split: if_splits)

lemma partition_point_less:
  "xs \<noteq> [] \<Longrightarrow> \<not> P (last xs) \<Longrightarrow> partition_point P xs < length xs"
  unfolding partition_point_def
  by (metis last_in_set length_takeWhile_le nat_less_le set_takeWhileD takeWhile_eq_take take_all)

lemma weighted_index_eq:
  assumes "table \<noteq> []" "0 < last table"
  shows "weighted_index table random = partition_point (\<lambda>sum. sum \<le> random mod last table) table"
proof -
  have "max (last table) 1 = last table" using assms(2) by simp
  with assms(1) show ?thesis by (cases table) (simp_all add: weighted_index_def Let_def)
qed

lemma weighted_index_less:
  "table \<noteq> [] \<Longrightarrow> 0 < last table \<Longrightarrow> weighted_index table random < length table"
  using mod_less_divisor [of "last table" random]
  by (auto simp: weighted_index_eq not_le simp del: mod_less_divisor intro!: partition_point_less)

lemma running_sums_pos:
  assumes "ws \<noteq> []" "hd ws \<noteq> 0" "acc \<le> u32_max"
  shows "0 < last (running_sums acc ws)"
proof -
  obtain w ws' where ws: "ws = w # ws'" "0 < w" using assms by (cases ws) auto
  then have "0 < sat_addu32 acc w" by (simp add: sat_addu32_def u32_max_def)
  moreover have "sat_addu32 acc w \<le> u32_max" by (simp add: sat_addu32_def)
  moreover have "last (running_sums acc ws) \<in> insert (sat_addu32 acc w) (set (running_sums (sat_addu32 acc w) ws'))"
    using ws(1) by (auto simp: Let_def last_in_set)
  ultimately show ?thesis using running_sums_ge [of "sat_addu32 acc w" _ ws'] by fastforce
qed

lemma from_queue_sizes_pos:
  assumes "from_queue_sizes q = Some st" "\<forall>n\<in>set (qs_sizes q). n < u32_max"
  shows "0 < last (cumulative_frequency st)"
proof -
  let ?w = "sat_addu32 (Max (set (qs_sizes q))) 1"
  have ne: "qs_sizes q \<noteq> []" and cum: "cumulative_frequency st = running_sums 0 (map (\<lambda>n. ?w - n) (qs_sizes q))"
    using assms(1) by (auto simp: from_queue_sizes_def Let_def split: if_splits)
  have "Max (set (qs_sizes q)) < u32_max" using ne assms(2) by simp
  moreover have "hd (qs_sizes q) \<le> Max (set (qs_sizes q))" using ne by simp
  ultimately have "?w - hd (qs_sizes q) \<noteq> 0" by (auto simp: sat_addu32_def)
  then show ?thesis
    unfolding cum using ne by (intro running_sums_pos) (auto simp: hd_map)
qed

lemma running_sums_count:
  assumes "acc + sum_list ws \<le> u32_max" "i < length ws"
  shows "{v. acc \<le> v \<and> v < acc + sum_list ws
            \<and> partition_point (\<lambda>sum. sum \<le> v) (running_sums acc ws) = i}
    = {acc + sum_list (take i ws) ..< acc + sum_list (take (Suc i) ws)}"
  using assms
proof (induction ws arbitrary: acc i)
  case (Cons w ws)
  have acc': "sat_addu32 acc w = acc + w" using Cons.prems by (simp add: sat_addu32_def)
  show ?case
  proof (cases i)
    case 0
    then show ?thesis
      by (auto simp: acc' Let_def partition_point_def)
  next
    case (Suc j)
    have "{v. acc \<le> v \<and> v < acc + sum_list (w # ws)
            \<and> partition_point (\<lambda>sum. sum \<le> v) (running_sums acc (w # ws)) = i}
        = {v. acc + w \<le> v \<and> v < acc + w + sum_list ws
            \<and> partition_point (\<lambda>sum. sum \<le> v) (running_sums (acc + w) ws) = j}"
      by (auto simp: acc' Let_def partition_point_def Suc split: if_splits)
    also have "\<dots> = {acc + w + sum_list (take j ws) ..< acc + w + sum_list (take (Suc j) ws)}"
      by (rule Cons.IH) (use Cons.prems Suc in simp_all)
    finally show ?thesis by (simp add: Suc add.assoc)
  qed
qed simp

lemma last_running_sums:
  "acc + sum_list ws \<le> u32_max \<Longrightarrow> ws \<noteq> [] \<Longrightarrow> last (running_sums acc ws) = acc + sum_list ws"
proof (induction ws arbitrary: acc)
  case (Cons w ws)
  have "sat_addu32 acc w = acc + w" using Cons.prems by (simp add: sat_addu32_def)
  with Cons show ?case by (cases "ws = []") (simp_all add: Let_def add.assoc)
qed simp

section \<open>A pick stays among its candidates\<close>

lemma get_at_eq_Some: "get_at xs i = Some x \<longleftrightarrow> i < length xs \<and> x = xs ! i"
  by (auto simp: get_at_def)

lemma uniform_pick_None [simp]: "uniform_pick cands random = None \<longleftrightarrow> cands = []"
  by (simp add: uniform_pick_def get_at_def)

lemma uniform_pick_mem: "uniform_pick cands random = Some p \<Longrightarrow> p \<in> set cands"
  by (auto simp: uniform_pick_def get_at_def split: if_splits)

lemma restrict_table_ids:
  "set (snd (restrict_table cands cums prev running pids)) \<subseteq> set cands"
proof (induction pids arbitrary: cums prev running)
  case (Cons pid pids)
  then show ?case by (auto simp: Let_def split: prod.splits) (metis snd_conv subsetD)
qed simp

lemma pick_among_mem:
  assumes "cands \<noteq> []"
  shows "\<exists>p\<in>set cands. pick_among stats cands random = Some p"
proof (cases stats)
  case None
  then show ?thesis
    using assms uniform_pick_mem [of cands random] by (cases "uniform_pick cands random") (auto simp: pick_among_def)
next
  case (Some st)
  obtain table ids where t: "restrict_table cands (cumulative_frequency st) 0 0
      (stats_partition_ids st) = (table, ids)" by fastforce
  then have ids: "set ids \<subseteq> set cands"
    using restrict_table_ids [of cands "cumulative_frequency st" 0 0 "stats_partition_ids st"] by simp
  show ?thesis
  proof (cases "get_at ids (weighted_index table random)")
    case None
    then show ?thesis
      using assms Some t uniform_pick_mem [of cands random]
      by (cases "uniform_pick cands random")
        (auto simp: pick_among_def Let_def get_at_def)
  next
    case (Some p)
    then have "p \<in> set ids" by (auto simp: get_at_eq_Some)
    then show ?thesis
      using Some t ids \<open>stats = Some st\<close> by (auto simp: pick_among_def)
  qed
qed

lemma led_partitions_iff:
  "p \<in> set (led_partitions tp) \<longleftrightarrow> 0 \<le> p \<and> p < tp_count tp \<and> tp_has_leader tp p"
  by (auto simp: led_partitions_def image_iff intro!: bexI [of _ "nat p"])

lemma rack_candidates_iff:
  "rack_aware_candidates cfg tp rack = Some cands \<longleftrightarrow>
     rack_aware cfg \<and> cands \<noteq> []
   \<and> (\<exists>r. rack = Some r
        \<and> cands = filter (\<lambda>p. leader_rack r p = Some (client_rack r)) (led_partitions tp))"
  by (auto simp: rack_aware_candidates_def Let_def split: option.splits if_splits)

lemma pick_partition_rack:
  assumes "rack_aware_candidates cfg tp rack = Some cands"
  shows "pick_partition cfg stats tp rack rnd \<in> set cands"
proof -
  have "cands \<noteq> []" using assms by (simp add: rack_candidates_iff)
  then obtain q where "q \<in> set cands" "pick_among stats cands (rnd mod 2 ^ 31) = Some q"
    using pick_among_mem by blast
  then show ?thesis by (simp add: pick_partition_def assms)
qed

lemma pick_partition_stats:
  assumes "rack_aware_candidates cfg tp rack = None" "load_stats_wf st"
    and "0 < last (cumulative_frequency st)"
  shows "pick_partition cfg (Some st) tp rack rnd \<in> set (stats_partition_ids st)"
  using assms weighted_index_less [of "cumulative_frequency st" "rnd mod 2 ^ 31"]
  by (auto simp: pick_partition_def Let_def get_at_def load_stats_wf_def)

section \<open>The sticky partition\<close>

abbreviation sticky_size :: "partitioner \<Rightarrow> nat" where
  "sticky_size p \<equiv> max (sticky_batch_size (pt_config p)) 1"

text \<open>
  The invariant of the partitioner: a sticky partition comes from an earlier pick, it holds less
  than two batches of bytes, and a stored table is one that \<open>from_queue_sizes\<close> built.
\<close>

definition topic_wf :: "partitioner \<Rightarrow> topic_state \<Rightarrow> bool" where
  "topic_wf p st \<longleftrightarrow>
     (\<forall>sticky produced. ts_sticky st = Some (sticky, produced) \<longrightarrow>
        sp_pick sticky < pt_picks p \<and> produced < sat_mulus (sticky_size p) 2)
   \<and> (\<forall>stats. ts_load_stats st = Some stats \<longrightarrow> (\<exists>q. from_queue_sizes q = Some stats))"

definition partitioner_wf :: "partitioner \<Rightarrow> bool" where
  "partitioner_wf p \<longleftrightarrow> (\<forall>topic st. pt_topics p topic = Some st \<longrightarrow> topic_wf p st)"

lemma partitioner_new_wf: "partitioner_wf (partitioner_new cfg)"
  by (simp add: partitioner_wf_def partitioner_new_def)

lemma sticky_size_pos: "0 < sat_mulus (sticky_size p) 2"
  by (simp add: sat_mulus_def usize_max_def)

lemma partitioner_wf_upd:
  assumes "partitioner_wf p" "pt_config p' = pt_config p" "pt_picks p \<le> pt_picks p'"
    and "pt_topics p' = (pt_topics p)(topic \<mapsto> st)" "topic_wf p' st"
  shows "partitioner_wf p'"
  using assms by (fastforce simp: partitioner_wf_def topic_wf_def)

lemma pick_picks:
  "pt_picks p + 1 < 2 ^ 64 \<Longrightarrow> snd (pick p stats tp rack rnd) = p\<lparr>pt_picks := pt_picks p + 1\<rparr>"
  "sp_pick (fst (pick p stats tp rack rnd)) = pt_picks p"
  by (simp_all add: pick_def)

lemma peek_inner_wf:
  assumes "partitioner_wf p" "pt_picks p + 1 < 2 ^ 64"
  shows "partitioner_wf (snd (peek_inner p topic tp rack rnd))"
    and "\<not> is_changed (snd (peek_inner p topic tp rack rnd)) topic (fst (peek_inner p topic tp rack rnd))"
proof -
  let ?st = "case pt_topics p topic of Some st \<Rightarrow> st | None \<Rightarrow> topic_state_default"
  have st: "topic_wf p ?st"
    using assms(1) by (auto simp: partitioner_wf_def topic_wf_def topic_state_default_def
        split: option.splits)
  show "\<not> is_changed (snd (peek_inner p topic tp rack rnd)) topic (fst (peek_inner p topic tp rack rnd))"
    by (auto simp: peek_inner_def is_changed_def Let_def split: option.splits prod.splits)
  show "partitioner_wf (snd (peek_inner p topic tp rack rnd))"
  proof (cases "ts_sticky ?st")
    case None
    obtain sticky p' where pick: "pick p (ts_load_stats ?st) tp rack rnd = (sticky, p')" by fastforce
    with pick_picks [of p "ts_load_stats ?st" tp rack rnd] assms(2)
    have p': "p' = p\<lparr>pt_picks := pt_picks p + 1\<rparr>" "sp_pick sticky = pt_picks p" by simp_all
    show ?thesis
      by (rule partitioner_wf_upd [OF assms(1), of _ topic "?st\<lparr>ts_sticky := Some (sticky, 0)\<rparr>"])
        (use None pick p' st sticky_size_pos [of p] in \<open>auto simp: peek_inner_def Let_def topic_wf_def\<close>)
  next
    case (Some s)
    show ?thesis
      by (rule partitioner_wf_upd [OF assms(1), of _ topic ?st])
        (use Some st in \<open>auto simp: peek_inner_def Let_def topic_wf_def split: prod.splits\<close>)
  qed
qed

lemma update_load_stats_wf:
  assumes "partitioner_wf p"
  shows "partitioner_wf (update_load_stats p topic queues)"
proof (cases "update_load_stats p topic queues = p")
  case False
  define st where "st = (case pt_topics p topic of Some st \<Rightarrow> st | None \<Rightarrow> topic_state_default)
      \<lparr>ts_load_stats := Option.bind queues from_queue_sizes\<rparr>"
  have upd: "update_load_stats p topic queues = p\<lparr>pt_topics := (pt_topics p)(topic \<mapsto> st)\<rparr>"
    using False by (auto simp: update_load_stats_def Let_def st_def topic_state_default_def
        split: option.splits if_splits)
  have "topic_wf p st"
    using assms by (auto simp: st_def partitioner_wf_def topic_wf_def topic_state_default_def
        bind_eq_Some_conv split: option.splits)
  then show ?thesis
    using partitioner_wf_upd [OF assms, of "update_load_stats p topic queues" topic st]
    by (simp add: upd topic_wf_def)
qed (use assms in simp)

text \<open>What an update does to the sticky partition it was given.\<close>

definition switches :: "partitioner \<Rightarrow> nat \<Rightarrow> bool \<Rightarrow> bool" where
  "switches p produced enable_switch \<longleftrightarrow>
     (produced \<ge> sticky_size p \<and> enable_switch) \<or> produced \<ge> sat_mulus (sticky_size p) 2"

lemma update_inner_current:
  assumes "pt_topics p topic = Some st" "ts_sticky st = Some (sticky, produced)"
    and "pt_picks p + 1 < 2 ^ 64"
  shows "update_inner p topic sticky appended tp enable_switch rack rnd =
    (if switches p (sat_addus produced appended) enable_switch
     then p\<lparr>pt_picks := pt_picks p + 1, pt_topics := (pt_topics p)(topic \<mapsto>
            st\<lparr>ts_sticky := Some (fst (pick p (ts_load_stats st) tp rack rnd), 0)\<rparr>)\<rparr>
     else p\<lparr>pt_topics := (pt_topics p)(topic \<mapsto>
            st\<lparr>ts_sticky := Some (sticky, sat_addus produced appended)\<rparr>)\<rparr>)"
  using assms by (simp add: update_inner_def switches_def Let_def pick_def)

lemma update_inner_stale: "is_changed p topic sticky \<Longrightarrow> update_inner p topic sticky n tp e rack rnd = p"
  by (auto simp: is_changed_def update_inner_def Let_def bind_eq_None_conv
      split: option.splits prod.splits)

lemma update_inner_wf:
  assumes "partitioner_wf p" "pt_picks p + 1 < 2 ^ 64"
  shows "partitioner_wf (update_inner p topic sticky appended tp enable_switch rack rnd)"
proof (cases "is_changed p topic sticky")
  case True
  with assms show ?thesis by (simp add: update_inner_stale)
next
  case False
  then obtain st produced where st: "pt_topics p topic = Some st" "ts_sticky st = Some (sticky, produced)"
    by (auto simp: is_changed_def split: option.splits bind_splits)
  have wf: "topic_wf p st" using assms(1) st(1) by (simp add: partitioner_wf_def)
  note upd = update_inner_current [OF st assms(2), of appended tp enable_switch rack rnd]
  show ?thesis
  proof (cases "switches p (sat_addus produced appended) enable_switch")
    case True
    show ?thesis
      by (rule partitioner_wf_upd [OF assms(1)]) (use upd True wf pick_picks(2) sticky_size_pos in
        \<open>auto simp: topic_wf_def\<close>)
  next
    case False
    show ?thesis
      by (rule partitioner_wf_upd [OF assms(1)])
        (use upd False wf st in \<open>auto simp: topic_wf_def switches_def\<close>)
  qed
qed

section \<open>Properties\<close>

text \<open>
  MurmurHash2 as Kafka's clients define it, independent of the loops of the code: the key is cut into
  blocks of four bytes, a block is read as a number with the lowest byte first, and the bytes that
  are left over are read the same way.
\<close>

definition le_value :: "u8 list \<Rightarrow> nat" where
  "le_value bs = (\<Sum>i<length bs. unat (bs ! i) * 256 ^ i)"

definition key_blocks :: "u8 list \<Rightarrow> u32 list" where
  "key_blocks key = map (\<lambda>i. of_nat (le_value (take 4 (drop (4 * i) key)))) [0..<length key div 4]"

definition kafka_murmur2 :: "u8 list \<Rightarrow> u32" where
  "kafka_murmur2 key =
     (let m = 0x5bd1e995;
          mix = (\<lambda>h k. (h * m) XOR ((k * m XOR (k * m) div 2 ^ 24) * m));
          blocks = foldl mix (0x9747b28c XOR of_nat (length key)) (key_blocks key);
          rest = drop (4 * (length key div 4)) key;
          h = (if rest = [] then blocks else (blocks XOR of_nat (le_value rest)) * m);
          h' = (h XOR h div 2 ^ 13) * m
      in h' XOR h' div 2 ^ 15)"

lemma le_value_Cons: "le_value (b # bs) = unat b + 256 * le_value bs"
  by (simp add: le_value_def sum.lessThan_Suc_shift sum_distrib_left mult.assoc mult.left_commute
      del: sum.lessThan_Suc)

lemma le_value_Nil [simp]: "le_value [] = 0"
  by (simp add: le_value_def)

lemma byte_shift:
  "push_bit 8 (x :: u32) = 256 * x" "push_bit 16 (x :: u32) = 65536 * x"
  "push_bit 24 (x :: u32) = 16777216 * x"
  by (simp_all add: push_bit_eq_mult)

lemma bytes_disjoint:
  "(ucast (b0 :: u8) :: u32) AND push_bit 8 (ucast (b1 :: u8)) = 0"
  "(ucast b0 OR push_bit 8 (ucast b1) :: u32) AND push_bit 16 (ucast (b2 :: u8)) = 0"
  "((ucast b0 OR push_bit 8 (ucast b1)) OR push_bit 16 (ucast b2) :: u32)
     AND push_bit 24 (ucast (b3 :: u8)) = 0"
  by (rule bit_eqI, auto simp: bit_simps dest: bit_imp_le_length)+

lemma from_le_u32_value: "from_le_u32 b0 b1 b2 b3 = of_nat (le_value [b0, b1, b2, b3])"
proof -
  have "from_le_u32 b0 b1 b2 b3
      = ucast b0 + push_bit 8 (ucast b1) + push_bit 16 (ucast b2) + push_bit 24 (ucast b3)"
    unfolding from_le_u32_def by (simp add: disjunctive_add_eq_or bytes_disjoint flip: or.assoc)
  then show ?thesis
    by (simp add: le_value_Cons byte_shift algebra_simps)
qed

lemma tail_value:
  "(h XOR push_bit 16 (ucast b2)) XOR push_bit 8 (ucast b1) XOR ucast b0
     = h XOR of_nat (le_value [b0, b1, b2])"
  "(h XOR push_bit 8 (ucast b1)) XOR ucast b0 = h XOR of_nat (le_value [b0, b1])"
  "h XOR ucast b0 = h XOR (of_nat (le_value [b0]) :: u32)"
  for h :: u32
proof -
  have d: "(ucast b0 XOR push_bit 8 (ucast b1) :: u32) AND push_bit 16 (ucast b2) = 0"
    using bytes_disjoint(1) [of b0 b1] bytes_disjoint(2) [of b0 b1 b2]
    by (simp add: disjunctive_add_eq_or flip: disjunctive_add_eq_xor)
  have v2: "of_nat (le_value [b0, b1]) = (ucast b0 XOR push_bit 8 (ucast b1) :: u32)"
    using bytes_disjoint(1) [of b0 b1]
    by (simp add: le_value_Cons byte_shift algebra_simps flip: disjunctive_add_eq_xor)
  have "of_nat (le_value [b0, b1, b2])
      = (ucast b0 XOR push_bit 8 (ucast b1) :: u32) + push_bit 16 (ucast b2)"
    unfolding v2 [symmetric] by (simp add: le_value_Cons byte_shift algebra_simps)
  then have v3: "of_nat (le_value [b0, b1, b2])
      = (ucast b0 XOR push_bit 8 (ucast b1) XOR push_bit 16 (ucast b2) :: u32)"
    using d by (simp add: disjunctive_add_eq_xor xor.assoc)
  show "(h XOR push_bit 16 (ucast b2)) XOR push_bit 8 (ucast b1) XOR ucast b0
     = h XOR of_nat (le_value [b0, b1, b2])"
    unfolding v3 by (simp add: xor.assoc xor.commute xor.left_commute)
  show "(h XOR push_bit 8 (ucast b1)) XOR ucast b0 = h XOR of_nat (le_value [b0, b1])"
    unfolding v2 by (simp add: xor.assoc xor.commute xor.left_commute)
  show "h XOR ucast b0 = h XOR (of_nat (le_value [b0]) :: u32)" by (simp add: le_value_Cons)
qed

lemma four_more: "(4 + n) div 4 = Suc (n div 4)" for n :: nat
  by simp

lemma drop_four: "drop (4 + n) (b0 # b1 # b2 # b3 # rest) = drop n rest"
  by (simp add: numeral_eq_Suc)

lemma key_blocks_Cons:
  "key_blocks (b0 # b1 # b2 # b3 # rest) = from_le_u32 b0 b1 b2 b3 # key_blocks rest"
proof -
  have "[0..<length (b0 # b1 # b2 # b3 # rest) div 4] = 0 # map Suc [0..<length rest div 4]"
    by (simp add: four_more upt_conv_Cons map_Suc_upt del: upt_Suc)
  then show ?thesis by (simp add: key_blocks_def from_le_u32_value drop_four comp_def)
qed

lemma murmur_chunks_blocks:
  "murmur_chunks h key = (foldl murmur_mix h (key_blocks key), drop (4 * (length key div 4)) key)"
proof (induction h key rule: murmur_chunks.induct)
  case (1 h b0 b1 b2 b3 rest)
  then show ?case by (simp add: key_blocks_Cons four_more drop_four)
qed (simp_all add: key_blocks_def)

lemma murmur_mix_kafka:
  "murmur_mix h k = (h * 0x5bd1e995) XOR ((k * 0x5bd1e995 XOR (k * 0x5bd1e995) div 2 ^ 24) * 0x5bd1e995)"
  by (simp add: murmur_mix_def murmur_m_def Let_def drop_bit_eq_div)

lemma murmur_tail_kafka:
  assumes "length rest < 4"
  shows "murmur_tail h rest =
    (if rest = [] then h else (h XOR of_nat (le_value rest)) * 0x5bd1e995)"
proof -
  consider "rest = []" | b0 where "rest = [b0]" | b0 b1 where "rest = [b0, b1]"
    | b0 b1 b2 where "rest = [b0, b1, b2]"
    using assms by (auto simp: numeral_eq_Suc less_Suc_eq length_Suc_conv)
  then show ?thesis
    by cases (simp_all add: murmur_m_def tail_value(1,2) tail_value(3) [symmetric])
qed

lemma murmur2_is_kafka: "murmur2 key = sint (kafka_murmur2 key)"
proof -
  have "length (drop (4 * (length key div 4)) key) < 4"
    by (simp add: minus_mult_div_eq_mod)
  then show ?thesis
    unfolding murmur2_def kafka_murmur2_def Let_def murmur_chunks_blocks prod.case
      murmur_tail_kafka [OF \<open>length (drop _ key) < 4\<close>] murmur_mix_kafka [abs_def] murmur_m_def murmur_seed_def
      drop_bit_eq_div
    by simp
qed

lemma kafka_partition:
  "murmur2 key AND 0x7fffffff = uint (kafka_murmur2 key) mod 2 ^ 31"
proof -
  have "murmur2 key AND 0x7fffffff = murmur2 key AND mask 31" by (simp add: mask_eq_exp_minus_1)
  also have "\<dots> = take_bit 31 (sint (kafka_murmur2 key))"
    by (simp add: murmur2_is_kafka take_bit_eq_mask)
  also have "\<dots> = take_bit 31 (uint (kafka_murmur2 key))"
    by (simp add: sint_uint take_bit_signed_take_bit)
  finally show ?thesis by (simp only: take_bit_eq_mod)
qed

text \<open>The values that Kafka's own clients test their hash with.\<close>

lemma kafka_murmur2_vectors:
  "sint (kafka_murmur2 (as_bytes ''21'')) = - 973932308"
  "sint (kafka_murmur2 (as_bytes ''foobar'')) = - 790332482"
  "sint (kafka_murmur2 (as_bytes ''abc'')) = 479470107"
  "sint (kafka_murmur2 (as_bytes ''a-little-bit-long-string'')) = - 985981536"
  by (simp_all add: murmur2_def as_bytes_def byte_of_char_def murmur_seed_def murmur_m_def
      murmur_mix_def from_le_u32_def Let_def flip: murmur2_is_kafka)

lemma murmur2_kafka: "murmur2 (as_bytes ''kafka'') = - 798503068"
  by (simp add: murmur2_def as_bytes_def byte_of_char_def murmur_seed_def murmur_m_def
      murmur_mix_def from_le_u32_def Let_def)

text \<open>
  C36. A keyed record goes to the partition that every Kafka client picks: the MurmurHash2 of the key,
  given here by its own definition over blocks of four bytes, without its top bit and modulo the
  partition count, so a partition of the topic.  A record without a key, and any record of a
  producer that ignores keys, has no keyed partition; without a positive partition count the call
  panics.
\<close>
theorem key_partition_matches_kafka:
  "keyed_partition p key n =
     (case key of
        None \<Rightarrow> Some None
      | Some k \<Rightarrow>
          (if ignore_keys (pt_config p) then Some None
           else if 0 < n then Some (Some (uint (kafka_murmur2 k) mod 2 ^ 31 mod n))
           else None))"
  unfolding keyed_partition_def partition_for_key_def kafka_partition
  by (simp split: option.split)



lemma uniform_picks_all:
  assumes "cands \<noteq> []" "length cands \<le> 2 ^ 31"
  shows "{p. \<exists>rnd < 2 ^ 32. uniform_pick cands (rnd mod 2 ^ 31) = Some p} = set cands"
proof (intro equalityI subsetI)
  fix p assume "p \<in> set cands"
  then obtain i where i: "i < length cands" "p = cands ! i" by (auto simp: in_set_conv_nth)
  have "i < 2 ^ 31" using i(1) assms(2) by simp
  then have "i mod 2 ^ 31 = i" "i < 2 ^ 32" by simp_all
  then show "p \<in> {p. \<exists>rnd < 2 ^ 32. uniform_pick cands (rnd mod 2 ^ 31) = Some p}"
    using i assms(1) by (auto simp: uniform_pick_def get_at_def intro!: exI [of _ i])
qed (use uniform_pick_mem in blast)

lemma length_led_partitions: "length (led_partitions tp) \<le> nat (tp_count tp)"
  unfolding led_partitions_def by (rule order_trans [OF length_filter_le]) simp

lemma random_remainders:
  assumes "0 < c" "c \<le> 2 ^ 31"
  shows "(\<lambda>rnd. int (rnd mod 2 ^ 31 mod nat c)) ` {..<2 ^ 32} = {0..<c}"
proof (intro equalityI subsetI)
  fix p assume p: "p \<in> {0..<c}"
  then have "nat p < 2 ^ 31" using assms(2) by (simp add: nat_less_iff)
  then have "nat p mod 2 ^ 31 mod nat c = nat p" "nat p < 2 ^ 32" using p assms by simp_all
  then show "p \<in> (\<lambda>rnd. int (rnd mod 2 ^ 31 mod nat c)) ` {..<2 ^ 32}"
    using p by (intro image_eqI [of _ _ "nat p"]) simp_all
next
  fix p assume "p \<in> (\<lambda>rnd. int (rnd mod 2 ^ 31 mod nat c)) ` {..<2 ^ 32}"
  then obtain rnd where "p = int (rnd mod 2 ^ 31 mod nat c)" by blast
  moreover have "rnd mod 2 ^ 31 mod nat c < nat c" using assms(1) by simp
  ultimately show "p \<in> {0..<c}" by simp
qed

text \<open>The partitions with a leader, and those of them whose leader is in the client's rack.\<close>

definition with_leader :: "topic_partitions \<Rightarrow> int set" where
  "with_leader tp = {p. 0 \<le> p \<and> p < tp_count tp \<and> tp_has_leader tp p}"

definition in_client_rack ::
    "partitioner_config \<Rightarrow> topic_partitions \<Rightarrow> rack_preference option \<Rightarrow> int set" where
  "in_client_rack cfg tp rack = {p. rack_aware cfg \<and> 0 \<le> p \<and> p < tp_count tp \<and> tp_has_leader tp p
     \<and> (\<exists>r. rack = Some r \<and> leader_rack r p = Some (client_rack r))}"

lemma rack_aware_candidates_set:
  "rack_aware_candidates cfg tp rack = None \<longleftrightarrow> in_client_rack cfg tp rack = {}"
  "rack_aware_candidates cfg tp rack = Some cands \<Longrightarrow>
     set cands = in_client_rack cfg tp rack \<and> cands \<noteq> [] \<and> length cands \<le> nat (tp_count tp)"
  using length_led_partitions [of tp]
  by (auto simp: rack_aware_candidates_def in_client_rack_def Let_def led_partitions_iff
      filter_empty_conv split: option.splits if_splits intro: order_trans [OF length_filter_le])

lemma picks_without_table:
  assumes "0 < tp_count tp" "tp_count tp \<le> 2 ^ 31"
  shows "pick_partition cfg None tp rack ` {..<2 ^ 32} =
    (if in_client_rack cfg tp rack \<noteq> {} then in_client_rack cfg tp rack
     else if with_leader tp \<noteq> {} then with_leader tp else {0..<tp_count tp})"
proof -
  have led: "set (led_partitions tp) = with_leader tp"
    by (auto simp: with_leader_def led_partitions_iff)
  have small: "length cands \<le> 2 ^ 31" if "length cands \<le> nat (tp_count tp)" for cands :: "int list"
    using that assms by simp
  have image: "f ` {..<2 ^ 32} = set cands"
    if "cands \<noteq> []" "length cands \<le> 2 ^ 31"
      "\<And>rnd :: nat. uniform_pick cands (rnd mod 2 ^ 31) = Some (f rnd)" for f cands
    unfolding uniform_picks_all [OF that(1,2), symmetric] that(3) by auto
  show ?thesis
  proof (cases "rack_aware_candidates cfg tp rack")
    case (Some cands)
    note c = rack_aware_candidates_set(2) [OF Some]
    have "uniform_pick cands (rnd mod 2 ^ 31) = Some (pick_partition cfg None tp rack rnd)" for rnd
      using Some c by (auto simp: pick_partition_def pick_among_def Let_def split: option.split)
    from image [OF _ small this] show ?thesis using c by force
  next
    case None
    then have rack: "in_client_rack cfg tp rack = {}" by (simp add: rack_aware_candidates_set)
    show ?thesis
    proof (cases "led_partitions tp = []")
      case True
      then have "pick_partition cfg None tp rack
          = (\<lambda>rnd. int (rnd mod 2 ^ 31 mod nat (tp_count tp)))"
        using None assms(1)
        by (intro ext) (simp add: pick_partition_def Let_def max_absorb1 uniform_pick_def)
      then show ?thesis using rack led True random_remainders [OF assms] by auto
    next
      case False
      have "uniform_pick (led_partitions tp) (rnd mod 2 ^ 31)
          = Some (pick_partition cfg None tp rack rnd)" for rnd
        using None False by (auto simp: pick_partition_def Let_def split: option.split)
      from image [OF False small [OF length_led_partitions] this]
      show ?thesis using rack led False by (metis set_empty)
    qed
  qed
qed

text \<open>
  C38. Where a pick can land.  Without a table, the partitions that some random value of the source
  selects are exactly the led partitions in the client's rack when rack awareness is on and there are
  any; otherwise the partitions with a leader when there are any; otherwise all partitions of the
  topic.  With a table built from queue sizes, the pick lands on a led partition in the client's rack
  in the first case, and otherwise on a partition that has a queue in the table.
\<close>
theorem pick_stays_in_candidates:
  assumes "0 < tp_count tp" "tp_count tp \<le> 2 ^ 31"
  shows "pick_partition cfg None tp rack ` {..<2 ^ 32} =
      (if in_client_rack cfg tp rack \<noteq> {} then in_client_rack cfg tp rack
       else if with_leader tp \<noteq> {} then with_leader tp else {0..<tp_count tp})
    \<and> (from_queue_sizes q = Some st \<and> (\<forall>n\<in>set (qs_sizes q). n < u32_max) \<longrightarrow>
         pick_partition cfg (Some st) tp rack rnd \<in>
           (if in_client_rack cfg tp rack \<noteq> {} then in_client_rack cfg tp rack
            else set (qs_partition_ids q)))"
proof -
  have "pick_partition cfg (Some st) tp rack rnd \<in>
      (if in_client_rack cfg tp rack \<noteq> {} then in_client_rack cfg tp rack else set (qs_partition_ids q))"
    if q: "from_queue_sizes q = Some st" "\<forall>n\<in>set (qs_sizes q). n < u32_max"
  proof (cases "rack_aware_candidates cfg tp rack")
    case (Some cands)
    then show ?thesis
      using pick_partition_rack [OF Some, of "Some st" rnd] rack_aware_candidates_set(2) [OF Some]
      by force
  next
    case None
    have "stats_partition_ids st = qs_partition_ids q"
      using q(1) by (auto simp: from_queue_sizes_def Let_def split: if_splits)
    then show ?thesis
      using pick_partition_stats [OF None from_queue_sizes_wf [OF q(1)] from_queue_sizes_pos [OF q]] None
      by (simp add: rack_aware_candidates_set)
  qed
  then show ?thesis using picks_without_table [OF assms] by blast
qed

definition config_example :: partitioner_config where
  "config_example = \<lparr>sticky_batch_size = 100, ignore_keys = False, adaptive_partitioning = True,
     availability_timeout = 0, rack_aware = True\<rparr>"

theorem pick_stays_in_candidates_witness:
  "pick_partition config_example None \<lparr>tp_count = 4, tp_has_leader = (\<lambda>p. p \<noteq> 1)\<rparr>
     (Some \<lparr>leader_rack = (\<lambda>p. if 1 \<le> p then Some ''a'' else None), client_rack = ''a''\<rparr>)
     ` {..<2 ^ 32} = {2, 3}
   \<and> pick_partition config_example None \<lparr>tp_count = 4, tp_has_leader = (\<lambda>p. p \<noteq> 1)\<rparr> None
     ` {..<2 ^ 32} = {0, 2, 3}
   \<and> pick_partition config_example
       (Some \<lparr>cumulative_frequency = [4, 5, 8], stats_partition_ids = [0, 2, 3]\<rparr>)
       \<lparr>tp_count = 4, tp_has_leader = (\<lambda>p. p \<noteq> 1)\<rparr> None 7 \<in> {0, 2, 3}"
proof -
  let ?tp = "\<lparr>tp_count = 4, tp_has_leader = (\<lambda>p. p \<noteq> 1)\<rparr>"
  let ?rack = "Some \<lparr>leader_rack = (\<lambda>p. if 1 \<le> p then Some ''a'' else None), client_rack = ''a''\<rparr>"
  let ?q = "\<lparr>qs_sizes = [0, 3, 1], qs_partition_ids = [0, 2, 3], qs_all = 4\<rparr>"
  let ?st = "\<lparr>cumulative_frequency = [4, 5, 8], stats_partition_ids = [0, 2, 3]\<rparr>"
  have local: "in_client_rack config_example ?tp ?rack = {2, 3}"
    "in_client_rack config_example ?tp None = {}"
    by (auto simp: in_client_rack_def config_example_def split: if_splits)
  have led: "with_leader ?tp = {0, 2, 3}" by (auto simp: with_leader_def)
  have q: "from_queue_sizes ?q = Some ?st" "\<forall>n\<in>set (qs_sizes ?q). n < u32_max"
    by (simp_all add: from_queue_sizes_def Let_def sat_addu32_def u32_max_def)
  have tp: "0 < tp_count ?tp" "tp_count ?tp \<le> 2 ^ 31" by simp_all
  from pick_stays_in_candidates [OF tp, of config_example ?rack ?q ?st 7]
    pick_stays_in_candidates [OF tp, of config_example None ?q ?st 7] q
  show ?thesis unfolding local led by simp
qed



end
