(* ===== verification/Coordination_Broker.thy ===== *)
theory Coordination_Broker
  imports Coordination_Succession Partitioner
begin

text \<open>
  The broker transport of \<open>client-coordination/src/broker.rs\<close>: where the records of a role live,
  how a scan reads them back, and how the guarded writes map the answers of the producer.

  The network is outside: a response is an argument, with the fields of the protocol structs that
  the code reads, and the calls on the transactional producer are the fields of \<open>role_producer\<close>,
  each the answer of that call.  The calls that change the cluster are recorded in the order in
  which the code makes them.
\<close>

section \<open>Constants and small mappings\<close>

definition UNKNOWN_TOPIC_OR_PARTITION :: int where "UNKNOWN_TOPIC_OR_PARTITION = 3"
definition LEADER_NOT_AVAILABLE :: int where "LEADER_NOT_AVAILABLE = 5"
definition TOPIC_ALREADY_EXISTS :: int where "TOPIC_ALREADY_EXISTS = 36"
definition INVALID_PRODUCER_EPOCH :: int where "INVALID_PRODUCER_EPOCH = 47"
definition PRODUCER_FENCED :: int where "PRODUCER_FENCED = 90"
definition TRANSACTIONAL_ID_NOT_FOUND :: int where "TRANSACTIONAL_ID_NOT_FOUND = 105"

definition server :: "int \<Rightarrow> coordination_error" where
  "server error_code = CoordClient (ClientServer error_code)"

definition check_topic_shape :: "int \<Rightarrow> int \<Rightarrow> coordination_error + unit" where
  "check_topic_shape partitions replication =
     (if partitions \<le> 0 then Inl (CoordInvalidConfig (NeedsPartition partitions))
      else if replication \<le> 0 then Inl (CoordInvalidConfig (NeedsReplica replication))
      else Inr ())"

text \<open>The outer \<^const>\<open>None\<close> is a panic of \<open>partition_for_key\<close>.\<close>

definition role_partition :: "role \<Rightarrow> int \<Rightarrow> (coordination_error + int) option" where
  "role_partition r partitions =
     (if partitions \<le> 0 then Some (Inl (CoordInvalidConfig (TopicReports partitions)))
      else map_option Inr (partition_for_key (as_bytes (role_name r)) partitions))"

record kafka_error =
  ke_code :: int
  ke_name :: string
  ke_message :: "string option"

primrec accept_topic_creation :: "kafka_error option list \<Rightarrow> coordination_error + unit" where
  "accept_topic_creation [] = Inr ()"
| "accept_topic_creation (oc # ocs) =
     (case oc of
        Some e \<Rightarrow>
          (if ke_code e \<noteq> TOPIC_ALREADY_EXISTS
           then Inl (CoordAdmin (AdminBroker ''CreateTopics'' (ke_code e) (ke_name e) (ke_message e)))
           else accept_topic_creation ocs)
      | None \<Rightarrow> accept_topic_creation ocs)"

section \<open>Reading metadata and offsets\<close>

record md_partition =
  mp_index :: int
  mp_error_code :: int
  mp_leader_id :: int

record md_topic =
  mt_name :: "string option"
  mt_error_code :: int
  mt_topic_id :: nat
  mt_partitions :: "md_partition list"

record layout =
  layout_partitions :: int
  layout_topic_id :: nat

definition coordination_topic :: "md_topic list \<Rightarrow> md_topic option" where
  "coordination_topic topics = List.find (\<lambda>t. mt_name t = Some COORDINATION_STATE_TOPIC) topics"

definition topic_layout :: "md_topic list \<Rightarrow> coordination_error + layout" where
  "topic_layout topics =
     (case coordination_topic topics of
        None \<Rightarrow> Inl (server UNKNOWN_TOPIC_OR_PARTITION)
      | Some t \<Rightarrow>
          (if mt_error_code t \<noteq> 0 then Inl (server (mt_error_code t))
           else let n = int (length (mt_partitions t)) in
             if \<not> i32_range n then Inl (CoordInvalidConfig (TopicReports n))
             else if n = 0 then Inl (server UNKNOWN_TOPIC_OR_PARTITION)
             else Inr \<lparr>layout_partitions = n, layout_topic_id = mt_topic_id t\<rparr>))"

definition partition_leader :: "md_topic list \<Rightarrow> int \<Rightarrow> coordination_error + int" where
  "partition_leader topics part =
     (case coordination_topic topics of
        None \<Rightarrow> Inl (server UNKNOWN_TOPIC_OR_PARTITION)
      | Some t \<Rightarrow>
          (case List.find (\<lambda>e. mp_index e = part) (mt_partitions t) of
             None \<Rightarrow> Inl (server UNKNOWN_TOPIC_OR_PARTITION)
           | Some e \<Rightarrow>
               (if mp_error_code e \<noteq> 0 then Inl (server (mp_error_code e))
                else if mp_leader_id e < 0 then Inl (server LEADER_NOT_AVAILABLE)
                else Inr (mp_leader_id e))))"

record lo_partition =
  lop_index :: int
  lop_error_code :: int
  lop_offset :: int

record lo_topic =
  lot_name :: string
  lot_partitions :: "lo_partition list"

definition list_offsets_offset :: "lo_topic list \<Rightarrow> int \<Rightarrow> coordination_error + int" where
  "list_offsets_offset topics part =
     (case List.find (\<lambda>e. lop_index e = part)
             (concat (map lot_partitions
                (filter (\<lambda>t. lot_name t = COORDINATION_STATE_TOPIC) topics))) of
        None \<Rightarrow> Inl (server UNKNOWN_TOPIC_OR_PARTITION)
      | Some e \<Rightarrow>
          (if lop_error_code e \<noteq> 0 then Inl (server (lop_error_code e)) else Inr (lop_offset e)))"

section \<open>The scan\<close>

record fetched_record =
  fr_offset :: int
  fr_key :: "u8 list option"
  fr_value :: "u8 list option"

record fetch_page =
  page_records :: "fetched_record list"
  page_next_offset :: "int option"

definition next_scan_offset :: "int \<Rightarrow> int \<Rightarrow> int option \<Rightarrow> int option" where
  "next_scan_offset current stop next_offset =
     (case next_offset of
        None \<Rightarrow> None
      | Some nxt \<Rightarrow> (if nxt \<le> current \<or> nxt \<ge> stop then None else Some nxt))"

primrec select_role_records ::
    "role \<Rightarrow> fetched_record list \<Rightarrow> coordination_error + log_record list" where
  "select_role_records r [] = Inr []"
| "select_role_records r (x # xs) =
     (case fr_key x of
        None \<Rightarrow> select_role_records r xs
      | Some bytes \<Rightarrow>
          (case decode_key bytes of
             Inl _ \<Rightarrow> select_role_records r xs
           | Inr key \<Rightarrow>
               (if key_role key \<noteq> r then select_role_records r xs
                else case decode_value (key_kind key) (fr_value x) of
                  Inl e \<Rightarrow> Inl (CoordRecord e)
                | Inr v \<Rightarrow>
                    res_bind (select_role_records r xs) (\<lambda>rest. Inr ((fr_offset x, key, v) # rest)))))"

text \<open>The \<open>while\<close> loop of \<open>read_role_records\<close>; the cursor only grows, so it ends.\<close>

function scan_role ::
    "(int \<Rightarrow> coordination_error + fetch_page) \<Rightarrow> role \<Rightarrow> int \<Rightarrow> int \<Rightarrow> log_record list
       \<Rightarrow> coordination_error + log_record list" where
  "scan_role fetch r ofs stop records =
     (if ofs < stop then
        res_bind (fetch ofs) (\<lambda>page.
        res_bind (select_role_records r (page_records page)) (\<lambda>selected.
          case next_scan_offset ofs stop (page_next_offset page) of
            Some nxt \<Rightarrow> scan_role fetch r nxt stop (records @ selected)
          | None \<Rightarrow> Inr (records @ selected)))
      else Inr records)"
  by pat_completeness auto
termination
  by (relation "measure (\<lambda>(_, _, ofs, stop, _). nat (stop - ofs))")
    (auto simp: next_scan_offset_def split: option.splits if_splits)

declare scan_role.simps [simp del]

text \<open>
  The answers of the cluster to one call of the transport: the creation of the topic, the metadata
  that \<open>resolve_topic\<close> reads and the later one that \<open>leader_connection\<close> reads, the connection to a
  broker, and what that broker answers to \<open>ListOffsets\<close> (partition and timestamp) and to a fetch
  (topic id, partition and offset) at isolation level 1.  \<open>kept\<close> is the once-cell of the layout.
\<close>

record cluster =
  cl_create_topics :: "coordination_error + kafka_error option list"
  cl_metadata :: "coordination_error + md_topic list"
  cl_leader_metadata :: "coordination_error + md_topic list"
  cl_connect :: "int \<Rightarrow> coordination_error + unit"
  cl_list_offsets :: "int \<Rightarrow> int \<Rightarrow> int \<Rightarrow> coordination_error + lo_topic list"
  cl_fetch :: "int \<Rightarrow> nat \<Rightarrow> int \<Rightarrow> int \<Rightarrow> coordination_error + fetch_page"

definition resolve_topic :: "cluster \<Rightarrow> coordination_error + layout" where
  "resolve_topic cl =
     res_bind (cl_create_topics cl) (\<lambda>outcomes.
     res_bind (accept_topic_creation outcomes) (\<lambda>_.
     res_bind (cl_metadata cl) topic_layout))"

definition kept_layout ::
    "cluster \<Rightarrow> layout option \<Rightarrow> (coordination_error + layout) \<times> layout option" where
  "kept_layout cl kept =
     (case kept of
        Some lay \<Rightarrow> (Inr lay, kept)
      | None \<Rightarrow>
          (case resolve_topic cl of
             Inl e \<Rightarrow> (Inl e, None)
           | Inr lay \<Rightarrow> (Inr lay, Some lay)))"

definition partition_of ::
    "cluster \<Rightarrow> layout option \<Rightarrow> role \<Rightarrow> (coordination_error + int) option \<times> layout option" where
  "partition_of cl kept r =
     (case kept_layout cl kept of
        (Inl e, kept') \<Rightarrow> (Some (Inl e), kept')
      | (Inr lay, kept') \<Rightarrow> (role_partition r (layout_partitions lay), kept'))"

text \<open>The result is the broker that the connection goes to.\<close>

definition leader_connection :: "cluster \<Rightarrow> int \<Rightarrow> coordination_error + int" where
  "leader_connection cl part =
     res_bind (cl_leader_metadata cl) (\<lambda>topics.
     res_bind (partition_leader topics part) (\<lambda>leader.
     res_bind (cl_connect cl leader) (\<lambda>_. Inr leader)))"

definition list_offset :: "cluster \<Rightarrow> int \<Rightarrow> int \<Rightarrow> int \<Rightarrow> coordination_error + int" where
  "list_offset cl leader part timestamp =
     res_bind (cl_list_offsets cl leader part timestamp) (\<lambda>topics. list_offsets_offset topics part)"

definition LIST_OFFSETS_EARLIEST :: int where "LIST_OFFSETS_EARLIEST = - 2"
definition LIST_OFFSETS_LATEST :: int where "LIST_OFFSETS_LATEST = - 1"

definition read_role_records ::
    "cluster \<Rightarrow> layout option \<Rightarrow> role
       \<Rightarrow> (coordination_error + log_record list) option \<times> layout option" where
  "read_role_records cl kept r =
     (case kept_layout cl kept of
        (Inl e, kept') \<Rightarrow> (Some (Inl e), kept')
      | (Inr lay, kept') \<Rightarrow>
          (case role_partition r (layout_partitions lay) of
             None \<Rightarrow> None
           | Some (Inl e) \<Rightarrow> Some (Inl e)
           | Some (Inr part) \<Rightarrow> Some (
               res_bind (leader_connection cl part) (\<lambda>leader.
               res_bind (list_offset cl leader part LIST_OFFSETS_EARLIEST) (\<lambda>start.
               res_bind (list_offset cl leader part LIST_OFFSETS_LATEST) (\<lambda>stop.
                 scan_role (cl_fetch cl leader (layout_topic_id lay) part) r start stop [])))),
           kept'))"

section \<open>Writing\<close>

record producer_record =
  pr_topic :: string
  pr_partition :: "int option"
  pr_key :: "u8 list option"
  pr_value :: "u8 list option"
  pr_headers :: "(string \<times> u8 list option) list"
  pr_timestamp_ms :: "int option"

definition coordination_record_of ::
    "coordination_key \<Rightarrow> coordination_record \<Rightarrow> int \<Rightarrow> producer_record" where
  "coordination_record_of key v part =
     \<lparr>pr_topic = COORDINATION_STATE_TOPIC, pr_partition = Some part,
      pr_key = Some (encode_key key), pr_value = encode_value v, pr_headers = [],
      pr_timestamp_ms = None\<rparr>"

definition registration_record :: "role \<Rightarrow> member_id \<Rightarrow> int \<Rightarrow> int \<Rightarrow> producer_record" where
  "registration_record r member part registered_at =
     coordination_record_of (registration_key r member)
       (RegistrationRecord \<lparr>reg_member = member, reg_registered_at = registered_at\<rparr>) part"

definition lease_record :: "role \<Rightarrow> lease \<Rightarrow> int \<Rightarrow> producer_record" where
  "lease_record r l part = coordination_record_of (lease_key r) (LeaseRecord l) part"

fun is_fenced :: "producer_error \<Rightarrow> bool" where
  "is_fenced FencedProducer = True"
| "is_fenced (ProducerServer code) = (code = INVALID_PRODUCER_EPOCH \<or> code = PRODUCER_FENCED)"
| "is_fenced (ProducerClient (ClientServer error_code)) =
     (error_code = INVALID_PRODUCER_EPOCH \<or> error_code = PRODUCER_FENCED)"
| "is_fenced _ = False"

definition fenced_or :: "role \<Rightarrow> producer_error \<Rightarrow> coordination_error" where
  "fenced_or r e = (if is_fenced e then CoordFenced r else CoordProducer e)"

text \<open>The transactional producer of a role: the answer of each call the transport makes on it.\<close>

record role_producer =
  rp_id :: nat
  rp_init_transactions :: "producer_error + unit"
  rp_transactional_identity :: "(int \<times> int) option"
  rp_begin_transaction :: "producer_error + unit"
  rp_send :: "producer_record \<Rightarrow> producer_error + unit"
  rp_abort :: "producer_error + unit"
  rp_commit :: "producer_error + unit"

datatype producer_call =
    InitCall nat
  | BeginCall nat
  | SendCall nat producer_record
  | AbortCall nat
  | CommitCall nat
  | CloseCall nat

record transport =
  holders :: "role \<rightharpoonup> role_producer \<times> fencing_token"
  calls :: "producer_call list"

definition call :: "producer_call \<Rightarrow> transport \<Rightarrow> transport" where
  "call c t = t\<lparr>calls := calls t @ [c]\<rparr>"

text \<open>\<open>install_holder\<close> closes the producer of the holder that it replaces.\<close>

definition install_holder :: "role \<Rightarrow> role_producer \<Rightarrow> fencing_token \<Rightarrow> transport \<Rightarrow> transport" where
  "install_holder r p token t =
     (let t' = t\<lparr>holders := (holders t)(r \<mapsto> (p, token))\<rparr> in
      case holders t r of
        Some (replaced, _) \<Rightarrow> call (CloseCall (rp_id replaced)) t'
      | None \<Rightarrow> t')"

definition hold_role ::
    "role \<Rightarrow> role_producer \<Rightarrow> transport \<Rightarrow> (coordination_error + fencing_token) \<times> transport" where
  "hold_role r p t =
     (let t1 = call (InitCall (rp_id p)) t in
      case rp_init_transactions p of
        Inl e \<Rightarrow> (Inl (fenced_or r e), t1)
      | Inr _ \<Rightarrow>
          (case rp_transactional_identity p of
             None \<Rightarrow> (Inl (CoordProducer (InvalidTransactionState
               ''init_transactions returned without an identity'')), t1)
           | Some (pid, epoch) \<Rightarrow>
               (case fencing_token_new pid epoch of
                  Inl e \<Rightarrow> (Inl (CoordRecord e), t1)
                | Inr token \<Rightarrow> (Inr token, install_holder r p token t1))))"

text \<open>\<open>registrar\<close> is the plain producer of the transport, or the failure to build it.\<close>

definition register ::
    "coordination_error + int \<Rightarrow> coordination_error + role_producer \<Rightarrow> role \<Rightarrow> member_id \<Rightarrow> int
       \<Rightarrow> transport \<Rightarrow> (coordination_error + unit) \<times> transport" where
  "register located registrar r member now t =
     (case located of
        Inl e \<Rightarrow> (Inl e, t)
      | Inr part \<Rightarrow>
          (case registrar of
             Inl e \<Rightarrow> (Inl e, t)
           | Inr p \<Rightarrow>
               (let rec = registration_record r member part now;
                    t' = call (SendCall (rp_id p) rec) t in
                case rp_send p rec of
                  Inl e \<Rightarrow> (Inl (CoordProducer e), t')
                | Inr _ \<Rightarrow> (Inr (), t'))))"

definition write_lease ::
    "coordination_error + int \<Rightarrow> role \<Rightarrow> fencing_token \<Rightarrow> lease \<Rightarrow> transport
       \<Rightarrow> (coordination_error + unit) \<times> transport" where
  "write_lease located r token l t =
     (case located of
        Inl e \<Rightarrow> (Inl e, t)
      | Inr part \<Rightarrow>
          (case holders t r of
             None \<Rightarrow> (Inl (CoordNotHeld r (lease_member l)), t)
           | Some (p, held) \<Rightarrow>
               (if held \<noteq> token then (Inl (CoordNotHeld r (lease_member l)), t)
                else let t1 = call (BeginCall (rp_id p)) t in
                  case rp_begin_transaction p of
                    Inl e \<Rightarrow> (Inl (fenced_or r e), t1)
                  | Inr _ \<Rightarrow>
                      (let rec = lease_record r l part;
                           t2 = call (SendCall (rp_id p) rec) t1 in
                       case rp_send p rec of
                         Inl e \<Rightarrow> (Inl (fenced_or r e), call (AbortCall (rp_id p)) t2)
                       | Inr _ \<Rightarrow>
                           (let t3 = call (CommitCall (rp_id p)) t2 in
                            case rp_commit p of
                              Inl e \<Rightarrow> (Inl (fenced_or r e), t3)
                            | Inr _ \<Rightarrow> (Inr (), t3))))))"

section \<open>Asking who holds a role\<close>

definition token_from_description :: "int \<Rightarrow> int \<Rightarrow> fencing_token option" where
  "token_from_description pid epoch =
     (case fencing_token_new pid epoch of Inr token \<Rightarrow> Some token | Inl _ \<Rightarrow> None)"

fun reports_unknown_transactional_id :: "admin_error \<Rightarrow> bool" where
  "reports_unknown_transactional_id (AdminBroker _ code _ _) = (code = TRANSACTIONAL_ID_NOT_FOUND)"
| "reports_unknown_transactional_id _ = False"

definition describe ::
    "admin_error + (int \<times> int) \<Rightarrow> coordination_error + fencing_token option" where
  "describe answer =
     (case answer of
        Inr (pid, epoch) \<Rightarrow> Inr (token_from_description pid epoch)
      | Inl e \<Rightarrow> (if reports_unknown_transactional_id e then Inr None else Inl (CoordAdmin e)))"

section \<open>Lemmas\<close>

lemma select_append:
  "select_role_records r (xs @ ys) =
     res_bind (select_role_records r xs) (\<lambda>a. res_bind (select_role_records r ys) (\<lambda>b. Inr (a @ b)))"
proof (induction xs)
  case Nil
  show ?case by (cases "select_role_records r ys") simp_all
next
  case (Cons x xs)
  then show ?case
    by (cases "select_role_records r xs"; cases "select_role_records r ys")
      (auto split: option.splits sum.splits)
qed

lemma select_filter:
  "select_role_records r xs = Inr all \<Longrightarrow>
     select_role_records r (filter (\<lambda>x. P (fr_offset x)) xs) = Inr (filter (\<lambda>x. P (fst x)) all)"
  by (induction xs arbitrary: all) (auto split: option.splits sum.splits if_splits)

definition of_role :: "role \<Rightarrow> fetched_record \<Rightarrow> bool" where
  "of_role r x \<longleftrightarrow> (case fr_key x of None \<Rightarrow> False
     | Some bytes \<Rightarrow> (case decode_key bytes of Inl _ \<Rightarrow> False | Inr key \<Rightarrow> key_role key = r))"

lemma select_offsets:
  "select_role_records r xs = Inr all \<Longrightarrow> map fst all = map fr_offset (filter (of_role r) xs)"
  by (induction xs arbitrary: all)
    (auto simp: of_role_def split: option.splits sum.splits if_splits)

lemma select_sorted:
  "select_role_records r xs = Inr all \<Longrightarrow> sorted (map fr_offset xs) \<Longrightarrow> sorted (map fst all)"
  by (simp add: select_offsets sorted_filter)

lemma filter_range_split:
  assumes "sorted (map f xs)" "a \<le> b" "b \<le> c"
  shows "filter (\<lambda>x. a \<le> f x \<and> f x < b) xs @ filter (\<lambda>x. b \<le> f x \<and> f x < c) xs
    = filter (\<lambda>x. a \<le> f x \<and> f x < (c :: int)) xs"
  using assms
proof (induction xs)
  case (Cons x xs)
  show ?case
  proof (cases "f x < b")
    case True
    with Cons show ?thesis by auto
  next
    case False
    with Cons.prems have "filter (\<lambda>y. a \<le> f y \<and> f y < b) xs = []"
      by (auto simp: filter_empty_conv)
    with False Cons show ?thesis by auto
  qed
qed simp

text \<open>
  A broker that serves the committed log \<open>log\<close>: a fetch below the end gives the records from the
  fetch offset up to the next offset it reports, and that offset is past the fetch offset.
\<close>

definition serves ::
    "fetched_record list \<Rightarrow> int \<Rightarrow> (int \<Rightarrow> coordination_error + fetch_page) \<Rightarrow> bool" where
  "serves log stop fetch \<longleftrightarrow> sorted (map fr_offset log)
     \<and> (\<forall>ofs. ofs < stop \<longrightarrow> (\<exists>page nxt. fetch ofs = Inr page \<and> page_next_offset page = Some nxt \<and> ofs < nxt
          \<and> page_records page = filter (\<lambda>x. ofs \<le> fr_offset x \<and> fr_offset x < nxt) log))"

lemma scan_role_complete:
  assumes "serves log stop fetch" "select_role_records r log = Inr all"
  shows "ofs < stop \<Longrightarrow> \<exists>n\<ge>stop. scan_role fetch r ofs stop acc =
    Inr (acc @ filter (\<lambda>x. ofs \<le> fst x \<and> fst x < n) all)"
proof (induction "nat (stop - ofs)" arbitrary: ofs acc rule: less_induct)
  case less
  obtain page nxt where page: "fetch ofs = Inr page" "page_next_offset page = Some nxt" "ofs < nxt"
      "page_records page = filter (\<lambda>x. ofs \<le> fr_offset x \<and> fr_offset x < nxt) log"
    using assms(1) less.prems by (auto simp: serves_def)
  let ?chunk = "filter (\<lambda>x. ofs \<le> fst x \<and> fst x < nxt) all"
  have chunk: "select_role_records r (page_records page) = Inr ?chunk"
    using select_filter [OF assms(2), of "\<lambda>n. ofs \<le> n \<and> n < nxt"] page(4) by simp
  have sorted: "sorted (map fst all)"
    using assms select_sorted by (auto simp: serves_def)
  show ?case
  proof (cases "nxt < stop")
    case False
    then have "scan_role fetch r ofs stop acc = Inr (acc @ ?chunk)"
      using less.prems page chunk by (subst scan_role.simps) (simp add: next_scan_offset_def)
    with False show ?thesis by (intro exI [of _ nxt]) auto
  next
    case True
    then have step: "scan_role fetch r ofs stop acc = scan_role fetch r nxt stop (acc @ ?chunk)"
      using less.prems page chunk by (subst scan_role.simps) (simp add: next_scan_offset_def)
    obtain n where n: "stop \<le> n" "scan_role fetch r nxt stop (acc @ ?chunk) =
        Inr ((acc @ ?chunk) @ filter (\<lambda>x. nxt \<le> fst x \<and> fst x < n) all)"
      using less.hyps [of nxt "acc @ ?chunk"] True page(3) less.prems by auto
    have "?chunk @ filter (\<lambda>x. nxt \<le> fst x \<and> fst x < n) all
        = filter (\<lambda>x. ofs \<le> fst x \<and> fst x < n) all"
      using sorted page(3) True n(1) by (intro filter_range_split) auto
    with n step show ?thesis by auto
  qed
qed

text \<open>A record as a fetch gives it back after the append.\<close>

definition stored :: "int \<Rightarrow> producer_record \<Rightarrow> fetched_record" where
  "stored ofs rec = \<lparr>fr_offset = ofs, fr_key = pr_key rec, fr_value = pr_value rec\<rparr>"

lemma select_stored:
  assumes "wf_key key" "wf_value (key_kind key) v"
  shows "select_role_records r [stored ofs (coordination_record_of key v part)] =
    Inr (if key_role key = r then [(ofs, key, v)] else [])"
proof -
  have "decode_key (encode_key key) = Inr key" using assms(1) by (rule key_codec.round_trip)
  moreover have "decode_value (key_kind key) (encode_value v) = Inr v"
    using assms(2) decode_value_iff [of "key_kind key" "encode_value v" v] by simp
  ultimately show ?thesis by (simp add: stored_def coordination_record_of_def)
qed

text \<open>A scan, and so a read of a role, returns records of that role only.\<close>

lemma select_roles:
  "select_role_records r xs = Inr all \<Longrightarrow> x \<in> set all \<Longrightarrow> key_role (fst (snd x)) = r"
  by (induction xs arbitrary: all) (auto split: option.splits sum.splits if_splits)

lemma scan_roles:
  "scan_role fetch r ofs stop acc = Inr all \<Longrightarrow> \<forall>x\<in>set acc. key_role (fst (snd x)) = r
     \<Longrightarrow> \<forall>x\<in>set all. key_role (fst (snd x)) = r"
proof (induction fetch r ofs stop acc rule: scan_role.induct)
  case (1 fetch r ofs stop acc)
  show ?case
  proof (cases "ofs < stop")
    case True
    then obtain page selected where p: "fetch ofs = Inr page"
      "select_role_records r (page_records page) = Inr selected"
      "(case next_scan_offset ofs stop (page_next_offset page) of
          Some nxt \<Rightarrow> scan_role fetch r nxt stop (acc @ selected)
        | None \<Rightarrow> Inr (acc @ selected)) = Inr all"
      using 1(2) by (subst (asm) scan_role.simps) auto
    have sel: "\<forall>x\<in>set (acc @ selected). key_role (fst (snd x)) = r"
      using 1(3) select_roles [OF p(2)] by auto
    show ?thesis
    proof (cases "next_scan_offset ofs stop (page_next_offset page)")
      case None
      then show ?thesis using p(3) sel by auto
    next
      case (Some nxt)
      then show ?thesis using 1(1) [OF True Some _ sel] p(3) by simp
    qed
  next
    case False
    then show ?thesis using 1(2,3) by (subst (asm) scan_role.simps) simp
  qed
qed

lemma read_roles:
  "fst (read_role_records cl kept r) = Some (Inr all) \<Longrightarrow> \<forall>x\<in>set all. key_role (fst (snd x)) = r"
  unfolding read_role_records_def
  by (auto split: prod.splits sum.splits option.splits dest!: scan_roles)

text \<open>
  A cluster that works: the topic is there or can be created, its metadata names \<open>n\<close> partitions with
  reachable leaders, and the leader of a partition reports the bounds of its log and serves it.
\<close>

definition cluster_serves ::
    "cluster \<Rightarrow> int \<Rightarrow> nat \<Rightarrow> (int \<Rightarrow> int) \<Rightarrow> (int \<Rightarrow> int) \<Rightarrow> (int \<Rightarrow> fetched_record list) \<Rightarrow> bool" where
  "cluster_serves cl n tid start stop logs \<longleftrightarrow> 0 < n \<and> i32_range n
     \<and> (\<exists>outcomes. cl_create_topics cl = Inr outcomes
          \<and> (\<forall>e. Some e \<in> set outcomes \<longrightarrow> ke_code e = TOPIC_ALREADY_EXISTS))
     \<and> (\<exists>t. cl_metadata cl = Inr [t] \<and> cl_leader_metadata cl = Inr [t]
          \<and> mt_name t = Some COORDINATION_STATE_TOPIC \<and> mt_error_code t = 0 \<and> mt_topic_id t = tid
          \<and> map mp_index (mt_partitions t) = map int [0..<nat n]
          \<and> (\<forall>e\<in>set (mt_partitions t). mp_error_code e = 0 \<and> 0 \<le> mp_leader_id e
               \<and> cl_connect cl (mp_leader_id e) = Inr ()
               \<and> cl_list_offsets cl (mp_leader_id e) (mp_index e) (- 2) =
                   Inr [\<lparr>lot_name = COORDINATION_STATE_TOPIC, lot_partitions =
                     [\<lparr>lop_index = mp_index e, lop_error_code = 0, lop_offset = start (mp_index e)\<rparr>]\<rparr>]
               \<and> cl_list_offsets cl (mp_leader_id e) (mp_index e) (- 1) =
                   Inr [\<lparr>lot_name = COORDINATION_STATE_TOPIC, lot_partitions =
                     [\<lparr>lop_index = mp_index e, lop_error_code = 0, lop_offset = stop (mp_index e)\<rparr>]\<rparr>]
               \<and> serves (logs (mp_index e)) (stop (mp_index e))
                   (cl_fetch cl (mp_leader_id e) tid (mp_index e))))"

lemma accept_existing:
  "(\<forall>e. Some e \<in> set outcomes \<longrightarrow> ke_code e = TOPIC_ALREADY_EXISTS) \<Longrightarrow>
     accept_topic_creation outcomes = Inr ()"
  by (induction outcomes) (auto split: option.splits)

lemma cluster_layout:
  assumes "cluster_serves cl n tid start stop logs"
    and "kept \<in> {None, Some \<lparr>layout_partitions = n, layout_topic_id = tid\<rparr>}"
  shows "kept_layout cl kept = (Inr \<lparr>layout_partitions = n, layout_topic_id = tid\<rparr>,
    Some \<lparr>layout_partitions = n, layout_topic_id = tid\<rparr>)"
proof -
  obtain outcomes t where c: "cl_create_topics cl = Inr outcomes" "accept_topic_creation outcomes = Inr ()"
    and t: "cl_metadata cl = Inr [t]" "mt_name t = Some COORDINATION_STATE_TOPIC" "mt_error_code t = 0"
      "mt_topic_id t = tid" "map mp_index (mt_partitions t) = map int [0..<nat n]"
    using assms(1) accept_existing unfolding cluster_serves_def by blast
  have "int (length (mt_partitions t)) = n" "0 < n" "i32_range n"
    using arg_cong [OF t(5), of length] assms(1) by (simp_all add: cluster_serves_def)
  then have "resolve_topic cl = Inr \<lparr>layout_partitions = n, layout_topic_id = tid\<rparr>"
    using c t by (simp add: resolve_topic_def topic_layout_def coordination_topic_def Let_def)
  then show ?thesis using assms(2) by (auto simp: kept_layout_def)
qed

lemma cluster_read:
  assumes cl: "cluster_serves cl n tid start stop logs"
    and kept: "kept \<in> {None, Some \<lparr>layout_partitions = n, layout_topic_id = tid\<rparr>}"
    and part: "role_partition r n = Some (Inr part)"
  shows "\<exists>fetch. serves (logs part) (stop part) fetch
    \<and> fst (read_role_records cl kept r) = Some (scan_role fetch r (start part) (stop part) [])"
proof -
  obtain t where t: "cl_leader_metadata cl = Inr [t]" "mt_name t = Some COORDINATION_STATE_TOPIC"
      "map mp_index (mt_partitions t) = map int [0..<nat n]"
    using cl unfolding cluster_serves_def by blast
  have "0 \<le> part" "part < n"
    using part partition_for_key_range by (auto simp: role_partition_def split: if_splits)
  then have "part \<in> set (map mp_index (mt_partitions t))" unfolding t(3) by (auto simp: image_iff intro!: bexI [of _ "nat part"])
  then obtain e where e: "List.find (\<lambda>e. mp_index e = part) (mt_partitions t) = Some e"
    by (cases "List.find (\<lambda>e. mp_index e = part) (mt_partitions t)") (auto simp: find_None_iff)
  then have mem: "e \<in> set (mt_partitions t)" "mp_index e = part" by (auto simp: find_Some_iff)
  let ?l = "mp_leader_id e"
  have a: "mp_error_code e = 0" "0 \<le> ?l" "cl_connect cl ?l = Inr ()"
    "cl_list_offsets cl ?l part (- 2) = Inr [\<lparr>lot_name = COORDINATION_STATE_TOPIC, lot_partitions =
       [\<lparr>lop_index = part, lop_error_code = 0, lop_offset = start part\<rparr>]\<rparr>]"
    "cl_list_offsets cl ?l part (- 1) = Inr [\<lparr>lot_name = COORDINATION_STATE_TOPIC, lot_partitions =
       [\<lparr>lop_index = part, lop_error_code = 0, lop_offset = stop part\<rparr>]\<rparr>]"
    "serves (logs part) (stop part) (cl_fetch cl ?l tid part)"
    using cl t(1) mem unfolding cluster_serves_def by auto
  have "leader_connection cl part = Inr ?l"
    using t e a by (simp add: leader_connection_def partition_leader_def coordination_topic_def)
  moreover have "list_offset cl ?l part (- 2) = Inr (start part)" "list_offset cl ?l part (- 1) = Inr (stop part)"
    using a by (simp_all add: list_offset_def list_offsets_offset_def)
  ultimately have "fst (read_role_records cl kept r)
      = Some (scan_role (cl_fetch cl ?l tid part) r (start part) (stop part) [])"
    using cluster_layout [OF cl kept] part
    by (simp add: read_role_records_def LIST_OFFSETS_EARLIEST_def LIST_OFFSETS_LATEST_def)
  with a(6) show ?thesis by blast
qed

text \<open>
  The topics as logs by topic and partition.  A record that names a partition is appended to that
  one; any other record goes to the partition that the producer chooses.
\<close>

type_synonym topic_logs = "string \<times> int \<Rightarrow> fetched_record list"

definition publish ::
    "(producer_record \<Rightarrow> int) \<Rightarrow> int \<Rightarrow> producer_record \<Rightarrow> topic_logs \<Rightarrow> topic_logs" where
  "publish chosen ofs rec logs =
     (let slot = (pr_topic rec, case pr_partition rec of Some p \<Rightarrow> p | None \<Rightarrow> chosen rec)
      in logs(slot := logs slot @ [stored ofs rec]))"

lemma write_lease_sends:
  "calls (snd (write_lease (Inr part) r token l t)) = calls t @ [BeginCall i, SendCall i rec, CommitCall i]
     \<Longrightarrow> rec = lease_record r l part"
  by (auto simp: write_lease_def call_def Let_def split: option.splits sum.splits if_splits)

lemma register_sends:
  "calls (snd (register (Inr part) registrar r m now t)) = calls t @ [SendCall i rec]
     \<Longrightarrow> rec = registration_record r m part now"
  by (auto simp: register_def call_def Let_def split: sum.splits)

lemma sent_record:
  assumes "wf_role r" "wf_lease l" "wf_member m" "i64_range now"
    and "(rec, key, v) \<in> {(lease_record r l part, lease_key r, LeaseRecord l),
      (registration_record r m part now, registration_key r m,
       RegistrationRecord \<lparr>reg_member = m, reg_registered_at = now\<rparr>)}"
  shows "rec = coordination_record_of key v part" "wf_key key" "wf_value (key_kind key) v"
    "key_role key = r"
  using assms
  by (auto simp: lease_record_def registration_record_def lease_key_def registration_key_def
      wf_key_def wf_registration_def)

section \<open>Properties\<close>

text \<open>
  C19. The scan loop of \<open>read_role_records\<close> terminates and is complete: against a broker that serves the committed
  log, however it splits the log into pages, the result is the decoded records of the role from
  the start offset up to some offset at or past the end, in offset order, each exactly once, so no
  record below the last stable offset is missed.
\<close>
theorem scan_reads_every_record:
  assumes "serves log stop fetch" and "select_role_records r log = Inr all" and "start < stop"
  shows "\<exists>n\<ge>stop. scan_role fetch r start stop [] =
    Inr (filter (\<lambda>x. start \<le> fst x \<and> fst x < n) all)"
  using scan_role_complete [OF assms, of "[]"] by simp

definition lease_example :: lease where
  "lease_example = \<lparr>lease_member = MemberId ''a'' 1, lease_token = FencingToken 7 1,
     lease_granted_at = 10, lease_deadline = 40\<rparr>"

definition served_log :: "fetched_record list" where
  "served_log =
    [stored 3 (lease_record (Role ''q'' 1) lease_example 0),
     \<lparr>fr_offset = 4, fr_key = None, fr_value = None\<rparr>,
     stored 6 (lease_record (Role ''r'' 1) lease_example 0)]"

definition serve_by_one :: "int \<Rightarrow> coordination_error + fetch_page" where
  "serve_by_one ofs =
     Inr \<lparr>page_records = filter (\<lambda>x. ofs \<le> fr_offset x \<and> fr_offset x < ofs + 1) served_log,
          page_next_offset = Some (ofs + 1)\<rparr>"

lemma lease_example_wf:
  "wf_key (lease_key (Role ''r'' 1))" "wf_key (lease_key (Role ''q'' 1))"
  "wf_lease lease_example"
  by (simp_all add: lease_key_def wf_key_def wf_role_def wf_member_def wf_lease_def wf_token_def
      lease_example_def MAX_ROLE_LEN_def MAX_MEMBER_ID_LEN_def utf8_str_def as_bytes_def
      byte_of_char_def range_simps)

lemma lease_key_fields [simp]:
  "key_kind (lease_key r) = LeaseKind" "key_role (lease_key r) = r"
  by (simp_all add: lease_key_def)

lemma select_served_log:
  "select_role_records (Role ''r'' 1) served_log =
     Inr [(6, lease_key (Role ''r'' 1), LeaseRecord lease_example)]"
proof -
  have split: "served_log = [stored 3 (lease_record (Role ''q'' 1) lease_example 0)]
      @ [\<lparr>fr_offset = 4, fr_key = None, fr_value = None\<rparr>]
      @ [stored 6 (lease_record (Role ''r'' 1) lease_example 0)]"
    by (simp add: served_log_def)
  have "select_role_records (Role ''r'' 1) [\<lparr>fr_offset = 4, fr_key = None, fr_value = None\<rparr>] = Inr []"
    by simp
  then show ?thesis
    unfolding split select_append lease_record_def
    by (simp add: lease_example_wf select_stored del: select_role_records.simps)
qed

theorem scan_reads_every_record_witness:
  "\<exists>n\<ge>7. scan_role serve_by_one (Role ''r'' 1) 2 7 [] =
     Inr (filter (\<lambda>x. 2 \<le> fst x \<and> fst x < n)
       [(6, lease_key (Role ''r'' 1), LeaseRecord lease_example)])"
proof -
  have "serves served_log 7 serve_by_one"
    by (auto simp: serves_def serve_by_one_def served_log_def stored_def)
  from scan_reads_every_record [OF this select_served_log, of 2] show ?thesis by simp
qed

text \<open>
  C20. What one member writes, another member reads.  A member finds the partition of the role on a
  working cluster and writes the lease in a transaction that commits, or registers; the record is
  appended to the topic at some offset.  A member that then reads the role from a cluster serving
  those logs, whether or not it already knows the layout, gets what the read gave before from the
  offsets that the partition holds, and after it the written key and value at that offset.  A read
  of any role returns keys of that role only, so no other role sees the record.
\<close>
theorem written_records_read_back:
  assumes "wf_role r" "wf_lease l" "wf_member m" "i64_range now"
    and "cluster_serves writer n tid wstart wstop (\<lambda>p. logs (COORDINATION_STATE_TOPIC, p))"
    and "fst (partition_of writer None r) = Some (Inr part)"
    and "calls (snd (write_lease (Inr part) r token l t))
           = calls t @ [BeginCall i, SendCall i rec, CommitCall i]
         \<and> key = lease_key r \<and> v = LeaseRecord l
       \<or> calls (snd (register (Inr part) registrar r m now t)) = calls t @ [SendCall i rec]
         \<and> key = registration_key r m
         \<and> v = RegistrationRecord \<lparr>reg_member = m, reg_registered_at = now\<rparr>"
    and "cluster_serves reader n tid start stop
           (\<lambda>p. publish chosen ofs rec logs (COORDINATION_STATE_TOPIC, p))"
    and "kept \<in> {None, Some \<lparr>layout_partitions = n, layout_topic_id = tid\<rparr>}"
    and "select_role_records r (logs (COORDINATION_STATE_TOPIC, part)) = Inr old"
    and "start part \<le> ofs" "ofs < stop part"
  shows "(\<exists>e\<ge>stop part. fst (read_role_records reader kept r) =
      Some (Inr (filter (\<lambda>x. start part \<le> fst x \<and> fst x < e) old @ [(ofs, key, v)])))
    \<and> (\<forall>r' all. fst (read_role_records reader kept r') = Some (Inr all) \<longrightarrow>
         (\<forall>x\<in>set all. key_role (fst (snd x)) = r'))"
proof -
  have part: "role_partition r n = Some (Inr part)"
    using assms(6) cluster_layout [OF assms(5), of None] by (simp add: partition_of_def)
  have "(rec, key, v) \<in> {(lease_record r l part, lease_key r, LeaseRecord l),
      (registration_record r m part now, registration_key r m,
       RegistrationRecord \<lparr>reg_member = m, reg_registered_at = now\<rparr>)}"
    using assms(7) write_lease_sends register_sends by blast
  note sent = sent_record [OF assms(1-4) this]
  let ?log = "publish chosen ofs rec logs (COORDINATION_STATE_TOPIC, part)"
  have "?log = logs (COORDINATION_STATE_TOPIC, part) @ [stored ofs rec]"
    by (simp add: publish_def Let_def sent(1) coordination_record_of_def)
  then have sel: "select_role_records r ?log = Inr (old @ [(ofs, key, v)])"
    by (simp add: select_append assms(10) select_stored [OF sent(2,3)] sent(1,4)
        del: select_role_records.simps)
  obtain fetch where f: "serves ?log (stop part) fetch"
    "fst (read_role_records reader kept r) = Some (scan_role fetch r (start part) (stop part) [])"
    using cluster_read [OF assms(8,9) part] by blast
  obtain e where e: "stop part \<le> e" "scan_role fetch r (start part) (stop part) [] =
      Inr (filter (\<lambda>x. start part \<le> fst x \<and> fst x < e) (old @ [(ofs, key, v)]))"
    using scan_role_complete [OF f(1) sel, of "start part" "[]"] assms(11,12) by auto
  have "fst (read_role_records reader kept r) =
      Some (Inr (filter (\<lambda>x. start part \<le> fst x \<and> fst x < e) old @ [(ofs, key, v)]))"
    using f(2) e assms(11,12) by simp
  then show ?thesis using e(1) read_roles by blast
qed

definition served_cluster :: "topic_logs \<Rightarrow> cluster" where
  "served_cluster logs =
     \<lparr>cl_create_topics = Inr [None],
      cl_metadata = Inr [\<lparr>mt_name = Some COORDINATION_STATE_TOPIC, mt_error_code = 0, mt_topic_id = 7,
        mt_partitions = map (\<lambda>p. \<lparr>mp_index = int p, mp_error_code = 0, mp_leader_id = 3\<rparr>) [0..<11]\<rparr>],
      cl_leader_metadata = Inr [\<lparr>mt_name = Some COORDINATION_STATE_TOPIC, mt_error_code = 0,
        mt_topic_id = 7,
        mt_partitions = map (\<lambda>p. \<lparr>mp_index = int p, mp_error_code = 0, mp_leader_id = 3\<rparr>) [0..<11]\<rparr>],
      cl_connect = (\<lambda>_. Inr ()),
      cl_list_offsets = (\<lambda>_ part timestamp. Inr [\<lparr>lot_name = COORDINATION_STATE_TOPIC, lot_partitions =
        [\<lparr>lop_index = part, lop_error_code = 0, lop_offset = if timestamp = - 2 then 0 else 10\<rparr>]\<rparr>]),
      cl_fetch = (\<lambda>_ _ part ofs. Inr \<lparr>page_records = filter (\<lambda>x. ofs \<le> fr_offset x \<and> fr_offset x < ofs + 1)
          (logs (COORDINATION_STATE_TOPIC, part)), page_next_offset = Some (ofs + 1)\<rparr>)\<rparr>"

lemma served_cluster_serves:
  assumes "\<And>p. sorted (map fr_offset (logs (COORDINATION_STATE_TOPIC, p)))"
  shows "cluster_serves (served_cluster logs) 11 7 (\<lambda>_. 0) (\<lambda>_. 10)
    (\<lambda>p. logs (COORDINATION_STATE_TOPIC, p))"
  unfolding cluster_serves_def served_cluster_def using assms
  by (auto simp: serves_def comp_def range_simps)

definition holder_example :: role_producer where
  "holder_example = \<lparr>rp_id = 1, rp_init_transactions = Inr (), rp_transactional_identity = Some (7, 1),
     rp_begin_transaction = Inr (), rp_send = (\<lambda>_. Inr ()), rp_abort = Inr (), rp_commit = Inr ()\<rparr>"

definition transport_example :: transport where
  "transport_example =
     \<lparr>holders = [Role ''kafka'' 5 \<mapsto> (holder_example, FencingToken 7 1)], calls = []\<rparr>"

theorem written_records_read_back_witness:
  "\<exists>e\<ge>10. fst (read_role_records (served_cluster (publish (\<lambda>_. 0) 9
        (lease_record (Role ''kafka'' 5) lease_example 2) (\<lambda>_. []))) None (Role ''kafka'' 5)) =
     Some (Inr (filter (\<lambda>x. 0 \<le> fst x \<and> fst x < e) []
       @ [(9, lease_key (Role ''kafka'' 5), LeaseRecord lease_example)]))"
proof -
  let ?r = "Role ''kafka'' 5"
  let ?rec = "lease_record ?r lease_example 2"
  let ?pub = "publish (\<lambda>_. 0) 9 ?rec (\<lambda>_. [])"
  have wf: "wf_role ?r" "wf_lease lease_example" "wf_member (MemberId ''a'' 1)" "i64_range 5"
    by (simp_all add: wf_role_def wf_member_def wf_lease_def wf_token_def lease_example_def
        MAX_ROLE_LEN_def MAX_MEMBER_ID_LEN_def utf8_str_def as_bytes_def byte_of_char_def
        range_simps)
  have writer: "cluster_serves (served_cluster (\<lambda>_. [])) 11 7 (\<lambda>_. 0) (\<lambda>_. 10) (\<lambda>p. [])"
    using served_cluster_serves [of "\<lambda>_. []"] by simp
  have reader: "cluster_serves (served_cluster ?pub) 11 7 (\<lambda>_. 0) (\<lambda>_. 10)
      (\<lambda>p. ?pub (COORDINATION_STATE_TOPIC, p))"
    by (rule served_cluster_serves) (simp add: publish_def Let_def)
  have "role_partition ?r 11 = Some (Inr 2)"
    by (simp add: role_partition_def partition_for_key_def murmur2_kafka)
  then have part: "fst (partition_of (served_cluster (\<lambda>_. [])) None ?r) = Some (Inr 2)"
    using cluster_layout [OF writer, of None] by (simp add: partition_of_def)
  have sent: "calls (snd (write_lease (Inr 2) ?r (FencingToken 7 1) lease_example transport_example))
      = calls transport_example @ [BeginCall 1, SendCall 1 ?rec, CommitCall 1]"
    by (simp add: write_lease_def transport_example_def holder_example_def call_def Let_def)
  from written_records_read_back [OF wf writer part, of "FencingToken 7 1" transport_example 1 ?rec
      "lease_key ?r" "LeaseRecord lease_example" "Inr holder_example" "served_cluster ?pub"
      "\<lambda>_. 0" "\<lambda>_. 10" "\<lambda>_. 0" 9 None "[]"] sent reader
  show ?thesis by simp
qed

text \<open>
  C21. A lease is only written under the epoch that this process holds.  The write succeeds
  exactly when the role is held with that token and the begin, the send of the role's lease record
  and the commit all succeed, and those are then the calls it made, in that order; a failed send
  always aborts and never commits; a token that is not the held one makes no call at all; and a
  fence at any of the three calls is reported as the loss of the role.
\<close>
theorem write_lease_guarded:
  "(fst (write_lease (Inr part) r token l t) = Inr () \<longleftrightarrow>
      (\<exists>p. holders t r = Some (p, token) \<and> rp_begin_transaction p = Inr ()
        \<and> rp_send p (lease_record r l part) = Inr () \<and> rp_commit p = Inr ()))
   \<and> (case holders t r of
        Some (p, held) \<Rightarrow>
          (if held = token then
             calls (snd (write_lease (Inr part) r token l t)) = calls t @ BeginCall (rp_id p) #
               (case rp_begin_transaction p of
                  Inl _ \<Rightarrow> []
                | Inr _ \<Rightarrow> SendCall (rp_id p) (lease_record r l part) #
                    (case rp_send p (lease_record r l part) of
                       Inl _ \<Rightarrow> [AbortCall (rp_id p)]
                     | Inr _ \<Rightarrow> [CommitCall (rp_id p)]))
             \<and> (fst (write_lease (Inr part) r token l t) = Inl (CoordFenced r) \<longleftrightarrow>
                  (\<exists>e. is_fenced e \<and> (rp_begin_transaction p = Inl e
                    \<or> rp_begin_transaction p = Inr () \<and> rp_send p (lease_record r l part) = Inl e
                    \<or> rp_begin_transaction p = Inr () \<and> rp_send p (lease_record r l part) = Inr ()
                        \<and> rp_commit p = Inl e)))
           else write_lease (Inr part) r token l t = (Inl (CoordNotHeld r (lease_member l)), t))
      | None \<Rightarrow> write_lease (Inr part) r token l t = (Inl (CoordNotHeld r (lease_member l)), t))
   \<and> holders (snd (write_lease (Inr part) r token l t)) = holders t"
  by (auto simp: write_lease_def call_def fenced_or_def Let_def split: option.splits sum.splits)

end
