(* ===== verification/Accumulator.thy ===== *)
theory Accumulator
  imports Errors
begin

text \<open>
  The record queue of one partition, \<open>client-producer/src/accumulator.rs\<close>, the size estimates of
  a record, the retry class of an error code (\<open>error_class.rs\<close>), the producer's buffer memory
  (\<open>buffer_pool.rs\<close>), and the length-prefix varint of \<open>client-core/src/framing.rs\<close> that the size
  estimate counts.

  An instant is a count of nanoseconds since an arbitrary origin and a \<open>Duration\<close> a count of
  nanoseconds.  The \<open>oneshot\<close> channel of a record is the number of its delivery handle; sending on
  it is modelled by the sender's list of resolved handles.  The clock read of a new batch is the
  argument \<open>now\<close>.
\<close>

section \<open>Retry classes\<close>

datatype error_class = NoError | InvalidMetadata | Retriable | NotRetriable

definition error_class_of :: "int \<Rightarrow> error_class" where
  "error_class_of code =
     (if code = 0 then NoError
      else if code \<in> {3, 5, 6, 9, 13, 56, 72, 74, 80, 83, 84, 100, 103} then InvalidMetadata
      else if code \<in> {2, 7, 14, 15, 16, 19, 20, 41, 51, 70, 71, 75, 78, 88, 89, 106, 122, 123, 133}
      then Retriable
      else NotRetriable)"

fun is_retriable :: "error_class \<Rightarrow> bool" where
  "is_retriable InvalidMetadata = True"
| "is_retriable Retriable = True"
| "is_retriable _ = False"

section \<open>Records and batches\<close>

type_synonym bytes = "u8 list"
type_synonym header = "string \<times> bytes option"

record pending_record =
  offset_delta :: int
  rec_timestamp_ms :: int
  rec_key :: "bytes option"
  rec_value :: "bytes option"
  rec_headers :: "header list"
  rec_ack :: nat

record in_progress_batch =
  transaction_generation :: "nat option"
  first_append_at :: nat
  size_bytes :: nat
  batch_records :: "pending_record list"
  batch_memory :: "nat option"

record accumulator =
  acc_current :: "in_progress_batch option"
  acc_ready :: "in_progress_batch list"
  batch_size :: nat

definition opt_len :: "bytes option \<Rightarrow> nat" where
  "opt_len b = (case b of None \<Rightarrow> 0 | Some bs \<Rightarrow> length bs)"

definition approx_record_size :: "bytes option \<Rightarrow> bytes option \<Rightarrow> header list \<Rightarrow> nat" where
  "approx_record_size key v headers =
     8 + (opt_len key + 4) + (opt_len v + 4)
     + (\<Sum>h\<leftarrow>headers. length (fst h) + opt_len (snd h) + 8)"

definition pending_size :: "pending_record \<Rightarrow> nat" where
  "pending_size r = approx_record_size (rec_key r) (rec_value r) (rec_headers r)"

definition batch_new :: "nat option \<Rightarrow> nat \<Rightarrow> in_progress_batch" where
  "batch_new generation now = \<lparr>transaction_generation = generation, first_append_at = now,
     size_bytes = 0, batch_records = [], batch_memory = None\<rparr>"

definition accumulator_new :: "nat \<Rightarrow> accumulator" where
  "accumulator_new n = \<lparr>acc_current = None, acc_ready = [], batch_size = n\<rparr>"

section \<open>Operations\<close>

definition renumber :: "pending_record list \<Rightarrow> pending_record list" where
  "renumber rs = map (\<lambda>(i, r). r\<lparr>offset_delta := i32_of_usize i\<rparr>) (List.enumerate 0 rs)"

definition push_front ::
    "pending_record list \<Rightarrow> nat option \<Rightarrow> nat \<Rightarrow> accumulator \<Rightarrow> accumulator" where
  "push_front rs generation created_at acc =
     acc\<lparr>acc_ready :=
       (batch_new generation created_at)
         \<lparr>size_bytes := sum_list (map pending_size rs), batch_records := renumber rs\<rparr>
       # acc_ready acc\<rparr>"

definition needs_new_batch :: "accumulator \<Rightarrow> nat \<Rightarrow> nat option \<Rightarrow> bool" where
  "needs_new_batch acc record_size generation =
     (case acc_current acc of
        None \<Rightarrow> True
      | Some b \<Rightarrow> transaction_generation b \<noteq> generation
          \<or> (size_bytes b + record_size > batch_size acc \<and> batch_records b \<noteq> []))"

text \<open>The batch that takes the record, and the ready queue beside it.\<close>

definition open_batch ::
    "accumulator \<Rightarrow> nat \<Rightarrow> nat option \<Rightarrow> nat option \<Rightarrow> nat
       \<Rightarrow> in_progress_batch \<times> in_progress_batch list" where
  "open_batch acc record_size generation memory now =
     (case acc_current acc of
        Some b \<Rightarrow>
          (if \<not> needs_new_batch acc record_size generation then (b, acc_ready acc)
           else ((batch_new generation now)\<lparr>batch_memory := memory\<rparr>, acc_ready acc @ [b]))
      | None \<Rightarrow> ((batch_new generation now)\<lparr>batch_memory := memory\<rparr>, acc_ready acc))"

definition append_record ::
    "bytes option \<Rightarrow> bytes option \<Rightarrow> header list \<Rightarrow> int \<Rightarrow> nat option \<Rightarrow> nat option \<Rightarrow> nat \<Rightarrow> nat
       \<Rightarrow> accumulator \<Rightarrow> bool \<times> accumulator" where
  "append_record key v headers timestamp_ms generation memory ack now acc =
     (let record_size = approx_record_size key v headers;
          wakes_sender = needs_new_batch acc record_size generation;
          (b, ready) = open_batch acc record_size generation memory now;
          r = \<lparr>offset_delta = i32_of_usize (length (batch_records b)),
               rec_timestamp_ms = timestamp_ms, rec_key = key, rec_value = v,
               rec_headers = headers, rec_ack = ack\<rparr>
      in (wakes_sender,
          acc\<lparr>acc_current := Some (b\<lparr>batch_records := batch_records b @ [r],
                                   size_bytes := size_bytes b + record_size\<rparr>),
              acc_ready := ready\<rparr>))"

definition all_batches_full :: "accumulator \<Rightarrow> bool" where
  "all_batches_full acc =
     (case acc_current acc of None \<Rightarrow> True | Some b \<Rightarrow> size_bytes b \<ge> batch_size acc)"

definition queue_size :: "accumulator \<Rightarrow> nat" where
  "queue_size acc = length (acc_ready acc)
     + (case acc_current acc of Some b \<Rightarrow> if batch_records b \<noteq> [] then 1 else 0 | None \<Rightarrow> 0)"

text \<open>The handles that \<open>abort_undrained_batches\<close> fails, in order, and the emptied queue.\<close>

definition abort_undrained_batches ::
    "accumulator \<Rightarrow> (nat \<times> producer_error) list \<times> accumulator" where
  "abort_undrained_batches acc =
     (map (\<lambda>r. (rec_ack r, TransactionAborted))
        (concat (map batch_records
           ((case acc_current acc of Some b \<Rightarrow> [b] | None \<Rightarrow> []) @ acc_ready acc))),
      acc\<lparr>acc_current := None, acc_ready := []\<rparr>)"

definition seal_current :: "accumulator \<Rightarrow> accumulator" where
  "seal_current acc =
     (case acc_current acc of
        Some b \<Rightarrow>
          (if batch_records b \<noteq> []
           then acc\<lparr>acc_current := None, acc_ready := acc_ready acc @ [b]\<rparr>
           else acc\<lparr>acc_current := None\<rparr>)
      | None \<Rightarrow> acc)"

section \<open>Size estimates\<close>

definition RECORD_BATCH_OVERHEAD :: nat where "RECORD_BATCH_OVERHEAD = 61"
definition MAX_RECORD_OVERHEAD :: nat where "MAX_RECORD_OVERHEAD = 21"

text \<open>\<open>u64::BITS - leading_zeros\<close>: the position of the highest one bit.\<close>

fun bit_length :: "nat \<Rightarrow> nat" where
  "bit_length n = (if n = 0 then 0 else 1 + bit_length (n div 2))"

declare bit_length.simps [simp del]

text \<open>The shift of \<open>varint_size\<close> drops the bits past 64; an odd number is its own \<open>| 1\<close>.\<close>

definition varint_size :: "nat \<Rightarrow> nat" where
  "varint_size v =
     (let zigzag = (2 * v) mod 2 ^ 64;
          bits = bit_length (zigzag + 1)
      in (bits + 6) div 7)"

definition nullable_bytes_size :: "nat option \<Rightarrow> nat" where
  "nullable_bytes_size len = (case len of None \<Rightarrow> 1 | Some n \<Rightarrow> varint_size n + n)"

definition record_size_upper_bound :: "bytes option \<Rightarrow> bytes option \<Rightarrow> header list \<Rightarrow> nat" where
  "record_size_upper_bound key v headers =
     RECORD_BATCH_OVERHEAD + MAX_RECORD_OVERHEAD
     + nullable_bytes_size (map_option length key)
     + nullable_bytes_size (map_option length v)
     + varint_size (length headers)
     + (\<Sum>h\<leftarrow>headers. varint_size (length (fst h)) + length (fst h)
          + nullable_bytes_size (map_option length (snd h)))"

text \<open>\<open>framing.rs\<close>: the unsigned varint of a \<open>u32\<close>.\<close>

fun put_uvarint :: "nat \<Rightarrow> u8 list" where
  "put_uvarint n =
     (if n < 128 then [word_of_nat n]
      else word_of_nat (n mod 128 + 128) # put_uvarint (n div 128))"

declare put_uvarint.simps [simp del]

section \<open>Buffer memory\<close>

record buffer_pool =
  pool_total :: nat
  pool_poolable :: nat
  pool_free :: nat

definition buffer_pool_new :: "nat \<Rightarrow> nat \<Rightarrow> nat \<Rightarrow> string + buffer_pool" where
  "buffer_pool_new max_permits tot poolable =
     (if tot > max_permits then Inl ''producer buffer memory is above the limit''
      else Inr \<lparr>pool_total = tot, pool_poolable = poolable, pool_free = tot\<rparr>)"

text \<open>
  \<open>granted\<close> is the answer of the semaphore: the permits came before the timeout.  It can only
  grant what is free.
\<close>

definition allocate ::
    "nat \<Rightarrow> nat \<Rightarrow> bool \<Rightarrow> buffer_pool \<Rightarrow> producer_error + buffer_pool" where
  "allocate n max_block granted p =
     (if n > u32_max \<or> n > pool_total p
      then Inl (ProducerInvalidConfig ''hard limit on memory allocations'')
      else if granted \<and> n \<le> pool_free p then Inr (p\<lparr>pool_free := pool_free p - n\<rparr>)
      else Inl (BufferExhausted n max_block (pool_total p) (pool_free p) (pool_poolable p)))"

text \<open>Dropping a reservation.\<close>

definition release_memory :: "nat \<Rightarrow> buffer_pool \<Rightarrow> buffer_pool" where
  "release_memory n p = p\<lparr>pool_free := pool_free p + n\<rparr>"

section \<open>The queue invariant\<close>

definition batch_ok :: "nat \<Rightarrow> in_progress_batch \<Rightarrow> bool" where
  "batch_ok cap b \<longleftrightarrow> batch_records b \<noteq> []
     \<and> size_bytes b = sum_list (map pending_size (batch_records b))
     \<and> map offset_delta (batch_records b) = map i32_of_usize [0..<length (batch_records b)]
     \<and> (size_bytes b \<le> cap \<or> length (batch_records b) = 1)"

definition acc_batches :: "accumulator \<Rightarrow> in_progress_batch list" where
  "acc_batches acc = acc_ready acc @ (case acc_current acc of Some b \<Rightarrow> [b] | None \<Rightarrow> [])"

definition acc_wf :: "accumulator \<Rightarrow> bool" where
  "acc_wf acc \<longleftrightarrow> list_all (batch_ok (batch_size acc)) (acc_batches acc)"

text \<open>The delivery handles that wait in the queue, oldest first.\<close>

definition queued :: "accumulator \<Rightarrow> nat list" where
  "queued acc = concat (map (\<lambda>b. map rec_ack (batch_records b)) (acc_batches acc))"

lemma renumber_simps [simp]:
  "map rec_ack (renumber rs) = map rec_ack rs"
  "map pending_size (renumber rs) = map pending_size rs"
  "length (renumber rs) = length rs"
  by (auto simp: renumber_def pending_size_def comp_def case_prod_beta
      simp flip: map_map intro: nth_equalityI simp: nth_enumerate_eq)

lemma renumber_eq_Nil [simp]: "renumber rs = [] \<longleftrightarrow> rs = []"
  by (cases rs) (simp_all add: renumber_def)

lemma renumber_offsets: "map offset_delta (renumber rs) = map i32_of_usize [0..<length rs]"
  by (rule nth_equalityI) (simp_all add: renumber_def nth_enumerate_eq)

lemma append_record_wf:
  assumes "acc_wf acc"
  shows "acc_wf (snd (append_record key v headers ts generation memory ack now acc))"
    and "queued (snd (append_record key v headers ts generation memory ack now acc)) = queued acc @ [ack]"
  using assms
  by (auto simp: append_record_def open_batch_def needs_new_batch_def acc_wf_def acc_batches_def
      batch_ok_def batch_new_def pending_size_def queued_def Let_def split: option.splits)

lemma seal_current_wf:
  assumes "acc_wf acc"
  shows "acc_wf (seal_current acc)" "queued (seal_current acc) = queued acc"
  using assms by (auto simp: seal_current_def acc_wf_def acc_batches_def queued_def batch_ok_def
      split: option.splits)

lemma push_front_wf:
  assumes "acc_wf acc" "rs \<noteq> []"
    and "sum_list (map pending_size rs) \<le> batch_size acc \<or> length rs = 1"
  shows "acc_wf (push_front rs generation created_at acc)"
    and "queued (push_front rs generation created_at acc) = map rec_ack rs @ queued acc"
  using assms by (auto simp: push_front_def acc_wf_def acc_batches_def queued_def batch_ok_def
      batch_new_def renumber_offsets)

lemma queued_Nil: "acc_wf acc \<Longrightarrow> queued acc = [] \<longleftrightarrow> queue_size acc = 0"
  by (auto simp: queued_def queue_size_def acc_wf_def acc_batches_def batch_ok_def list_all_iff
      split: option.splits)

lemma abort_undrained_handles:
  "mset (map fst (fst (abort_undrained_batches acc))) = mset (queued acc)"
  by (auto simp: abort_undrained_batches_def queued_def acc_batches_def map_concat comp_def
      split: option.splits)

section \<open>Varint sizes\<close>

lemma bit_length_0 [simp]: "bit_length 0 = 0"
  by (simp add: bit_length.simps)

lemma bit_length_shift: "2 ^ k \<le> n \<Longrightarrow> bit_length n = k + bit_length (n div 2 ^ k)"
proof (induction k arbitrary: n)
  case (Suc k)
  have "n \<noteq> 0" using Suc.prems by (metis le_zero_eq power_not_zero zero_neq_numeral)
  then have "bit_length n = 1 + bit_length (n div 2)" by (simp add: bit_length.simps [of n])
  also have "\<dots> = 1 + (k + bit_length (n div 2 div 2 ^ k))"
    using Suc.IH [of "n div 2"] Suc.prems by simp
  finally show ?case by (simp add: div_mult2_eq)
qed simp

lemma bit_length_bound: "n < 2 ^ k \<Longrightarrow> bit_length n \<le> k"
proof (induction k arbitrary: n)
  case (Suc k)
  then show ?case using Suc.IH [of "n div 2"] by (auto simp: bit_length.simps [of n])
qed simp

lemma bit_length_pos: "0 < n \<Longrightarrow> 0 < bit_length n"
  by (simp add: bit_length.simps [of n])

lemma length_put_uvarint:
  "0 < n \<Longrightarrow> length (put_uvarint n) = (bit_length n + 6) div 7"
proof (induction n rule: put_uvarint.induct)
  case (1 n)
  show ?case
  proof (cases "n < 128")
    case True
    then have "bit_length n \<le> 7" using bit_length_bound [of n 7] by simp
    then have "(bit_length n + 6) div 7 = 1" using bit_length_pos [OF "1.prems"] by presburger
    then show ?thesis using True by (subst put_uvarint.simps) simp
  next
    case False
    then have "length (put_uvarint (n div 128)) = (bit_length (n div 128) + 6) div 7"
      by (intro "1.IH") auto
    moreover have "bit_length n = 7 + bit_length (n div 128)"
      using bit_length_shift [of 7 n] False by simp
    ultimately show ?thesis using False by (subst put_uvarint.simps) simp
  qed
qed

lemma length_put_uvarint_odd: "even n \<Longrightarrow> length (put_uvarint (Suc n)) = length (put_uvarint n)"
proof -
  assume e: "even n"
  have "\<not> 128 dvd Suc n"
  proof
    assume "128 dvd Suc n"
    moreover have "(2 :: nat) dvd 128" by simp
    ultimately have "2 dvd Suc n" by (rule dvd_trans [rotated])
    with e show False by simp
  qed
  then have "Suc n div 128 = n div 128" by (simp add: div_Suc dvd_eq_mod_eq_0)
  moreover have "Suc n < 128 \<longleftrightarrow> n < 128" using e by (cases "n = 127") auto
  ultimately show ?thesis
    using put_uvarint.simps [of "Suc n"] put_uvarint.simps [of n] by simp
qed

section \<open>Properties\<close>

text \<open>
  C22. The queue of a partition is FIFO and its batches keep their cap.  Appending puts the handle
  of the record last, sealing keeps every handle in place, and the parts of a split batch go in
  front of everything younger; each of them keeps the invariant that a batch is not empty, numbers
  its records from 0, knows its size, and exceeds the batch size only with a single record.  An
  abort fails every queued handle exactly once.
\<close>
theorem accumulator_fifo:
  assumes "acc_wf acc" and "rs \<noteq> []"
    and "sum_list (map pending_size rs) \<le> batch_size acc \<or> length rs = 1"
  shows "acc_wf (snd (append_record key v headers ts generation memory ack now acc))
    \<and> queued (snd (append_record key v headers ts generation memory ack now acc)) = queued acc @ [ack]
    \<and> acc_wf (seal_current acc) \<and> queued (seal_current acc) = queued acc
    \<and> acc_wf (push_front rs generation created_at acc)
    \<and> queued (push_front rs generation created_at acc) = map rec_ack rs @ queued acc
    \<and> mset (map fst (fst (abort_undrained_batches acc))) = mset (queued acc)
    \<and> (queue_size acc = 0 \<longleftrightarrow> queued acc = [])"
  using assms abort_undrained_handles [of acc]
  by (simp add: append_record_wf seal_current_wf push_front_wf queued_Nil)

definition pending_example :: "nat \<Rightarrow> pending_record" where
  "pending_example a = \<lparr>offset_delta = 0, rec_timestamp_ms = 5, rec_key = None,
     rec_value = Some [1, 2], rec_headers = [], rec_ack = a\<rparr>"

theorem accumulator_fifo_witness:
  "let acc = accumulator_new 30;
       acc1 = snd (append_record None (Some [1, 2]) [] 5 None None 11 0 acc);
       acc2 = snd (append_record None (Some [3]) [] 6 None None 12 1 acc1)
   in queued (push_front [pending_example 7, pending_example 8] None 0 (acc2\<lparr>batch_size := 40\<rparr>))
        = [7, 8, 11, 12]
    \<and> length (acc_ready acc2) = 1 \<and> acc_wf acc2"
proof -
  let ?acc = "accumulator_new 30"
  let ?acc1 = "snd (append_record None (Some [1, 2]) [] 5 None None 11 0 ?acc)"
  let ?acc2 = "snd (append_record None (Some [3]) [] 6 None None 12 1 ?acc1)"
  have wf0: "acc_wf ?acc" by (simp add: acc_wf_def acc_batches_def accumulator_new_def)
  have wf2: "acc_wf ?acc2" by (intro append_record_wf wf0)
  have wf3: "acc_wf (?acc2\<lparr>batch_size := 40\<rparr>)"
    by (simp add: acc_wf_def acc_batches_def batch_ok_def append_record_def open_batch_def
        needs_new_batch_def accumulator_new_def batch_new_def approx_record_size_def opt_len_def
        pending_size_def i32_of_usize_def Let_def)
  show ?thesis
    using accumulator_fifo [OF wf3, of "[pending_example 7, pending_example 8]" None "Some [1]" "[]"
        5 None None 9 0 0] wf2
    by (simp add: pending_size_def pending_example_def approx_record_size_def opt_len_def queued_def
        acc_batches_def append_record_def open_batch_def needs_new_batch_def accumulator_new_def
        batch_new_def Let_def)
qed

text \<open>
  The size that \<open>varint_size\<close> computes from the highest one bit is the number of bytes that
  the base-128 encoding of the zig-zag value takes, for every length below $2^{63}$.
\<close>
theorem varint_size_is_encoded_length:
  assumes "v < 2 ^ 63"
  shows "varint_size v = length (put_uvarint (2 * v))"
proof -
  have "2 * v mod 2 ^ 64 = 2 * v" using assms by simp
  then have "varint_size v = (bit_length (Suc (2 * v)) + 6) div 7"
    by (simp add: varint_size_def Let_def)
  also have "\<dots> = length (put_uvarint (Suc (2 * v)))" by (simp add: length_put_uvarint)
  finally show ?thesis by (simp add: length_put_uvarint_odd)
qed

theorem varint_size_is_encoded_length_witness:
  "varint_size 63 = 1 \<and> varint_size 64 = length (put_uvarint 128) \<and> length (put_uvarint 128) = 2"
proof -
  have "bit_length 127 = 7"
    by (simp add: bit_length.simps [of 127] bit_length.simps [of 63] bit_length.simps [of 31]
        bit_length.simps [of 15] bit_length.simps [of 7] bit_length.simps [of 3]
        bit_length.simps [of "Suc 0"])
  then have "varint_size 63 = 1" by (simp add: varint_size_def)
  moreover have "length (put_uvarint 128) = 2"
    by (simp add: put_uvarint.simps [of 128] put_uvarint.simps [of "Suc 0"])
  ultimately show ?thesis using varint_size_is_encoded_length [of 64] by simp
qed

end
