(* ===== verification/Txn_Error.thy ===== *)
theory Txn_Error
  imports Errors
begin

text \<open>
  The error state of a transaction and the identity of a prepared one,
  \<open>client-producer/src/transactional.rs\<close>.  The slot is one atomic \<open>i32\<close>; every method is one
  atomic access, so a slot is its integer value.
\<close>

section \<open>The error slot\<close>

definition NO_TXN_ERROR :: int where "NO_TXN_ERROR = - 2147483648"
definition ABORTABLE_TIMEOUT :: int where "ABORTABLE_TIMEOUT = - 2147483647"
definition FATAL_FENCED :: int where "FATAL_FENCED = - 2147483646"
definition FATAL_CODE_OFFSET :: int where "FATAL_CODE_OFFSET = 0x18000"
definition FATAL_CODE_MIN :: int where "FATAL_CODE_MIN = 0x10000"

datatype abortable_error = AbortServer int | AbortTimeout

datatype fatal_error = FatalFenced | FatalServer int

datatype txn_state =
    Uninitialized | Ready | InTransaction | Preparing | Prepared | Initializing
  | CommittingOrAborting | TxnRecoveryRequired | TxnFenced | TxnFatalError

fun fatal_state :: "fatal_error \<Rightarrow> txn_state" where
  "fatal_state FatalFenced = TxnFenced"
| "fatal_state (FatalServer _) = TxnFatalError"

fun fatal_producer_error :: "fatal_error \<Rightarrow> producer_error" where
  "fatal_producer_error FatalFenced = FencedProducer"
| "fatal_producer_error (FatalServer code) = FatalTransactionError code"

type_synonym txn_slot = int

definition is_fatal :: "txn_slot \<Rightarrow> bool" where
  "is_fatal v \<longleftrightarrow> v = FATAL_FENCED \<or> v \<ge> FATAL_CODE_MIN"

definition store_abortable :: "int \<Rightarrow> txn_slot \<Rightarrow> txn_slot" where
  "store_abortable v slot = (if \<not> is_fatal slot then v else slot)"

definition set_abortable :: "int \<Rightarrow> txn_slot \<Rightarrow> txn_slot" where
  "set_abortable code slot = store_abortable code slot"

definition set_abortable_timeout :: "txn_slot \<Rightarrow> txn_slot" where
  "set_abortable_timeout slot = store_abortable ABORTABLE_TIMEOUT slot"

definition set_fatal :: "fatal_error \<Rightarrow> txn_slot \<Rightarrow> txn_slot" where
  "set_fatal e slot =
     (case e of FatalFenced \<Rightarrow> FATAL_FENCED | FatalServer code \<Rightarrow> code + FATAL_CODE_OFFSET)"

text \<open>\<open>i16::try_from(v).ok()\<close>.\<close>

definition i16_of :: "int \<Rightarrow> int option" where
  "i16_of v = (if i16_range v then Some v else None)"

definition abortable :: "txn_slot \<Rightarrow> abortable_error option" where
  "abortable slot =
     (if slot = ABORTABLE_TIMEOUT then Some AbortTimeout else map_option AbortServer (i16_of slot))"

definition fatal :: "txn_slot \<Rightarrow> fatal_error option" where
  "fatal slot =
     (if slot = FATAL_FENCED then Some FatalFenced
      else if slot \<ge> FATAL_CODE_MIN then map_option FatalServer (i16_of (slot - FATAL_CODE_OFFSET))
      else None)"

definition clear_abortable :: "txn_slot \<Rightarrow> txn_slot" where
  "clear_abortable slot = store_abortable NO_TXN_ERROR slot"

lemmas slot_defs = is_fatal_def store_abortable_def set_abortable_def set_abortable_timeout_def
  set_fatal_def abortable_def fatal_def clear_abortable_def i16_of_def NO_TXN_ERROR_def
  ABORTABLE_TIMEOUT_def FATAL_FENCED_def FATAL_CODE_OFFSET_def FATAL_CODE_MIN_def i16_range_def

text \<open>The values that the methods store.\<close>

definition slot_wf :: "txn_slot \<Rightarrow> bool" where
  "slot_wf slot \<longleftrightarrow> slot = NO_TXN_ERROR \<or> slot = ABORTABLE_TIMEOUT \<or> slot = FATAL_FENCED
     \<or> i16_range slot \<or> (FATAL_CODE_MIN \<le> slot \<and> i16_range (slot - FATAL_CODE_OFFSET))"

lemma fatal_iff: "slot_wf slot \<Longrightarrow> fatal slot \<noteq> None \<longleftrightarrow> is_fatal slot"
  by (auto simp: slot_wf_def slot_defs)

lemma slot_wf_store:
  "slot_wf slot \<Longrightarrow> i16_range code \<Longrightarrow> slot_wf (set_abortable code slot)"
  "slot_wf slot \<Longrightarrow> slot_wf (set_abortable_timeout slot)"
  "slot_wf slot \<Longrightarrow> slot_wf (clear_abortable slot)"
  by (auto simp: slot_wf_def slot_defs)

lemma slot_wf_fatal:
  "(case e of FatalServer code \<Rightarrow> i16_range code | FatalFenced \<Rightarrow> True) \<Longrightarrow> slot_wf (set_fatal e slot)"
  by (cases e) (auto simp: slot_wf_def slot_defs)

section \<open>The identity of a prepared transaction\<close>

record prepared_state =
  prep_producer_id :: int
  prep_producer_epoch :: int

definition prepared_new :: "int \<Rightarrow> int \<Rightarrow> unit + prepared_state" where
  "prepared_new pid epoch =
     (if pid < 0 \<or> epoch < 0 then Inl ()
      else Inr \<lparr>prep_producer_id = pid, prep_producer_epoch = epoch\<rparr>)"

definition prepared_default :: prepared_state where
  "prepared_default = \<lparr>prep_producer_id = - 1, prep_producer_epoch = - 1\<rparr>"

definition has_transaction :: "prepared_state \<Rightarrow> bool" where
  "has_transaction p \<longleftrightarrow> prep_producer_id p \<ge> 0"

definition prepared_to_string :: "prepared_state \<Rightarrow> string" where
  "prepared_to_string p =
     (if has_transaction p
      then int_text (prep_producer_id p) @ CHR '':'' # int_text (prep_producer_epoch p) else [])"

definition prepared_from_str :: "string \<Rightarrow> unit + prepared_state" where
  "prepared_from_str serialized =
     (if serialized = [] then Inr prepared_default
      else case split_once CHR '':'' serialized of
        None \<Rightarrow> Inl ()
      | Some (pid_text, epoch_text) \<Rightarrow>
          if CHR '':'' \<in> set epoch_text then Inl ()
          else case parse_signed i64_range pid_text of
              None \<Rightarrow> Inl ()
            | Some pid \<Rightarrow>
                (case parse_signed i16_range epoch_text of
                   None \<Rightarrow> Inl ()
                 | Some epoch \<Rightarrow> prepared_new pid epoch))"

definition wf_prepared :: "prepared_state \<Rightarrow> bool" where
  "wf_prepared p \<longleftrightarrow> p = prepared_default
     \<or> (0 \<le> prep_producer_id p \<and> i64_range (prep_producer_id p)
        \<and> 0 \<le> prep_producer_epoch p \<and> i16_range (prep_producer_epoch p))"

lemma prepared_round_trip:
  assumes "wf_prepared p"
  shows "prepared_from_str (prepared_to_string p) = Inr p"
proof (cases "p = prepared_default")
  case True
  then show ?thesis by (simp add: prepared_to_string_def prepared_from_str_def has_transaction_def
        prepared_default_def)
next
  case False
  let ?p = "nat_text (nat (prep_producer_id p))" and ?e = "nat_text (nat (prep_producer_epoch p))"
  have printed: "prepared_to_string p = ?p @ CHR '':'' # ?e"
    using assms False by (auto simp: prepared_to_string_def int_text_def wf_prepared_def
        has_transaction_def)
  have "CHR '':'' \<notin> set ?p" "CHR '':'' \<notin> set ?e" using nat_text_chars by blast+
  moreover have "parse_signed i64_range ?p = Some (prep_producer_id p)"
      "parse_signed i16_range ?e = Some (prep_producer_epoch p)"
    using assms False by (auto simp: parse_signed_nat_text wf_prepared_def)
  ultimately show ?thesis
    using assms False unfolding prepared_from_str_def printed
    by (auto simp: split_once_first prepared_new_def wf_prepared_def)
qed

section \<open>Properties\<close>

text \<open>
  C27. One \<open>i32\<close> holds every error state without confusion, and a fatal error is final.  What is
  stored is what is read back, an abortable error or a clear never replaces a fatal one, a fatal
  one replaces everything, and at most one of the two readings is present.
\<close>
theorem txn_slot_faithful:
  assumes "slot_wf slot" and "i16_range code"
  shows "fatal (set_fatal (FatalServer code) slot) = Some (FatalServer code)
    \<and> fatal (set_fatal FatalFenced slot) = Some FatalFenced
    \<and> (fatal slot = None \<longrightarrow> abortable (set_abortable code slot) = Some (AbortServer code)
         \<and> abortable (set_abortable_timeout slot) = Some AbortTimeout
         \<and> abortable (clear_abortable slot) = None
         \<and> fatal (set_abortable code slot) = None \<and> fatal (clear_abortable slot) = None)
    \<and> (fatal slot \<noteq> None \<longrightarrow> set_abortable code slot = slot
         \<and> set_abortable_timeout slot = slot \<and> clear_abortable slot = slot)
    \<and> (fatal slot = None \<or> abortable slot = None)
    \<and> slot_wf (set_abortable code slot) \<and> slot_wf (set_fatal (FatalServer code) slot)"
  using assms by (auto simp: slot_wf_def slot_defs)

theorem txn_slot_faithful_witness:
  "abortable (set_abortable 48 NO_TXN_ERROR) = Some (AbortServer 48)
   \<and> fatal (set_abortable 48 (set_fatal (FatalServer (- 1)) NO_TXN_ERROR)) = Some (FatalServer (- 1))"
proof -
  have wf: "slot_wf NO_TXN_ERROR" "i16_range 48" "i16_range (- 1)"
    by (simp_all add: slot_wf_def range_simps)
  have wf': "slot_wf (set_fatal (FatalServer (- 1)) NO_TXN_ERROR)"
    using txn_slot_faithful [OF wf(1,3)] by simp
  show ?thesis
    using txn_slot_faithful [OF wf(1,2)] txn_slot_faithful [OF wf(1,3)] txn_slot_faithful [OF wf' wf(2)]
    by (simp add: fatal_def NO_TXN_ERROR_def FATAL_FENCED_def FATAL_CODE_MIN_def)
qed

text \<open>
  The text form of a prepared transaction, which an application stores outside the process,
  round-trips: parsing the printed text gives back the identity, and the empty text stands for no
  transaction.
\<close>
theorem prepared_state_round_trip:
  assumes "wf_prepared p"
  shows "prepared_from_str (prepared_to_string p) = Inr p
    \<and> (prepared_to_string p = [] \<longleftrightarrow> \<not> has_transaction p)"
  using assms prepared_round_trip by (simp add: prepared_to_string_def)

theorem prepared_state_round_trip_witness:
  "prepared_from_str (prepared_to_string \<lparr>prep_producer_id = 12, prep_producer_epoch = 3\<rparr>)
     = Inr \<lparr>prep_producer_id = 12, prep_producer_epoch = 3\<rparr>"
proof -
  have "wf_prepared \<lparr>prep_producer_id = 12, prep_producer_epoch = 3\<rparr>"
    by (simp add: wf_prepared_def range_simps)
  then show ?thesis using prepared_state_round_trip by blast
qed

end
