(* ===== verification/Sender.thy ===== *)
theory Sender
  imports Accumulator Txn_Error Partitioner
begin

text \<open>
  The background sender of the producer, \<open>client-producer/src/sender.rs\<close>: draining the
  accumulators, building batches with their sequence numbers, interpreting the answers of the
  brokers, and applying them.

  The record \<open>sender\<close> holds the settings, the state shared with \<open>Producer\<close> and the pipeline state
  of the task.  The sender task runs these functions one after the other; a function is a step on
  that record.  Iteration over a \<open>HashMap\<close> or a \<open>DashMap\<close> follows the association list, whose order
  is arbitrary.  What comes from outside is an argument: the current instant \<open>now\<close>, the answer of
  the transport, and \<open>lock_held\<close>, the accumulators that another task has locked.  Sending on a
  record's channel appends to \<open>resolved\<close>.  A \<open>Time\<close> setting is its length in nanoseconds, and
  \<open>cfg_backoff\<close> is the floating-point \<open>RetryBackoff::backoff\<close> with its jitter.  Logging and the
  wake-ups of \<open>flush_notify\<close> are left out.
\<close>

section \<open>Data\<close>

type_synonym topic_partition = "string \<times> int"

definition MESSAGE_TOO_LARGE :: int where "MESSAGE_TOO_LARGE = 10"
definition CLUSTER_AUTHORIZATION_FAILED :: int where "CLUSTER_AUTHORIZATION_FAILED = 31"
definition UNSUPPORTED_VERSION :: int where "UNSUPPORTED_VERSION = 35"
definition OUT_OF_ORDER_SEQUENCE_NUMBER :: int where "OUT_OF_ORDER_SEQUENCE_NUMBER = 45"
definition DUPLICATE_SEQUENCE_NUMBER :: int where "DUPLICATE_SEQUENCE_NUMBER = 46"
definition INVALID_PRODUCER_ID_MAPPING :: int where "INVALID_PRODUCER_ID_MAPPING = 49"
definition TRANSACTIONAL_ID_AUTHORIZATION_FAILED :: int where
  "TRANSACTIONAL_ID_AUTHORIZATION_FAILED = 53"
definition UNKNOWN_PRODUCER_ID :: int where "UNKNOWN_PRODUCER_ID = 59"
definition PRODUCER_FENCED_CODE :: int where "PRODUCER_FENCED_CODE = 90"
definition BOOTSTRAP_LEADER :: int where "BOOTSTRAP_LEADER = - 1"
definition INVALID_OFFSET :: int where "INVALID_OFFSET = - 1"
definition NO_TIMESTAMP :: int where "NO_TIMESTAMP = - 1"
definition STATE_ACTIVE :: nat where "STATE_ACTIVE = 0"
definition STATE_FENCED :: nat where "STATE_FENCED = 1"

lemmas code_defs = MESSAGE_TOO_LARGE_def CLUSTER_AUTHORIZATION_FAILED_def UNSUPPORTED_VERSION_def
  OUT_OF_ORDER_SEQUENCE_NUMBER_def DUPLICATE_SEQUENCE_NUMBER_def INVALID_PRODUCER_ID_MAPPING_def
  TRANSACTIONAL_ID_AUTHORIZATION_FAILED_def UNKNOWN_PRODUCER_ID_def PRODUCER_FENCED_CODE_def

datatype drain_intent = DrainReady | DrainExpired | DrainForce

datatype acks = AcksZero | AcksOne | AcksAll

fun acks_wire :: "acks \<Rightarrow> int" where
  "acks_wire AcksZero = 0"
| "acks_wire AcksOne = 1"
| "acks_wire AcksAll = - 1"

record topic_metadata =
  num_partitions :: int
  md_topic_id :: nat

record wire_record =
  wr_timestamp_delta :: int
  wr_offset_delta :: int
  wr_key :: "bytes option"
  wr_value :: "bytes option"
  wr_headers :: "header list"

record record_batch =
  rb_compression :: nat
  rb_transactional :: bool
  rb_last_offset_delta :: int
  rb_base_timestamp :: int
  rb_max_timestamp :: int
  rb_producer_id :: int
  rb_producer_epoch :: int
  rb_base_sequence :: int
  rb_records :: "wire_record list"

datatype send_failure = FailureCode int | FailureTransport

fun send_failure_error :: "send_failure \<Rightarrow> producer_error" where
  "send_failure_error (FailureCode code) = ProducerServer code"
| "send_failure_error FailureTransport = SendTimeout"

record prepared_batch =
  pb_topic :: string
  pb_partition :: int
  pb_topic_id :: nat
  pb_base_sequence :: int
  pb_record_batch :: record_batch
  pb_records :: "pending_record list"
  pb_created_at :: nat
  pb_backoff_until :: "nat option"
  pb_retries_used :: int
  pb_backoff_attempts :: nat
  pb_last_failure :: "send_failure option"
  pb_generation :: "nat option"
  pb_memory :: "nat option"

definition pb_key :: "prepared_batch \<Rightarrow> topic_partition" where
  "pb_key pb = (pb_topic pb, pb_partition pb)"

record record_metadata =
  rm_topic :: string
  rm_partition :: int
  rm_offset :: int
  rm_timestamp_ms :: int
  rm_key_size :: int
  rm_value_size :: int

record node_latency =
  nl_ready_at :: nat
  nl_drained_at :: nat

record sender =
  cfg_acks :: acks
  cfg_compression :: nat
  cfg_compression_level :: "int option"
  cfg_linger :: nat
  cfg_request_timeout_ms :: int
  cfg_retries :: int
  cfg_backoff :: "nat \<Rightarrow> nat"
  cfg_delivery_timeout :: nat
  cfg_instant_max :: nat
  cfg_transactional_id :: "string option"
  knows_broker :: "int \<Rightarrow> bool"
  sd_producer_id :: int
  sd_producer_epoch :: int
  metadata_cache :: "string \<rightharpoonup> topic_metadata"
  partition_leaders :: "topic_partition \<rightharpoonup> int"
  sd_partitioner :: partitioner
  accumulators :: "(topic_partition \<times> accumulator) list"
  lock_held :: "topic_partition \<Rightarrow> bool"
  next_seq :: "topic_partition \<rightharpoonup> int"
  lifecycle :: nat
  in_flight :: nat
  sd_txn_state :: txn_state
  txn_pid_epoch :: "int \<times> int"
  txn_recovery_required :: bool
  txn_recovery_generation :: nat
  txn_error :: txn_slot
  retry :: "(topic_partition \<times> prepared_batch) list"
  last_acked_offset :: "topic_partition \<rightharpoonup> int"
  latencies :: "int \<rightharpoonup> node_latency"
  recovery_generation :: "nat option"
  evicted :: "int list"
  resolved :: "(nat \<times> (producer_error + record_metadata)) list"

definition park :: "prepared_batch \<Rightarrow> sender \<Rightarrow> sender" where
  "park pb s = s\<lparr>retry := AList.update (pb_key pb) pb (retry s)\<rparr>"

definition set_acc :: "topic_partition \<Rightarrow> accumulator \<Rightarrow> sender \<Rightarrow> sender" where
  "set_acc key acc s = s\<lparr>accumulators := AList.update key acc (accumulators s)\<rparr>"

section \<open>Resolving records\<close>

fun clone_if_possible :: "producer_error \<Rightarrow> producer_error option" where
  "clone_if_possible (ProducerServer c) = Some (ProducerServer c)"
| "clone_if_possible FencedProducer = Some FencedProducer"
| "clone_if_possible RecoveryRequired = Some RecoveryRequired"
| "clone_if_possible ProducerClosed = Some ProducerClosed"
| "clone_if_possible FlushTimeout = Some FlushTimeout"
| "clone_if_possible SendTimeout = Some SendTimeout"
| "clone_if_possible (BufferExhausted n b t a p) = Some (BufferExhausted n b t a p)"
| "clone_if_possible (BatchTooLarge n) = Some (BatchTooLarge n)"
| "clone_if_possible (RecordTooLarge n l) = Some (RecordTooLarge n l)"
| "clone_if_possible (ProducerInvalidConfig m) = Some (ProducerInvalidConfig m)"
| "clone_if_possible (FatalTransactionError c) = Some (FatalTransactionError c)"
| "clone_if_possible _ = None"

definition fail_batch :: "pending_record list \<Rightarrow> producer_error \<Rightarrow> sender \<Rightarrow> sender" where
  "fail_batch rs err s =
     s\<lparr>resolved := resolved s @
        (case rs of
           [] \<Rightarrow> []
         | r # rest \<Rightarrow> (rec_ack r, Inl err) #
             map (\<lambda>x. (rec_ack x, Inl (case clone_if_possible err of
                Some e \<Rightarrow> (case clone_if_possible e of Some e' \<Rightarrow> e' | None \<Rightarrow> ProducerClosed)
              | None \<Rightarrow> ProducerClosed))) rest)\<rparr>"

text \<open>\<open>fetch_sub(1)\<close> on a \<open>usize\<close>.\<close>

definition finish_in_flight :: "sender \<Rightarrow> sender" where
  "finish_in_flight s =
     s\<lparr>in_flight := (if in_flight s = 0 then usize_max else in_flight s - 1)\<rparr>"

definition record_offset :: "int \<Rightarrow> int \<Rightarrow> int" where
  "record_offset base_offset delta =
     (if base_offset = INVALID_OFFSET then INVALID_OFFSET else base_offset + delta)"

definition serialized_size :: "bytes option \<Rightarrow> int" where
  "serialized_size b = (case b of None \<Rightarrow> - 1 | Some bs \<Rightarrow> i32_of_usize (length bs))"

definition ack_batch :: "prepared_batch \<Rightarrow> int \<Rightarrow> int \<Rightarrow> sender \<Rightarrow> sender" where
  "ack_batch pb base_offset log_append_time_ms s =
     finish_in_flight (s\<lparr>resolved := resolved s @
       map (\<lambda>r. (rec_ack r, Inr
         \<lparr>rm_topic = pb_topic pb, rm_partition = pb_partition pb,
          rm_offset = record_offset base_offset (offset_delta r),
          rm_timestamp_ms = (if log_append_time_ms = NO_TIMESTAMP then rec_timestamp_ms r
                             else log_append_time_ms),
          rm_key_size = serialized_size (rec_key r),
          rm_value_size = serialized_size (rec_value r)\<rparr>)) (pb_records pb)\<rparr>)"

section \<open>Verdicts\<close>

datatype barrier =
    BarrierRecovery
  | BarrierFatal fatal_error
  | BarrierAbortable abortable_error

fun barrier_error :: "barrier \<Rightarrow> producer_error" where
  "barrier_error BarrierRecovery = RecoveryRequired"
| "barrier_error (BarrierFatal e) = fatal_producer_error e"
| "barrier_error (BarrierAbortable (AbortServer code)) = ProducerServer code"
| "barrier_error (BarrierAbortable AbortTimeout) = SendTimeout"

datatype batch_mode = PlainMode | IdempotentMode | TransactionalMode

datatype sequence_repair = Keep | BumpEpoch | GiveBack | Reset

definition batch_mode_of :: "record_batch \<Rightarrow> batch_mode" where
  "batch_mode_of b =
     (if rb_transactional b then TransactionalMode
      else if rb_producer_id b \<ge> 0 then IdempotentMode
      else PlainMode)"

fun repair_after_failure :: "batch_mode \<Rightarrow> sequence_repair" where
  "repair_after_failure PlainMode = Keep"
| "repair_after_failure IdempotentMode = BumpEpoch"
| "repair_after_failure TransactionalMode = GiveBack"

datatype batch_verdict =
    Acked (acked_base_offset: int) (acked_log_append_time: int)
  | RetryVerdict
  | BumpEpochAndRetry
  | RestartSequenceAndRetry
  | Terminal (terminal_code: int) (terminal_repair: sequence_repair)
  | Split
  | FatalVerdict int
  | Barred barrier

datatype classification = Verdict batch_verdict | Routing

record partition_answer =
  pa_error_code :: int
  pa_base_offset :: int
  pa_log_append_time_ms :: int
  pa_log_start_offset :: int

definition classify_verdict ::
    "partition_answer \<Rightarrow> batch_mode \<Rightarrow> int option \<Rightarrow> nat \<Rightarrow> classification" where
  "classify_verdict answer mode last_acked records_in_batch =
     (let code = pa_error_code answer in
      if code = MESSAGE_TOO_LARGE \<and> records_in_batch > 1 then Verdict Split
      else if code = 0 \<or> code = DUPLICATE_SEQUENCE_NUMBER then
        Verdict (Acked (pa_base_offset answer) (pa_log_append_time_ms answer))
      else if code \<in> {CLUSTER_AUTHORIZATION_FAILED, UNSUPPORTED_VERSION, INVALID_PRODUCER_ID_MAPPING,
                      TRANSACTIONAL_ID_AUTHORIZATION_FAILED, PRODUCER_FENCED_CODE}
              \<and> mode \<noteq> PlainMode then
        Verdict (FatalVerdict code)
      else if code = OUT_OF_ORDER_SEQUENCE_NUMBER \<and> mode = IdempotentMode then
        Verdict BumpEpochAndRetry
      else if code = UNKNOWN_PRODUCER_ID \<and> mode \<noteq> PlainMode \<and> pa_log_start_offset answer < 0 then
        Verdict RetryVerdict
      else if code = UNKNOWN_PRODUCER_ID \<and> mode = IdempotentMode then
        Verdict BumpEpochAndRetry
      else if code = UNKNOWN_PRODUCER_ID \<and> mode = TransactionalMode
              \<and> (case last_acked of Some n \<Rightarrow> n | None \<Rightarrow> - 1) < pa_log_start_offset answer then
        Verdict RestartSequenceAndRetry
      else if code = UNKNOWN_PRODUCER_ID \<and> mode = TransactionalMode then
        Verdict (Terminal code Reset)
      else case error_class_of code of
          InvalidMetadata \<Rightarrow> Routing
        | Retriable \<Rightarrow> Verdict RetryVerdict
        | _ \<Rightarrow> Verdict (Terminal code (repair_after_failure mode)))"

definition drained_barrier :: "sender \<Rightarrow> nat option \<Rightarrow> barrier option" where
  "drained_barrier s generation =
     (case generation of
        None \<Rightarrow> None
      | Some g \<Rightarrow>
          (case fatal (txn_error s) of
             Some e \<Rightarrow> Some (BarrierFatal e)
           | None \<Rightarrow>
               (if txn_recovery_required s \<or> g \<noteq> txn_recovery_generation s
                then Some BarrierRecovery else None)))"

definition undrained_barrier :: "sender \<Rightarrow> nat option \<Rightarrow> barrier option" where
  "undrained_barrier s generation =
     (case drained_barrier s generation of
        Some b \<Rightarrow> Some b
      | None \<Rightarrow>
          (case generation of
             None \<Rightarrow> None
           | Some _ \<Rightarrow> map_option BarrierAbortable (abortable (txn_error s))))"

section \<open>Building a batch\<close>

text \<open>\<open>i32::wrapping_add\<close>.\<close>

definition wrap_i32 :: "int \<Rightarrow> int" where
  "wrap_i32 x = (x + 2147483648) mod 4294967296 - 2147483648"

definition txn_pid_snapshot :: "sender \<Rightarrow> (int \<times> int) option" where
  "txn_pid_snapshot s =
     (case cfg_transactional_id s of
        None \<Rightarrow> None
      | Some _ \<Rightarrow>
          (if sd_txn_state s \<in> {InTransaction, Preparing, CommittingOrAborting}
           then Some (txn_pid_epoch s) else None))"

definition build_record_batch ::
    "sender \<Rightarrow> in_progress_batch \<Rightarrow> int \<Rightarrow> (int \<times> int) option \<Rightarrow> record_batch" where
  "build_record_batch s b base_sequence txn_snapshot =
     (let (pid, epoch) = (case txn_snapshot of
            Some pe \<Rightarrow> pe | None \<Rightarrow> (sd_producer_id s, sd_producer_epoch s));
          stamps = map rec_timestamp_ms (batch_records b);
          base_timestamp = (case stamps of [] \<Rightarrow> 0 | t # _ \<Rightarrow> t);
          max_timestamp = (case stamps of [] \<Rightarrow> 0 | _ \<Rightarrow> Max (set stamps))
      in \<lparr>rb_compression = cfg_compression s, rb_transactional = (txn_snapshot \<noteq> None),
          rb_last_offset_delta = i32_of_usize (length (batch_records b) - 1),
          rb_base_timestamp = base_timestamp, rb_max_timestamp = max_timestamp,
          rb_producer_id = pid, rb_producer_epoch = epoch, rb_base_sequence = base_sequence,
          rb_records = map (\<lambda>r. \<lparr>wr_timestamp_delta = rec_timestamp_ms r - base_timestamp,
             wr_offset_delta = offset_delta r, wr_key = rec_key r, wr_value = rec_value r,
             wr_headers = rec_headers r\<rparr>) (batch_records b)\<rparr>)"

definition prepare_batch ::
    "topic_partition \<Rightarrow> in_progress_batch \<Rightarrow> sender \<Rightarrow> prepared_batch \<times> sender" where
  "prepare_batch key b s =
     (let cur = (case next_seq s key of Some n \<Rightarrow> n | None \<Rightarrow> 0);
          records_count = i32_of_usize (length (batch_records b));
          topic_id = (case metadata_cache s (fst key) of Some m \<Rightarrow> md_topic_id m | None \<Rightarrow> 0);
          rb = build_record_batch s b cur (txn_pid_snapshot s)
      in (\<lparr>pb_topic = fst key, pb_partition = snd key, pb_topic_id = topic_id,
           pb_base_sequence = cur, pb_record_batch = rb, pb_records = batch_records b,
           pb_created_at = first_append_at b, pb_backoff_until = None, pb_retries_used = 0,
           pb_backoff_attempts = 0, pb_last_failure = None,
           pb_generation = transaction_generation b, pb_memory = batch_memory b\<rparr>,
          s\<lparr>next_seq := (next_seq s)(key \<mapsto> wrap_i32 (cur + records_count))\<rparr>))"

section \<open>Sequence repair, epochs and fencing\<close>

text \<open>
  The answer of \<open>InitProducerId\<close>: \<^const>\<open>None\<close> for a timeout or a transport error, otherwise the
  error code, the producer id and the epoch.
\<close>

type_synonym init_answer = "(int \<times> int \<times> int) option"

definition i16_max :: int where "i16_max = 32767"

definition bump_idempotent_epoch :: "init_answer \<Rightarrow> sender \<Rightarrow> bool \<times> sender" where
  "bump_idempotent_epoch answer s =
     (if sd_producer_epoch s < i16_max
      then (True, s\<lparr>sd_producer_epoch := sd_producer_epoch s + 1, next_seq := Map.empty\<rparr>)
      else case answer of
        None \<Rightarrow> (False, s)
      | Some (error_code, pid, epoch) \<Rightarrow>
          (if error_code \<noteq> 0 \<or> pid < 0 \<or> epoch < 0 then (False, s)
           else (True, s\<lparr>sd_producer_id := pid, sd_producer_epoch := epoch,
                         next_seq := Map.empty\<rparr>)))"

definition restart_sequence :: "prepared_batch \<Rightarrow> sender \<Rightarrow> prepared_batch \<times> sender" where
  "restart_sequence pb s =
     (pb\<lparr>pb_base_sequence := 0, pb_record_batch := (pb_record_batch pb)\<lparr>rb_base_sequence := 0\<rparr>\<rparr>,
      s\<lparr>next_seq := (next_seq s)(pb_key pb \<mapsto> i32_of_usize (length (pb_records pb)))\<rparr>)"

text \<open>\<^const>\<open>True\<close>: no retry is left.\<close>

definition take_retry :: "prepared_batch \<Rightarrow> int \<Rightarrow> bool \<times> prepared_batch" where
  "take_retry pb retries =
     (if pb_retries_used pb \<ge> retries then (True, pb)
      else (False, pb\<lparr>pb_retries_used := pb_retries_used pb + 1\<rparr>))"

definition record_transaction_fatal_error :: "prepared_batch \<Rightarrow> int \<Rightarrow> sender \<Rightarrow> sender" where
  "record_transaction_fatal_error pb code s =
     (if batch_mode_of (pb_record_batch pb) \<noteq> TransactionalMode then s
      else s\<lparr>txn_error := set_fatal
             (if code = PRODUCER_FENCED_CODE then FatalFenced else FatalServer code) (txn_error s)\<rparr>)"

definition fatal_code_error :: "int \<Rightarrow> producer_error" where
  "fatal_code_error code =
     (if code = PRODUCER_FENCED_CODE then FencedProducer else ProducerServer code)"

definition terminal_fail_batch :: "prepared_batch \<Rightarrow> producer_error \<Rightarrow> sender \<Rightarrow> sender" where
  "terminal_fail_batch pb err s =
     (let s1 = (if batch_mode_of (pb_record_batch pb) = TransactionalMode
                then s\<lparr>txn_error := (case err of
                       ProducerServer code \<Rightarrow> set_abortable code (txn_error s)
                     | _ \<Rightarrow> set_abortable_timeout (txn_error s))\<rparr>
                else s)
      in finish_in_flight (fail_batch (pb_records pb) err s1))"

type_synonym repair = "topic_partition \<times> sequence_repair \<times> int"

definition record_repair ::
    "prepared_batch \<Rightarrow> sequence_repair \<Rightarrow> bool \<times> repair list \<Rightarrow> bool \<times> repair list" where
  "record_repair pb repair acc =
     (case repair of
        Keep \<Rightarrow> acc
      | BumpEpoch \<Rightarrow> (True, snd acc)
      | _ \<Rightarrow> (fst acc, snd acc @ [(pb_key pb, repair, pb_base_sequence pb)]))"

definition apply_repair :: "repair \<Rightarrow> sender \<Rightarrow> sender" where
  "apply_repair rp s =
     (case rp of (key, repair, base_sequence) \<Rightarrow>
        s\<lparr>next_seq := (next_seq s)(key := (if repair = GiveBack then Some base_sequence else None))\<rparr>)"

definition split_and_requeue :: "prepared_batch \<Rightarrow> bool \<Rightarrow> sender \<Rightarrow> sender" where
  "split_and_requeue pb epoch_bumped s =
     (let key = pb_key pb;
          s1 = (if batch_mode_of (pb_record_batch pb) \<noteq> PlainMode \<and> \<not> epoch_bumped
                then s\<lparr>next_seq := (next_seq s)(key \<mapsto> pb_base_sequence pb)\<rparr> else s);
          middle = length (pb_records pb) div 2;
          first = take middle (pb_records pb);
          second = drop middle (pb_records pb)
      in case map_of (accumulators s1) key of
           None \<Rightarrow>
             finish_in_flight (fail_batch second (ProducerServer MESSAGE_TOO_LARGE)
               (fail_batch first (ProducerServer MESSAGE_TOO_LARGE) s1))
         | Some acc \<Rightarrow>
             finish_in_flight (set_acc key
               (push_front first (pb_generation pb) (pb_created_at pb)
                 (push_front second (pb_generation pb) (pb_created_at pb) acc)) s1))"

primrec fail_all_fenced :: "prepared_batch list \<Rightarrow> sender \<Rightarrow> sender" where
  "fail_all_fenced [] s = s"
| "fail_all_fenced (pb # pbs) s =
     fail_all_fenced pbs (finish_in_flight (fail_batch (pb_records pb) FencedProducer s))"

text \<open>One unlocked accumulator of \<open>fence\<close>: the current batch first, then the ready ones.\<close>

definition fence_accumulator :: "topic_partition \<Rightarrow> sender \<Rightarrow> sender" where
  "fence_accumulator key s =
     (case map_of (accumulators s) key of
        None \<Rightarrow> s
      | Some acc \<Rightarrow>
          (if lock_held s key then s
           else let s1 = (case acc_current acc of
                  Some b \<Rightarrow> fail_batch (batch_records b) FencedProducer s | None \<Rightarrow> s);
                s2 = foldl (\<lambda>s b. fail_batch (batch_records b) FencedProducer s) s1 (acc_ready acc)
             in set_acc key (acc\<lparr>acc_current := None, acc_ready := []\<rparr>) s2))"

definition fence :: "prepared_batch list \<Rightarrow> sender \<Rightarrow> sender" where
  "fence to_fail s =
     (let s1 = s\<lparr>lifecycle := (if lifecycle s = STATE_ACTIVE then STATE_FENCED else lifecycle s)\<rparr>;
          s2 = fail_all_fenced to_fail s1;
          s3 = fail_all_fenced (map snd (retry s2)) (s2\<lparr>retry := []\<rparr>)
      in fold fence_accumulator (map fst (accumulators s3)) s3)"

section \<open>Time\<close>

definition delivery_deadline :: "sender \<Rightarrow> nat \<Rightarrow> nat option" where
  "delivery_deadline s created_at =
     (let d = created_at + cfg_delivery_timeout s in
      if d \<le> cfg_instant_max s then Some d else None)"

definition reached_delivery_timeout :: "sender \<Rightarrow> nat \<Rightarrow> nat \<Rightarrow> bool" where
  "reached_delivery_timeout s created_at now =
     (case delivery_deadline s created_at of Some d \<Rightarrow> d \<le> now | None \<Rightarrow> False)"

definition back_off :: "sender \<Rightarrow> nat \<Rightarrow> prepared_batch \<Rightarrow> prepared_batch" where
  "back_off s now pb =
     (let t = now + cfg_backoff s (pb_backoff_attempts pb) in
      pb\<lparr>pb_backoff_until := Some (if t \<le> cfg_instant_max s then t else now),
         pb_backoff_attempts := sat_addu32 (pb_backoff_attempts pb) 1\<rparr>)"

text \<open>
  The loop of \<open>collect_retries\<close>: the batches to send, the expired ones and the parked ones.
\<close>

fun collect_loop ::
    "sender \<Rightarrow> nat \<Rightarrow> nat \<Rightarrow> (topic_partition \<times> prepared_batch) list
       \<Rightarrow> prepared_batch list \<times> prepared_batch list \<times> (topic_partition \<times> prepared_batch) list
       \<Rightarrow> prepared_batch list \<times> prepared_batch list \<times> (topic_partition \<times> prepared_batch) list" where
  "collect_loop s now max_to_send [] acc = acc"
| "collect_loop s now max_to_send ((key, pb) # rest) (to_send, expired, parked) =
     (if reached_delivery_timeout s (pb_created_at pb) now then
        collect_loop s now max_to_send rest (to_send, expired @ [pb], parked)
      else if (case pb_backoff_until pb of Some t \<Rightarrow> now < t | None \<Rightarrow> False) then
        collect_loop s now max_to_send rest (to_send, expired, parked @ [(key, pb)])
      else if length to_send \<ge> max_to_send then
        collect_loop s now max_to_send rest (to_send, expired, parked @ [(key, pb)])
      else collect_loop s now max_to_send rest
             (to_send @ [pb\<lparr>pb_backoff_until := None\<rparr>], expired, parked))"

definition collect_retries ::
    "nat \<Rightarrow> nat \<Rightarrow> sender \<Rightarrow> prepared_batch list \<times> prepared_batch list \<times> sender" where
  "collect_retries now max_to_send s =
     (case collect_loop s now max_to_send (retry s) ([], [], []) of
        (to_send, expired, parked) \<Rightarrow>
          (to_send, expired,
           s\<lparr>retry := fold (\<lambda>(key, pb). AList.update key pb) parked []\<rparr>))"

section \<open>Applying the answers of a cycle\<close>

record batch_send_result =
  sr_pb :: prepared_batch
  sr_verdict :: batch_verdict
  sr_refresh_needed :: bool

record cycle_verdicts =
  cv_needs_refresh :: bool
  cv_fenced :: "prepared_batch list option"
  cv_bump_epoch :: bool
  cv_repairs :: "repair list"
  cv_restarts :: "prepared_batch list"
  cv_rewrites :: "prepared_batch list"
  cv_splits :: "prepared_batch list"
  cv_failed :: "(prepared_batch \<times> producer_error) list"

definition cycle_default :: cycle_verdicts where
  "cycle_default = \<lparr>cv_needs_refresh = False, cv_fenced = None, cv_bump_epoch = False,
     cv_repairs = [], cv_restarts = [], cv_rewrites = [], cv_splits = [], cv_failed = []\<rparr>"

definition record_ack :: "prepared_batch \<Rightarrow> int \<Rightarrow> sender \<Rightarrow> sender" where
  "record_ack pb base_offset s =
     (if base_offset < 0 then s
      else let last_offset = base_offset + rb_last_offset_delta (pb_record_batch pb) in
        s\<lparr>last_acked_offset := (last_acked_offset s)(pb_key pb \<mapsto>
            (case last_acked_offset s (pb_key pb) of
               Some n \<Rightarrow> max n last_offset | None \<Rightarrow> last_offset))\<rparr>)"

text \<open>\<open>record\<close> once a fatal verdict of the cycle fenced the producer.\<close>

definition cycle_record_fenced ::
    "prepared_batch list \<Rightarrow> prepared_batch \<Rightarrow> batch_verdict \<Rightarrow> cycle_verdicts \<Rightarrow> sender
       \<Rightarrow> cycle_verdicts \<times> sender" where
  "cycle_record_fenced to_fail pb verdict cv s =
     (case verdict of
        Acked base_offset lat \<Rightarrow> (cv, ack_batch pb base_offset lat s)
      | Terminal code _ \<Rightarrow> (cv, terminal_fail_batch pb (ProducerServer code) s)
      | FatalVerdict code \<Rightarrow>
          (cv, finish_in_flight (fail_batch (pb_records pb) (fatal_code_error code)
                 (record_transaction_fatal_error pb code s)))
      | Barred b \<Rightarrow> (cv, finish_in_flight (fail_batch (pb_records pb) (barrier_error b) s))
      | _ \<Rightarrow> (cv\<lparr>cv_fenced := Some (to_fail @ [pb])\<rparr>, s))"

text \<open>The branch of a verdict that asks for a resend.\<close>

definition cycle_retry ::
    "prepared_batch \<Rightarrow> batch_verdict \<Rightarrow> cycle_verdicts \<Rightarrow> sender \<Rightarrow> cycle_verdicts \<times> sender" where
  "cycle_retry pb verdict cv s =
     (case take_retry pb (cfg_retries s) of
        (True, pb') \<Rightarrow>
          (let (bump, repairs) = record_repair pb'
                 (repair_after_failure (batch_mode_of (pb_record_batch pb')))
                 (cv_bump_epoch cv, cv_repairs cv);
               failure = (case pb_last_failure pb' of Some f \<Rightarrow> f | None \<Rightarrow> FailureTransport)
           in (cv\<lparr>cv_bump_epoch := bump, cv_repairs := repairs,
                  cv_failed := cv_failed cv @ [(pb', send_failure_error failure)]\<rparr>, s))
      | (False, pb') \<Rightarrow>
          (case verdict of
             BumpEpochAndRetry \<Rightarrow> (cv\<lparr>cv_rewrites := cv_rewrites cv @ [pb']\<rparr>, s)
           | RestartSequenceAndRetry \<Rightarrow> (cv\<lparr>cv_restarts := cv_restarts cv @ [pb']\<rparr>, s)
           | _ \<Rightarrow> (cv, park pb' s)))"

definition cycle_record ::
    "batch_send_result \<Rightarrow> cycle_verdicts \<times> sender \<Rightarrow> cycle_verdicts \<times> sender" where
  "cycle_record res cvs =
     (let pb = sr_pb res; s = snd cvs;
          cv = (fst cvs)\<lparr>cv_needs_refresh := cv_needs_refresh (fst cvs) \<or> sr_refresh_needed res\<rparr>
      in case cv_fenced cv of
           Some to_fail \<Rightarrow> cycle_record_fenced to_fail pb (sr_verdict res) cv s
         | None \<Rightarrow>
             (case sr_verdict res of
                Acked base_offset lat \<Rightarrow> (cv, ack_batch pb base_offset lat (record_ack pb base_offset s))
              | Terminal code repair \<Rightarrow>
                  (let (bump, repairs) = record_repair pb repair (cv_bump_epoch cv, cv_repairs cv)
                   in (cv\<lparr>cv_bump_epoch := bump, cv_repairs := repairs,
                          cv_failed := cv_failed cv @ [(pb, ProducerServer code)]\<rparr>, s))
              | Split \<Rightarrow> (cv\<lparr>cv_splits := cv_splits cv @ [pb]\<rparr>, s)
              | FatalVerdict code \<Rightarrow>
                  (cv\<lparr>cv_fenced := Some []\<rparr>,
                   finish_in_flight (fail_batch (pb_records pb) (fatal_code_error code)
                     (record_transaction_fatal_error pb code s)))
              | Barred b \<Rightarrow> (cv, finish_in_flight (fail_batch (pb_records pb) (barrier_error b) s))
              | verdict \<Rightarrow> cycle_retry pb verdict cv s))"

definition rewrite_and_park :: "prepared_batch \<Rightarrow> sender \<Rightarrow> sender" where
  "rewrite_and_park pb s =
     (let pb1 = pb\<lparr>pb_record_batch := (pb_record_batch pb)
            \<lparr>rb_producer_id := sd_producer_id s, rb_producer_epoch := sd_producer_epoch s\<rparr>\<rparr>;
          (pb2, s') = restart_sequence pb1 s
      in park pb2 s')"

definition restart_and_park :: "prepared_batch \<Rightarrow> sender \<Rightarrow> sender" where
  "restart_and_park pb s = (let (pb', s') = restart_sequence pb s in park pb' s')"

definition cycle_apply :: "init_answer \<Rightarrow> cycle_verdicts \<Rightarrow> sender \<Rightarrow> bool \<times> sender" where
  "cycle_apply answer cv s =
     (case cv_fenced cv of
        Some to_fail \<Rightarrow>
          (False, fence (to_fail @ cv_restarts cv @ cv_rewrites cv @ cv_splits cv)
             (fold (\<lambda>(pb, err). terminal_fail_batch pb err) (cv_failed cv) s))
      | None \<Rightarrow>
          (let (epoch_bumped, s1) =
                 (if cv_bump_epoch cv \<or> cv_rewrites cv \<noteq> [] then bump_idempotent_epoch answer s
                  else (False, s));
               s2 = (if epoch_bumped then fold rewrite_and_park (cv_rewrites cv) s1
                     else fold park (cv_rewrites cv) s1);
               s3 = fold apply_repair (cv_repairs cv) s2;
               s4 = fold restart_and_park (cv_restarts cv) s3;
               s5 = fold (\<lambda>pb. split_and_requeue pb epoch_bumped) (cv_splits cv) s4;
               s6 = fold (\<lambda>(pb, err). terminal_fail_batch pb err) (cv_failed cv) s5
           in (cv_needs_refresh cv, s6)))"

definition complete_batches ::
    "init_answer \<Rightarrow> batch_send_result list \<Rightarrow> sender \<Rightarrow> bool \<times> sender" where
  "complete_batches answer results s =
     (case fold cycle_record results (cycle_default, s) of (cv, s') \<Rightarrow> cycle_apply answer cv s')"

end
