(* ===== verification/Sender_Drive.thy ===== *)
theory Sender_Drive
  imports Sender
begin

text \<open>
  The drain cycle, the sending of one batch and the loop of the sender,
  \<open>client-producer/src/sender.rs\<close>.

  A drain is one step.  The source awaits the lock of each accumulator and the epoch request in it, so
  an append of another task can fall between two partitions of one drain; the model puts such an
  append before or after the whole drain.  The request of a batch, from
  \<open>send_one_batch_to_leader\<close> to its answer, is evaluated when its future completes.  What the
  broker and the codec return is the record \<open>produce_transport\<close>; the two awaits that can fail in a
  drain take the answer of \<open>InitProducerId\<close> as an argument.
\<close>

section \<open>Leaders and load\<close>

definition resolve_leader :: "sender \<Rightarrow> topic_partition \<Rightarrow> int" where
  "resolve_leader s key =
     (case partition_leaders s key of
        Some broker \<Rightarrow> if broker \<ge> 0 \<and> knows_broker s broker then broker else BOOTSTRAP_LEADER
      | None \<Rightarrow> BOOTSTRAP_LEADER)"

definition positive_partition_count :: "int \<Rightarrow> int option" where
  "positive_partition_count n = (if n > 0 then Some n else None)"

definition topic_partition_count :: "sender \<Rightarrow> string \<Rightarrow> int option" where
  "topic_partition_count s topic =
     Option.bind (metadata_cache s topic) (\<lambda>m. positive_partition_count (num_partitions m))"

text \<open>\<open>filter(|leader| *leader >= 0)\<close> on the leader cache.\<close>

definition known_leader :: "sender \<Rightarrow> topic_partition \<Rightarrow> int option" where
  "known_leader s key =
     (case partition_leaders s key of
        Some l \<Rightarrow> if l \<ge> 0 then Some l else None
      | None \<Rightarrow> None)"

definition unavailable :: "node_latency \<Rightarrow> nat \<Rightarrow> bool" where
  "unavailable nl timeout \<longleftrightarrow> nl_ready_at nl - nl_drained_at nl > timeout"

definition note_node_latency :: "topic_partition \<Rightarrow> nat \<Rightarrow> bool \<Rightarrow> sender \<Rightarrow> sender" where
  "note_node_latency key now drained s =
     (if availability_timeout (pt_config (sd_partitioner s)) = 0 then s
      else case known_leader s key of
        None \<Rightarrow> s
      | Some leader \<Rightarrow>
          (let nl = (case latencies s leader of
                 Some nl \<Rightarrow> nl | None \<Rightarrow> \<lparr>nl_ready_at = now, nl_drained_at = now\<rparr>);
               nl1 = (if drained then nl\<lparr>nl_drained_at := now\<rparr> else nl)
           in s\<lparr>latencies := (latencies s)(leader \<mapsto> nl1\<lparr>nl_ready_at := now\<rparr>)\<rparr>))"

text \<open>The queue size of one partition, when it takes part in the adaptive pick.\<close>

definition partition_queue :: "sender \<Rightarrow> string \<Rightarrow> int \<times> accumulator \<Rightarrow> (nat \<times> int) option" where
  "partition_queue s topic pa =
     (let key = (topic, fst pa); timeout = availability_timeout (pt_config (sd_partitioner s))
      in case known_leader s key of
           None \<Rightarrow> None
         | Some leader \<Rightarrow>
             (let n = queue_size (snd pa) + (if map_of (retry s) key \<noteq> None then 1 else 0)
              in if timeout \<noteq> 0 \<and> (case latencies s leader of
                     Some nl \<Rightarrow> unavailable nl timeout | None \<Rightarrow> False)
                 then None
                 else Some (if n \<le> u32_max then n else u32_max, fst pa)))"

definition topic_load :: "sender \<Rightarrow> string \<Rightarrow> queue_sizes option" where
  "topic_load s topic =
     (let parts = map (\<lambda>(k, a). (snd k, a)) (filter (\<lambda>(k, a). fst k = topic) (accumulators s))
      in case topic_partition_count s topic of
           None \<Rightarrow> None
         | Some n \<Rightarrow>
             (if length parts < nat n then None
              else let found = List.map_filter (partition_queue s topic) (sort_key fst parts)
                in Some \<lparr>qs_sizes = map fst found, qs_partition_ids = map snd found,
                         qs_all = length parts\<rparr>))"

definition update_partition_load_stats :: "sender \<Rightarrow> sender" where
  "update_partition_load_stats s =
     (if \<not> adaptive_partitioning (pt_config (sd_partitioner s)) then s
      else s\<lparr>sd_partitioner :=
             fold (\<lambda>topic p. update_load_stats p topic (topic_load s topic))
               (remdups (map (fst \<circ> fst) (accumulators s))) (sd_partitioner s)\<rparr>)"

section \<open>Connection capacity and schedule\<close>

record connection_capacity =
  cap_limit :: nat
  cap_used :: "int \<rightharpoonup> nat"

definition cap_count :: "connection_capacity \<Rightarrow> int \<Rightarrow> nat" where
  "cap_count c leader = (case cap_used c leader of Some n \<Rightarrow> n | None \<Rightarrow> 0)"

definition available :: "connection_capacity \<Rightarrow> int \<Rightarrow> bool" where
  "available c leader \<longleftrightarrow> cap_count c leader < cap_limit c"

definition reserve :: "int \<Rightarrow> connection_capacity \<Rightarrow> connection_capacity" where
  "reserve leader c = c\<lparr>cap_used := (cap_used c)(leader \<mapsto> cap_count c leader + 1)\<rparr>"

definition release :: "int \<Rightarrow> connection_capacity \<Rightarrow> connection_capacity" where
  "release leader c =
     (case cap_used c leader of
        None \<Rightarrow> c
      | Some n \<Rightarrow>
          (let m = (if n = 0 then usize_max else n - 1)
           in c\<lparr>cap_used := (cap_used c)(leader := (if m = 0 then None else Some m))\<rparr>))"

record schedule_plan =
  sch_immediate :: bool
  sch_deadline :: "nat option"
  sch_settled :: bool

definition include_deadline :: "nat \<Rightarrow> nat \<Rightarrow> schedule_plan \<Rightarrow> schedule_plan" where
  "include_deadline deadline now sch =
     (if deadline \<le> now then sch\<lparr>sch_immediate := True\<rparr>
      else if (case sch_deadline sch of None \<Rightarrow> True | Some d \<Rightarrow> deadline < d)
      then sch\<lparr>sch_deadline := Some deadline\<rparr>
      else sch)"

definition include_delivery :: "sender \<Rightarrow> nat \<Rightarrow> nat \<Rightarrow> schedule_plan \<Rightarrow> schedule_plan" where
  "include_delivery s created_at now sch =
     (case delivery_deadline s created_at of
        Some d \<Rightarrow> include_deadline d now sch | None \<Rightarrow> sch)"

definition recovery_scan_needed :: "sender \<Rightarrow> bool" where
  "recovery_scan_needed s \<longleftrightarrow>
     recovery_generation s \<noteq> Some (txn_recovery_generation s)
     \<or> txn_recovery_required s \<or> fatal (txn_error s) \<noteq> None \<or> abortable (txn_error s) \<noteq> None"

definition schedule_retry ::
    "sender \<Rightarrow> nat \<Rightarrow> connection_capacity \<Rightarrow> prepared_batch \<Rightarrow> schedule_plan \<Rightarrow> schedule_plan" where
  "schedule_retry s now capacity pb sch0 =
     (let sch = sch0\<lparr>sch_settled := False\<rparr>
      in if drained_barrier s (pb_generation pb) \<noteq> None then sch\<lparr>sch_immediate := True\<rparr>
         else let sch1 = include_delivery s (pb_created_at pb) now sch
           in if available capacity (resolve_leader s (pb_key pb)) then
                (case pb_backoff_until pb of
                   Some t \<Rightarrow> include_deadline t now sch1
                 | None \<Rightarrow> sch1\<lparr>sch_immediate := True\<rparr>)
              else sch1)"

definition batch_barred :: "sender \<Rightarrow> in_progress_batch \<Rightarrow> bool" where
  "batch_barred s b \<longleftrightarrow> undrained_barrier s (transaction_generation b) \<noteq> None"

definition linger_deadline :: "sender \<Rightarrow> nat \<Rightarrow> in_progress_batch \<Rightarrow> nat" where
  "linger_deadline s now b =
     (let t = first_append_at b + cfg_linger s in if t \<le> cfg_instant_max s then t else now)"

definition schedule_accumulator ::
    "sender \<Rightarrow> nat \<Rightarrow> bool \<Rightarrow> topic_partition set \<Rightarrow> connection_capacity
       \<Rightarrow> topic_partition \<times> accumulator \<Rightarrow> schedule_plan \<Rightarrow> schedule_plan" where
  "schedule_accumulator s now force occupied capacity ka sch0 =
     (let key = fst ka; acc = snd ka;
          has_current = (case acc_current acc of Some b \<Rightarrow> batch_records b \<noteq> [] | None \<Rightarrow> False);
          has_ready = (acc_ready acc \<noteq> [])
      in if \<not> has_current \<and> \<not> has_ready then sch0
         else let sch = sch0\<lparr>sch_settled := False\<rparr>;
                  sch1 = (case acc_ready acc of
                      b # _ \<Rightarrow> include_delivery s (first_append_at b) now sch
                    | [] \<Rightarrow> (case acc_current acc of
                        Some b \<Rightarrow> include_delivery s (first_append_at b) now sch | None \<Rightarrow> sch))
           in if recovery_scan_needed s
                 \<and> ((case acc_current acc of Some b \<Rightarrow> batch_barred s b | None \<Rightarrow> False)
                    \<or> list_ex (batch_barred s) (acc_ready acc))
              then sch1\<lparr>sch_immediate := True\<rparr>
              else if map_of (retry s) key \<noteq> None \<or> key \<in> occupied
                      \<or> \<not> available capacity (resolve_leader s key)
              then sch1
              else let sch2 = (if has_ready then sch1\<lparr>sch_immediate := True\<rparr> else sch1)
                in case acc_current acc of
                     None \<Rightarrow> sch2
                   | Some b \<Rightarrow>
                       (if batch_records b = [] then sch2
                        else if force \<or> batch_barred s b then sch2\<lparr>sch_immediate := True\<rparr>
                        else include_deadline (linger_deadline s now b) now sch2))"

definition schedule ::
    "nat \<Rightarrow> bool \<Rightarrow> topic_partition set \<Rightarrow> connection_capacity \<Rightarrow> sender \<Rightarrow> schedule_plan" where
  "schedule now force occupied capacity s =
     fold (schedule_accumulator s now force occupied capacity) (accumulators s)
       (fold (schedule_retry s now capacity) (map snd (retry s))
          \<lparr>sch_immediate = False, sch_deadline = None,
           sch_settled = (retry s = [] \<and> in_flight s = 0)\<rparr>)"

section \<open>Failing and expiring batches\<close>

primrec fail_recovered_batches :: "prepared_batch list \<Rightarrow> sender \<Rightarrow> prepared_batch list \<times> sender" where
  "fail_recovered_batches [] s = ([], s)"
| "fail_recovered_batches (pb # pbs) s =
     (case drained_barrier s (pb_generation pb) of
        Some b \<Rightarrow> fail_recovered_batches pbs
                    (finish_in_flight (fail_batch (pb_records pb) (barrier_error b) s))
      | None \<Rightarrow> (case fail_recovered_batches pbs s of (retained, s') \<Rightarrow> (pb # retained, s')))"

text \<open>Removing one retry slot whose batch a barrier stops.\<close>

definition fail_slot :: "topic_partition \<times> barrier \<Rightarrow> sender \<Rightarrow> sender" where
  "fail_slot kb s =
     (case map_of (retry s) (fst kb) of
        None \<Rightarrow> s
      | Some pb \<Rightarrow> finish_in_flight (fail_batch (pb_records pb) (barrier_error (snd kb))
                     (s\<lparr>retry := AList.delete (fst kb) (retry s)\<rparr>)))"

definition fail_recovered_retry_slots :: "sender \<Rightarrow> sender" where
  "fail_recovered_retry_slots s =
     fold fail_slot
       (List.map_filter (\<lambda>(key, pb). map_option (Pair key) (drained_barrier s (pb_generation pb))) (retry s))
       s"

text \<open>\<open>retain_mut\<close> over the ready batches: the ones that stay, and the state that failed the others.\<close>

primrec retain_ready ::
    "in_progress_batch list \<Rightarrow> sender \<Rightarrow> in_progress_batch list \<times> sender" where
  "retain_ready [] s = ([], s)"
| "retain_ready (b # bs) s =
     (case undrained_barrier s (transaction_generation b) of
        Some bar \<Rightarrow> retain_ready bs (fail_batch (batch_records b) (barrier_error bar) s)
      | None \<Rightarrow> (case retain_ready bs s of (kept, s') \<Rightarrow> (b # kept, s')))"

definition recover_accumulator :: "topic_partition \<Rightarrow> sender \<Rightarrow> sender" where
  "recover_accumulator key s =
     (case map_of (accumulators s) key of
        None \<Rightarrow> s
      | Some acc \<Rightarrow>
          (let (cur, s1) = (case acc_current acc of
                 None \<Rightarrow> (None, s)
               | Some b \<Rightarrow>
                   (case undrained_barrier s (transaction_generation b) of
                      Some bar \<Rightarrow> (None, fail_batch (batch_records b) (barrier_error bar) s)
                    | None \<Rightarrow> (Some b, s)));
               (kept, s2) = retain_ready (acc_ready acc) s1
           in set_acc key (acc\<lparr>acc_current := cur, acc_ready := kept\<rparr>) s2))"

definition fail_recovered_accumulator_batches :: "sender \<Rightarrow> sender" where
  "fail_recovered_accumulator_batches s =
     (if \<not> recovery_scan_needed s then s
      else (fold recover_accumulator (map fst (accumulators s)) s)
             \<lparr>recovery_generation := Some (txn_recovery_generation s)\<rparr>)"

definition take_expired :: "sender \<Rightarrow> nat \<Rightarrow> accumulator \<Rightarrow> in_progress_batch list \<times> accumulator" where
  "take_expired s now acc =
     (let late = (\<lambda>b. reached_delivery_timeout s (first_append_at b) now);
          expired = takeWhile late (acc_ready acc);
          rest = dropWhile late (acc_ready acc)
      in if rest = [] then
           (case acc_current acc of
              Some b \<Rightarrow>
                (if batch_records b \<noteq> [] \<and> late b
                 then (expired @ [b], acc\<lparr>acc_current := None, acc_ready := []\<rparr>)
                 else (expired, acc\<lparr>acc_ready := []\<rparr>))
            | None \<Rightarrow> (expired, acc\<lparr>acc_ready := []\<rparr>))
         else (expired, acc\<lparr>acc_ready := rest\<rparr>))"

definition take_expired_accumulator_batches :: "nat \<Rightarrow> sender \<Rightarrow> in_progress_batch list \<times> sender" where
  "take_expired_accumulator_batches now s =
     (concat (map (\<lambda>(k, a). fst (take_expired s now a)) (accumulators s)),
      s\<lparr>accumulators := map (\<lambda>(k, a). (k, snd (take_expired s now a))) (accumulators s)\<rparr>)"

definition fail_unsent :: "in_progress_batch \<Rightarrow> sender \<Rightarrow> sender" where
  "fail_unsent b s =
     fail_batch (batch_records b) SendTimeout
       (if transaction_generation b \<noteq> None
        then s\<lparr>txn_error := set_abortable_timeout (txn_error s)\<rparr> else s)"

definition fail_unsent_batches :: "in_progress_batch list \<Rightarrow> sender \<Rightarrow> sender" where
  "fail_unsent_batches expired s = fold fail_unsent expired s"

definition fail_expired_accumulator_batches :: "nat \<Rightarrow> sender \<Rightarrow> sender" where
  "fail_expired_accumulator_batches now s =
     (case take_expired_accumulator_batches now s of (expired, s') \<Rightarrow> fail_unsent_batches expired s')"

definition expire_batches ::
    "init_answer \<Rightarrow> prepared_batch list \<Rightarrow> prepared_batch list \<Rightarrow> sender \<Rightarrow> sender" where
  "expire_batches answer expired to_send s =
     (let (bump, repairs) =
            fold (\<lambda>pb. record_repair pb (repair_after_failure (batch_mode_of (pb_record_batch pb))))
              expired (False, []);
          s1 = (if bump then snd (bump_idempotent_epoch answer s) else fold apply_repair repairs s);
          s2 = fold park to_send s1
      in fold (\<lambda>pb. terminal_fail_batch pb SendTimeout) expired s2)"

section \<open>One drain cycle\<close>

definition pop_ready_batch :: "topic_partition \<Rightarrow> sender \<Rightarrow> in_progress_batch option \<times> sender" where
  "pop_ready_batch key s =
     (case map_of (accumulators s) key of
        None \<Rightarrow> (None, s)
      | Some acc \<Rightarrow>
          (case acc_ready acc of
             [] \<Rightarrow> (None, s)
           | b # bs \<Rightarrow>
               (Some b, (set_acc key (acc\<lparr>acc_ready := bs\<rparr>) s)\<lparr>in_flight := in_flight s + 1\<rparr>)))"

definition should_seal :: "sender \<Rightarrow> drain_intent \<Rightarrow> nat \<Rightarrow> accumulator \<Rightarrow> bool" where
  "should_seal s intent now acc =
     (case acc_current acc of
        None \<Rightarrow> False
      | Some b \<Rightarrow> batch_records b \<noteq> []
          \<and> (intent = DrainForce \<or> batch_barred s b
             \<or> (intent = DrainExpired \<and> now - first_append_at b \<ge> cfg_linger s)))"

record drain_cycle =
  dc_sender :: sender
  dc_slots :: connection_capacity
  dc_routes :: "int list"
  dc_to_send :: "prepared_batch list"
  dc_occupied :: "topic_partition set"

text \<open>The resends: a batch goes out when its connection has a free slot, and is parked otherwise.\<close>

definition route_retry :: "prepared_batch \<Rightarrow> drain_cycle \<Rightarrow> drain_cycle" where
  "route_retry pb d =
     (let leader = resolve_leader (dc_sender d) (pb_key pb)
      in if available (dc_slots d) leader
         then d\<lparr>dc_slots := reserve leader (dc_slots d), dc_routes := dc_routes d @ [leader],
                dc_to_send := dc_to_send d @ [pb]\<rparr>
         else d\<lparr>dc_sender := park pb (dc_sender d)\<rparr>)"

definition drain_key :: "drain_intent \<Rightarrow> nat \<Rightarrow> topic_partition \<Rightarrow> drain_cycle \<Rightarrow> drain_cycle" where
  "drain_key intent now key d =
     (let s = dc_sender d;
          leader = resolve_leader s key;
          waits_for_resend = (key \<in> dc_occupied d)
      in case map_of (accumulators s) key of
           None \<Rightarrow> d
         | Some acc \<Rightarrow>
             (if \<not> available (dc_slots d) leader \<or> waits_for_resend then
                (if availability_timeout (pt_config (sd_partitioner s)) \<noteq> 0
                    \<and> waits_for_resend \<and> queue_size acc > 0
                 then d\<lparr>dc_sender := note_node_latency key now False s\<rparr> else d)
              else let s1 = (if should_seal s intent now acc
                             then set_acc key (seal_current acc) s else s)
                in case pop_ready_batch key s1 of
                     (None, s2) \<Rightarrow> d\<lparr>dc_sender := s2\<rparr>
                   | (Some b, s2) \<Rightarrow>
                       (let s3 = note_node_latency key now True s2
                        in case undrained_barrier s3 (transaction_generation b) of
                             Some bar \<Rightarrow> d\<lparr>dc_sender := finish_in_flight
                               (fail_batch (batch_records b) (barrier_error bar) s3)\<rparr>
                           | None \<Rightarrow>
                               (let (pb, s4) = prepare_batch key b s3
                                in \<lparr>dc_sender = s4, dc_slots = reserve leader (dc_slots d),
                                    dc_routes = dc_routes d @ [leader],
                                    dc_to_send = dc_to_send d @ [pb],
                                    dc_occupied = insert key (dc_occupied d)\<rparr>))))"

text \<open>The new batches of a cycle, after the resends have their connections.\<close>

definition drain_new ::
    "drain_intent \<Rightarrow> nat \<Rightarrow> topic_partition set \<Rightarrow> drain_cycle \<Rightarrow> drain_cycle" where
  "drain_new intent now active d =
     (let s = fold (\<lambda>pb. note_node_latency (pb_key pb) now True) (dc_to_send d) (dc_sender d)
      in fold (drain_key intent now) (map fst (accumulators s))
           (d\<lparr>dc_sender := s,
              dc_occupied := set (map pb_key (dc_to_send d)) \<union> fst ` set (retry s) \<union> active\<rparr>))"

definition drain_batches ::
    "drain_intent \<Rightarrow> nat \<Rightarrow> init_answer \<Rightarrow> topic_partition set \<Rightarrow> connection_capacity \<Rightarrow> sender
       \<Rightarrow> (int \<times> prepared_batch) list \<times> sender" where
  "drain_batches intent now answer active capacity s =
     (if lifecycle s \<noteq> STATE_ACTIVE then ([], fence [] s)
      else
        let s1 = fail_expired_accumulator_batches now (fail_recovered_retry_slots
                   (fail_recovered_accumulator_batches (update_partition_load_stats s)));
            (to_send, expired, s2) = collect_retries now usize_max s1
        in if expired \<noteq> [] then ([], expire_batches answer expired to_send s2)
           else
             let (pending, s3) = fail_recovered_batches to_send s2;
                 d = fold route_retry pending
                   \<lparr>dc_sender = s3, dc_slots = capacity, dc_routes = [], dc_to_send = [],
                    dc_occupied = {}\<rparr>;
                 (ok, s4) = (if sd_producer_epoch (dc_sender d) = i16_max
                             then bump_idempotent_epoch answer (dc_sender d)
                             else (True, dc_sender d))
             in if \<not> ok then ([], fold park (dc_to_send d) s4)
                else let d' = drain_new intent now active (d\<lparr>dc_sender := s4\<rparr>)
                  in (zip (dc_routes d') (dc_to_send d'), dc_sender d'))"

section \<open>Sending one batch\<close>

datatype records_payload = RawRecords bytes | BatchRecords record_batch

record produce_request =
  rq_transactional_id :: "string option"
  rq_acks :: int
  rq_timeout_ms :: int
  rq_topic :: string
  rq_topic_id :: nat
  rq_partition :: int
  rq_records :: records_payload

record partition_response =
  pr_index :: int
  pr_error_code :: int
  pr_base_offset :: int
  pr_log_append_time_ms :: int
  pr_log_start_offset :: int
  pr_leader_id :: int

record topic_response =
  tr_name :: string
  tr_topic_id :: nat
  tr_partitions :: "partition_response list"

text \<open>
  What lies outside: the record codec at a compression level, the answer to a produce request,
  whether a one-way request was queued, and the clock.
\<close>

record produce_transport =
  encode_level :: "record_batch \<Rightarrow> int \<Rightarrow> bytes option"
  send_produce :: "int option \<Rightarrow> produce_request \<Rightarrow> topic_response list option"
  send_no_response :: "int option \<Rightarrow> produce_request \<Rightarrow> bool"
  clock_now :: nat

definition build_single_batch_request ::
    "produce_transport \<Rightarrow> sender \<Rightarrow> prepared_batch \<Rightarrow> produce_request option" where
  "build_single_batch_request net s pb =
     (let payload = (case cfg_compression_level s of
            Some level \<Rightarrow> map_option RawRecords (encode_level net (pb_record_batch pb) level)
          | None \<Rightarrow> Some (BatchRecords (pb_record_batch pb)))
      in map_option (\<lambda>records.
           \<lparr>rq_transactional_id = (if rb_transactional (pb_record_batch pb)
                                   then cfg_transactional_id s else None),
            rq_acks = acks_wire (cfg_acks s), rq_timeout_ms = cfg_request_timeout_ms s,
            rq_topic = pb_topic pb, rq_topic_id = pb_topic_id pb,
            rq_partition = pb_partition pb, rq_records = records\<rparr>) payload)"

text \<open>A failed send: back off, note the failure, ask for a resend.\<close>

definition resend ::
    "produce_transport \<Rightarrow> sender \<Rightarrow> prepared_batch \<Rightarrow> batch_verdict \<Rightarrow> send_failure \<Rightarrow> bool
       \<Rightarrow> batch_send_result" where
  "resend net s pb verdict failure refresh =
     \<lparr>sr_pb = (back_off s (clock_now net) pb)\<lparr>pb_last_failure := Some failure\<rparr>,
      sr_verdict = verdict, sr_refresh_needed = refresh\<rparr>"

definition find_partition :: "prepared_batch \<Rightarrow> topic_response list \<Rightarrow> partition_response option" where
  "find_partition pb responses =
     Option.bind (List.find (\<lambda>t. tr_name t = pb_topic pb
                                 \<or> (pb_topic_id pb \<noteq> 0 \<and> tr_topic_id t = pb_topic_id pb)) responses)
       (\<lambda>t. List.find (\<lambda>p. pr_index p = pb_partition pb) (tr_partitions t))"

definition interpret_response ::
    "produce_transport \<Rightarrow> prepared_batch \<Rightarrow> topic_response list \<Rightarrow> int option \<Rightarrow> sender
       \<Rightarrow> batch_send_result \<times> sender" where
  "interpret_response net pb responses last_acked s =
     (case find_partition pb responses of
        None \<Rightarrow> (resend net s pb RetryVerdict FailureTransport True, s)
      | Some p \<Rightarrow>
          (let answer = \<lparr>pa_error_code = pr_error_code p, pa_base_offset = pr_base_offset p,
                 pa_log_append_time_ms = pr_log_append_time_ms p,
                 pa_log_start_offset = pr_log_start_offset p\<rparr>
           in case classify_verdict answer (batch_mode_of (pb_record_batch pb)) last_acked
                     (length (pb_records pb)) of
                Verdict verdict \<Rightarrow>
                  (if verdict \<in> {RetryVerdict, BumpEpochAndRetry, RestartSequenceAndRetry}
                   then (resend net s pb verdict (FailureCode (pr_error_code p)) False, s)
                   else (\<lparr>sr_pb = pb, sr_verdict = verdict, sr_refresh_needed = False\<rparr>, s))
              | Routing \<Rightarrow>
                  (let hint = pr_leader_id p
                   in if hint \<ge> 0
                      then (resend net s pb RetryVerdict (FailureCode (pr_error_code p))
                              (\<not> knows_broker s hint),
                            s\<lparr>partition_leaders := (partition_leaders s)(pb_key pb \<mapsto> hint)\<rparr>)
                      else (resend net s pb RetryVerdict (FailureCode (pr_error_code p)) True, s))))"

definition refresh_topic_id :: "sender \<Rightarrow> prepared_batch \<Rightarrow> prepared_batch" where
  "refresh_topic_id s pb =
     (case metadata_cache s (pb_topic pb) of
        Some m \<Rightarrow> if md_topic_id m \<noteq> 0 then pb\<lparr>pb_topic_id := md_topic_id m\<rparr> else pb
      | None \<Rightarrow> pb)"

definition evict_leader :: "int \<Rightarrow> sender \<Rightarrow> sender" where
  "evict_leader leader s =
     (if leader \<noteq> BOOTSTRAP_LEADER then s\<lparr>evicted := evicted s @ [leader]\<rparr> else s)"

definition send_one_batch_to_leader ::
    "produce_transport \<Rightarrow> prepared_batch \<Rightarrow> int option \<Rightarrow> int \<Rightarrow> sender
       \<Rightarrow> batch_send_result \<times> sender" where
  "send_one_batch_to_leader net pb0 last_acked leader s =
     (case drained_barrier s (pb_generation pb0) of
        Some b \<Rightarrow> (\<lparr>sr_pb = pb0, sr_verdict = Barred b, sr_refresh_needed = False\<rparr>, s)
      | None \<Rightarrow>
          (let pb = refresh_topic_id s pb0;
               route = (if leader = BOOTSTRAP_LEADER then None else Some leader)
           in case build_single_batch_request net s pb of
                None \<Rightarrow> (resend net s pb RetryVerdict FailureTransport False, s)
              | Some req \<Rightarrow>
                  (if cfg_acks s = AcksZero then
                     (if send_no_response net route req
                      then (\<lparr>sr_pb = pb, sr_verdict = Acked INVALID_OFFSET NO_TIMESTAMP,
                             sr_refresh_needed = False\<rparr>, s)
                      else (resend net s pb RetryVerdict FailureTransport True, evict_leader leader s))
                   else case send_produce net route req of
                     None \<Rightarrow> (resend net s pb RetryVerdict FailureTransport True, evict_leader leader s)
                   | Some responses \<Rightarrow> interpret_response net pb responses last_acked s)))"

section \<open>Metadata\<close>

record md_response_topic =
  mt_name :: "string option"
  mt_error_code :: int
  mt_topic_id :: nat
  mt_partitions :: "(int \<times> int) list"

definition adopt_topic :: "md_response_topic \<Rightarrow> sender \<Rightarrow> sender" where
  "adopt_topic t s =
     (case mt_name t of
        None \<Rightarrow> s
      | Some name \<Rightarrow>
          (if mt_error_code t \<noteq> 0 then s
           else let s1 = s\<lparr>partition_leaders :=
                    fold (\<lambda>(index, leader) m. m((name, index) \<mapsto> leader)) (mt_partitions t)
                      (partition_leaders s)\<rparr>;
                    n = length (mt_partitions t)
             in case metadata_cache s name of
                  None \<Rightarrow> s1
                | Some entry \<Rightarrow>
                    (if int n \<le> 2147483647 \<and> 0 < n
                     then s1\<lparr>metadata_cache := (metadata_cache s)(name \<mapsto>
                            entry\<lparr>num_partitions := int n, md_topic_id := mt_topic_id t\<rparr>)\<rparr>
                     else s1)))"

definition adopt_metadata :: "md_response_topic list \<Rightarrow> sender \<Rightarrow> sender" where
  "adopt_metadata md s = fold adopt_topic md s"

definition update_leaders_from_metadata :: "md_response_topic list option \<Rightarrow> sender \<Rightarrow> sender" where
  "update_leaders_from_metadata answer s =
     (case answer of Some md \<Rightarrow> adopt_metadata md s | None \<Rightarrow> s)"

section \<open>The loop\<close>

text \<open>
  The local state of \<open>drive\<close>.  A request holds the connection it uses, its batch and the last
  acked offset that was read when it was queued.
\<close>

record driver =
  dr_sender :: sender
  dr_requests :: "(int \<times> prepared_batch \<times> int option) list"
  dr_occupied :: "topic_partition set"
  dr_capacity :: connection_capacity
  dr_refreshing :: bool
  dr_force :: bool
  dr_stopping :: bool

definition driver_start :: "nat \<Rightarrow> sender \<Rightarrow> driver" where
  "driver_start max_in_flight s =
     \<lparr>dr_sender = s\<lparr>retry := [], last_acked_offset := Map.empty, latencies := Map.empty,
                     recovery_generation := None\<rparr>,
      dr_requests = [], dr_occupied = {},
      dr_capacity = \<lparr>cap_limit = max_in_flight, cap_used = Map.empty\<rparr>,
      dr_refreshing = False, dr_force = False, dr_stopping = False\<rparr>"

definition queue_request :: "int \<times> prepared_batch \<Rightarrow> driver \<Rightarrow> driver" where
  "queue_request lp d =
     (case lp of (leader, pb) \<Rightarrow>
        d\<lparr>dr_capacity := reserve leader (dr_capacity d),
          dr_occupied := insert (pb_key pb) (dr_occupied d),
          dr_requests := dr_requests d @ [(leader, pb, last_acked_offset (dr_sender d) (pb_key pb))]\<rparr>)"

definition drive_drain :: "nat \<Rightarrow> init_answer \<Rightarrow> driver \<Rightarrow> driver" where
  "drive_drain now answer d =
     (case drain_batches (if dr_force d then DrainForce else DrainExpired) now answer
             (dr_occupied d) (dr_capacity d) (dr_sender d) of
        (batches, s) \<Rightarrow> fold queue_request batches (d\<lparr>dr_sender := s\<rparr>))"

text \<open>The answers of the completed requests, each with what its send met.\<close>

primrec run_requests ::
    "(produce_transport \<times> int \<times> prepared_batch \<times> int option) list \<Rightarrow> sender
       \<Rightarrow> (int \<times> batch_send_result) list \<times> sender" where
  "run_requests [] s = ([], s)"
| "run_requests (r # rs) s =
     (case r of (net, leader, pb, last_acked) \<Rightarrow>
        (case send_one_batch_to_leader net pb last_acked leader s of
           (result, s1) \<Rightarrow>
             (case run_requests rs s1 of (results, s2) \<Rightarrow> ((leader, result) # results, s2))))"

definition drive_complete ::
    "(produce_transport \<times> int \<times> prepared_batch \<times> int option) list
       \<Rightarrow> (int \<times> prepared_batch \<times> int option) list \<Rightarrow> init_answer \<Rightarrow> driver \<Rightarrow> driver" where
  "drive_complete finished pending answer d =
     (case run_requests finished (dr_sender d) of
        (completed, s) \<Rightarrow>
          (case complete_batches answer (map snd completed) s of
             (refresh, s') \<Rightarrow>
               d\<lparr>dr_sender := s', dr_requests := pending,
                 dr_capacity := fold (\<lambda>c. release (fst c)) completed (dr_capacity d),
                 dr_occupied := dr_occupied d - set (map (\<lambda>c. pb_key (sr_pb (snd c))) completed),
                 dr_refreshing := dr_refreshing d \<or> refresh\<rparr>))"

text \<open>
  The append at the end of \<open>Producer::enqueue_inner\<close>, to the accumulator of the partition, which the
  loop there makes when the partition has none yet (\<open>or_insert_with\<close>).
\<close>

definition producer_append ::
    "topic_partition \<Rightarrow> bytes option \<Rightarrow> bytes option \<Rightarrow> header list \<Rightarrow> int \<Rightarrow> nat option
       \<Rightarrow> nat option \<Rightarrow> nat \<Rightarrow> nat \<Rightarrow> nat \<Rightarrow> sender \<Rightarrow> sender" where
  "producer_append key k v headers ts generation memory ack size_limit now s =
     (let acc = (case map_of (accumulators s) key of
            Some a \<Rightarrow> a | None \<Rightarrow> accumulator_new size_limit)
      in set_acc key (snd (append_record k v headers ts generation memory ack now acc)) s)"

text \<open>The queue of one partition in \<open>Producer::abort_undrained_batches\<close>.\<close>

definition producer_abort :: "topic_partition \<Rightarrow> sender \<Rightarrow> sender" where
  "producer_abort key s =
     (case map_of (accumulators s) key of
        None \<Rightarrow> s
      | Some acc \<Rightarrow>
          (case abort_undrained_batches acc of
             (failed, acc') \<Rightarrow>
               set_acc key acc' (s\<lparr>resolved := resolved s @ map (\<lambda>(h, e). (h, Inl e)) failed\<rparr>)))"

end
