(* ===== verification/Sender_Props.thy ===== *)
theory Sender_Props
  imports Sender_Drive
begin

text \<open>
  What the sender keeps of the records it was given.  \<open>balanced A P s\<close> says that the delivery
  handles \<open>A\<close> are exactly the resolved ones, the queued ones, those in the retry slots and those
  of the batches \<open>P\<close> that are in hand; that the batches in hand and the retry slots are on distinct
  partitions; and that \<open>in_flight\<close> counts them.  Each function of the sender keeps it, with the
  batches it takes or returns moving in and out of \<open>P\<close>.
\<close>

section \<open>The balance\<close>

definition pb_handles :: "prepared_batch \<Rightarrow> nat multiset" where
  "pb_handles pb = mset (map rec_ack (pb_records pb))"

definition queue_handles :: "(topic_partition \<times> accumulator) list \<Rightarrow> nat multiset" where
  "queue_handles accs = (\<Sum>ka\<leftarrow>accs. mset (queued (snd ka)))"

definition slot_handles :: "(topic_partition \<times> prepared_batch) list \<Rightarrow> nat multiset" where
  "slot_handles slots = (\<Sum>kp\<leftarrow>slots. pb_handles (snd kp))"

definition held_handles :: "prepared_batch list \<Rightarrow> nat multiset" where
  "held_handles pbs = (\<Sum>pb\<leftarrow>pbs. pb_handles pb)"

definition slots_wf :: "(topic_partition \<times> prepared_batch) list \<Rightarrow> bool" where
  "slots_wf slots \<longleftrightarrow> distinct (map fst slots) \<and> list_all (\<lambda>(k, pb). k = pb_key pb) slots"

definition balanced :: "nat multiset \<Rightarrow> prepared_batch list \<Rightarrow> sender \<Rightarrow> bool" where
  "balanced A P s \<longleftrightarrow>
     distinct (map fst (accumulators s)) \<and> slots_wf (retry s)
     \<and> distinct (map pb_key P) \<and> set (map pb_key P) \<inter> fst ` set (retry s) = {}
     \<and> in_flight s = length (retry s) + length P
     \<and> A = mset (map fst (resolved s)) + queue_handles (accumulators s)
           + slot_handles (retry s) + held_handles P"

lemma held_simps [simp]:
  "held_handles [] = {#}"
  "held_handles (pb # P) = pb_handles pb + held_handles P"
  "held_handles (P @ Q) = held_handles P + held_handles Q"
  by (simp_all add: held_handles_def)

lemma slot_simps [simp]:
  "slot_handles [] = {#}"
  "slot_handles (kp # slots) = pb_handles (snd kp) + slot_handles slots"
  "slot_handles (slots @ slots') = slot_handles slots + slot_handles slots'"
  by (simp_all add: slot_handles_def)

lemma queue_simps [simp]:
  "queue_handles [] = {#}"
  "queue_handles (ka # accs) = mset (queued (snd ka)) + queue_handles accs"
  by (simp_all add: queue_handles_def)

lemma held_perm: "mset P = mset Q \<Longrightarrow> held_handles P = held_handles Q"
  unfolding held_handles_def by (metis mset_map sum_mset_sum_list)

lemma balanced_perm:
  assumes "mset P = mset Q" "balanced A P s"
  shows "balanced A Q s"
proof -
  have "mset (map pb_key P) = mset (map pb_key Q)" using assms(1) by simp
  then have "distinct (map pb_key P) = distinct (map pb_key Q)"
    and "set (map pb_key P) = set (map pb_key Q)"
    by (rule mset_eq_imp_distinct_iff, rule mset_eq_setD)
  moreover have "length P = length Q" using assms(1) by (rule mset_eq_length)
  ultimately show ?thesis using assms held_perm [OF assms(1)] unfolding balanced_def by simp
qed

lemma balanced_cong:
  assumes "accumulators s' = accumulators s" "retry s' = retry s" "in_flight s' = in_flight s"
    and "resolved s' = resolved s"
  shows "balanced A P s' = balanced A P s"
  by (simp add: balanced_def assms)

lemma balanced_same_batch:
  assumes "balanced A (pb # P) s" "pb_key pb' = pb_key pb" "pb_records pb' = pb_records pb"
  shows "balanced A (pb' # P) s"
  using assms by (simp add: balanced_def pb_handles_def)

section \<open>Resolving, parking and splitting\<close>

lemma fail_batch_fields [simp]:
  "accumulators (fail_batch rs e s) = accumulators s" "retry (fail_batch rs e s) = retry s"
  "in_flight (fail_batch rs e s) = in_flight s"
  "map fst (resolved (fail_batch rs e s)) = map fst (resolved s) @ map rec_ack rs"
  by (simp_all add: fail_batch_def comp_def split: list.split)

lemma finish_fields [simp]:
  "accumulators (finish_in_flight s) = accumulators s" "retry (finish_in_flight s) = retry s"
  "resolved (finish_in_flight s) = resolved s"
  "in_flight s = Suc n \<Longrightarrow> in_flight (finish_in_flight s) = n"
  by (simp_all add: finish_in_flight_def)

lemma balanced_fail:
  assumes "balanced A (pb # P) s"
  shows "balanced A P (finish_in_flight (fail_batch (pb_records pb) e s))"
  using assms by (auto simp: balanced_def pb_handles_def simp del: mset_map)

lemma balanced_ack:
  assumes "balanced A (pb # P) s"
  shows "balanced A P (ack_batch pb off ts s)"
  using assms by (auto simp: balanced_def pb_handles_def ack_batch_def comp_def simp del: mset_map)

lemma update_new:
  "k \<notin> fst ` set xs \<Longrightarrow> AList.update k v xs = xs @ [(k, v)]"
  by (induction xs) auto

lemma balanced_park:
  assumes "balanced A (pb # P) s"
  shows "balanced A P (park pb s)"
  using assms by (auto simp: balanced_def park_def update_new slots_wf_def)

lemma balanced_fold:
  assumes "\<And>pb P s. balanced A (pb # P) s \<Longrightarrow> balanced A P (f pb s)"
  shows "balanced A (pbs @ P) s \<Longrightarrow> balanced A P (fold f pbs s)"
  by (induction pbs arbitrary: s) (auto intro: assms)

lemma queue_handles_update:
  assumes "map_of accs k = Some a" "distinct (map fst accs)"
  shows "queue_handles (AList.update k b accs) + mset (queued a) = queue_handles accs + mset (queued b)"
  using assms by (induction accs) (auto split: if_splits)

lemma queue_handles_insert:
  "map_of accs k = None \<Longrightarrow> queue_handles (AList.update k b accs) = queue_handles accs + mset (queued b)"
  by (induction accs) (auto split: if_splits)

lemma mset_exchange:
  fixes x x' q q' a b c d :: "'a multiset"
  assumes "x' + c = x + d" "q' + a = q + b" "a + c = b + d"
  shows "x' + q' = x + q"
proof (rule multiset_eqI)
  fix y
  have "count x' y + count c y = count x y + count d y"
    "count q' y + count a y = count q y + count b y" "count a y + count c y = count b y + count d y"
    using assms by (metis count_union)+
  then show "count (x' + q') y = count (x + q) y" by simp
qed

text \<open>Replacing the queue of a partition: what leaves it is accounted for elsewhere.\<close>

lemma balanced_set_acc:
  assumes "balanced A P s" "map_of (accumulators s) k = Some a"
    and "accumulators s' = AList.update k b (accumulators s)" "retry s' = retry s"
    and "in_flight s' = in_flight s"
    and "mset (map fst (resolved s')) = mset (map fst (resolved s)) + d"
    and "mset (queued a) = mset (queued b) + d"
  shows "balanced A P s'"
proof -
  have dist: "distinct (map fst (accumulators s))" using assms(1) by (simp add: balanced_def)
  have "mset (map fst (resolved s')) + queue_handles (accumulators s')
      = mset (map fst (resolved s)) + queue_handles (accumulators s)"
  proof (rule mset_exchange [where c = "{#}"])
    show "mset (map fst (resolved s')) + {#} = mset (map fst (resolved s)) + d"
      by (simp only: assms(6) add_0_right)
    show "queue_handles (accumulators s') + mset (queued a)
        = queue_handles (accumulators s) + mset (queued b)"
      unfolding assms(3) by (rule queue_handles_update [OF assms(2) dist])
    show "mset (queued a) + {#} = mset (queued b) + d" by (simp only: assms(7) add_0_right)
  qed
  then show ?thesis
    using assms(1,3-5) dist by (simp add: balanced_def AList.distinct_update del: mset_map)
qed

lemma queued_push_front: "queued (push_front rs g t acc) = map rec_ack rs @ queued acc"
  by (simp add: push_front_def queued_def acc_batches_def batch_new_def)

lemma set_acc_fields [simp]:
  "accumulators (set_acc k a s) = AList.update k a (accumulators s)" "retry (set_acc k a s) = retry s"
  "in_flight (set_acc k a s) = in_flight s" "resolved (set_acc k a s) = resolved s"
  by (simp_all add: set_acc_def)

lemma balanced_split:
  assumes "balanced A (pb # P) s"
  shows "balanced A P (split_and_requeue pb bumped s)"
proof -
  define s1 where "s1 = (if batch_mode_of (pb_record_batch pb) \<noteq> PlainMode \<and> \<not> bumped
    then s\<lparr>next_seq := (next_seq s)(pb_key pb \<mapsto> pb_base_sequence pb)\<rparr> else s)"
  have b1: "balanced A (pb # P) s1" using assms by (simp add: s1_def balanced_def)
  let ?n = "length (pb_records pb) div 2"
  have parts: "pb_handles pb = mset (map rec_ack (take ?n (pb_records pb)))
      + mset (map rec_ack (drop ?n (pb_records pb)))"
    by (metis append_take_drop_id map_append mset_append pb_handles_def)
  show ?thesis
  proof (cases "map_of (accumulators s1) (pb_key pb)")
    case None
    then have "split_and_requeue pb bumped s = finish_in_flight
        (fail_batch (drop ?n (pb_records pb)) (ProducerServer MESSAGE_TOO_LARGE)
          (fail_batch (take ?n (pb_records pb)) (ProducerServer MESSAGE_TOO_LARGE) s1))"
      by (simp add: split_and_requeue_def s1_def [symmetric] Let_def)
    then show ?thesis using b1 parts by (auto simp: balanced_def simp del: mset_map)
  next
    case (Some acc)
    define acc' where "acc' = push_front (take ?n (pb_records pb)) (pb_generation pb) (pb_created_at pb)
      (push_front (drop ?n (pb_records pb)) (pb_generation pb) (pb_created_at pb) acc)"
    have eq: "split_and_requeue pb bumped s = finish_in_flight (set_acc (pb_key pb) acc' s1)"
      using Some by (simp add: split_and_requeue_def s1_def [symmetric] Let_def acc'_def)
    have q: "mset (queued acc') = pb_handles pb + mset (queued acc)"
      by (simp only: acc'_def queued_push_front mset_append parts add.assoc)
    have "queue_handles (AList.update (pb_key pb) acc' (accumulators s1)) + mset (queued acc)
        = queue_handles (accumulators s1) + mset (queued acc')"
      using Some b1 by (intro queue_handles_update) (simp_all add: balanced_def)
    then have "queue_handles (AList.update (pb_key pb) acc' (accumulators s1))
        = queue_handles (accumulators s1) + pb_handles pb"
      unfolding q by (metis add.assoc add_right_cancel)
    then show ?thesis using b1 unfolding eq
      by (auto simp: balanced_def AList.distinct_update ac_simps simp del: mset_map)
  qed
qed

lemma fail_all_fenced_fold:
  "fail_all_fenced pbs s = fold (\<lambda>pb s. finish_in_flight (fail_batch (pb_records pb) FencedProducer s)) pbs s"
  by (induction pbs arbitrary: s) simp_all

lemma balanced_take_slots:
  assumes "balanced A P s"
  shows "balanced A (map snd (retry s) @ P) (s\<lparr>retry := []\<rparr>)"
proof -
  have keys: "map pb_key (map snd (retry s)) = map fst (retry s)"
    using assms by (auto simp: balanced_def slots_wf_def list_all_iff)
  have "slot_handles (retry s) = held_handles (map snd (retry s))"
    by (simp add: slot_handles_def held_handles_def comp_def)
  then show ?thesis
    using assms keys unfolding balanced_def map_append keys
    by (auto simp: slots_wf_def ac_simps simp del: map_map mset_map)
qed

lemma foldl_fail_fields:
  "accumulators (foldl (\<lambda>s b. fail_batch (f b) e s) s bs) = accumulators s"
  "retry (foldl (\<lambda>s b. fail_batch (f b) e s) s bs) = retry s"
  "in_flight (foldl (\<lambda>s b. fail_batch (f b) e s) s bs) = in_flight s"
  "map fst (resolved (foldl (\<lambda>s b. fail_batch (f b) e s) s bs))
     = map fst (resolved s) @ concat (map (\<lambda>b. map rec_ack (f b)) bs)"
  by (induction bs arbitrary: s) simp_all

lemma balanced_fence_accumulator:
  assumes "balanced A P s"
  shows "balanced A P (fence_accumulator key s)"
proof (cases "map_of (accumulators s) key = None \<or> lock_held s key")
  case True
  then show ?thesis using assms by (auto simp: fence_accumulator_def split: option.splits)
next
  case False
  then obtain acc where acc: "map_of (accumulators s) key = Some acc" "\<not> lock_held s key" by auto
  show ?thesis
    by (rule balanced_set_acc [OF assms acc(1), where b = "acc\<lparr>acc_current := None, acc_ready := []\<rparr>"
          and d = "mset (queued acc)"])
      (use acc in \<open>auto simp: fence_accumulator_def Let_def foldl_fail_fields queued_def acc_batches_def
        simp del: mset_map split: option.splits\<close>)
qed

lemma balanced_fold_keep:
  assumes "\<And>x s. balanced A P s \<Longrightarrow> balanced A P (f x s)"
  shows "balanced A P s \<Longrightarrow> balanced A P (fold f xs s)"
  by (induction xs arbitrary: s) (auto intro: assms)

lemma balanced_fence:
  assumes "balanced A (to_fail @ P) s"
  shows "balanced A P (fence to_fail s)"
proof -
  define s1 where "s1 = s\<lparr>lifecycle := (if lifecycle s = STATE_ACTIVE then STATE_FENCED else lifecycle s)\<rparr>"
  define s2 where "s2 = fail_all_fenced to_fail s1"
  define s3 where "s3 = fail_all_fenced (map snd (retry s2)) (s2\<lparr>retry := []\<rparr>)"
  have "balanced A (to_fail @ P) s1" using assms by (simp add: s1_def balanced_def)
  then have "balanced A P s2"
    unfolding s2_def fail_all_fenced_fold by (intro balanced_fold balanced_fail)
  then have "balanced A (map snd (retry s2) @ P) (s2\<lparr>retry := []\<rparr>)" by (rule balanced_take_slots)
  then have "balanced A P s3"
    unfolding s3_def fail_all_fenced_fold by (intro balanced_fold balanced_fail)
  then have "balanced A P (fold fence_accumulator (map fst (accumulators s3)) s3)"
    by (intro balanced_fold_keep balanced_fence_accumulator)
  then show ?thesis by (simp add: fence_def s1_def s2_def s3_def Let_def)
qed

lemma balanced_terminal:
  assumes "balanced A (pb # P) s"
  shows "balanced A P (terminal_fail_batch pb e s)"
  unfolding terminal_fail_batch_def Let_def
  by (rule balanced_fail) (use assms in \<open>simp add: balanced_def\<close>)

section \<open>A completion cycle\<close>

definition cycle_held :: "cycle_verdicts \<Rightarrow> prepared_batch list" where
  "cycle_held cv = (case cv_fenced cv of Some pbs \<Rightarrow> pbs | None \<Rightarrow> [])
     @ cv_restarts cv @ cv_rewrites cv @ cv_splits cv @ map fst (cv_failed cv)"

lemma ack_fields [simp]:
  "retry (record_ack pb off s) = retry s" "accumulators (record_ack pb off s) = accumulators s"
  "in_flight (record_ack pb off s) = in_flight s" "resolved (record_ack pb off s) = resolved s"
  by (simp_all add: record_ack_def Let_def)

lemma fatal_fields [simp]:
  "retry (record_transaction_fatal_error pb c s) = retry s"
  "accumulators (record_transaction_fatal_error pb c s) = accumulators s"
  "in_flight (record_transaction_fatal_error pb c s) = in_flight s"
  "resolved (record_transaction_fatal_error pb c s) = resolved s"
  by (simp_all add: record_transaction_fatal_error_def)

lemma balanced_cycle_fenced:
  assumes "balanced A (pb # cycle_held cv @ P) s" "cv_fenced cv = Some to_fail"
    and "cycle_record_fenced to_fail pb v cv s = (cv', s')"
  shows "balanced A (cycle_held cv' @ P) s'"
proof -
  have fat: "balanced A (pb # cycle_held cv @ P) (record_transaction_fatal_error pb c s)" for c
    using assms(1) by (simp cong: balanced_cong)
  have perm: "balanced A (cycle_held (cv\<lparr>cv_fenced := Some (to_fail @ [pb])\<rparr>) @ P) s"
    by (rule balanced_perm [OF _ assms(1)]) (use assms(2) in \<open>simp add: cycle_held_def\<close>)
  show ?thesis
    using assms(3) balanced_ack [OF assms(1)] balanced_terminal [OF assms(1)] balanced_fail [OF fat]
      balanced_fail [OF assms(1)] perm
    by (cases v) (auto simp: cycle_record_fenced_def)
qed

lemma take_retry_same:
  "take_retry pb n = (b, pb') \<Longrightarrow> pb_key pb' = pb_key pb \<and> pb_records pb' = pb_records pb"
  by (auto simp: take_retry_def pb_key_def split: if_splits)

lemma balanced_cycle_retry:
  assumes "balanced A (pb # cycle_held cv @ P) s" "cv_fenced cv = None"
    and "cycle_retry pb v cv s = (cv', s')"
  shows "balanced A (cycle_held cv' @ P) s'"
proof -
  obtain spent pb' where tr: "take_retry pb (cfg_retries s) = (spent, pb')" by fastforce
  have b: "balanced A (pb' # cycle_held cv @ P) s"
    using balanced_same_batch [OF assms(1)] take_retry_same [OF tr] by blast
  show ?thesis
  proof (cases "cv_restarts cv' = cv_restarts cv \<and> cv_rewrites cv' = cv_rewrites cv
      \<and> cv_failed cv' = cv_failed cv")
    case True
    then have "s' = park pb' s \<and> cv' = cv"
      using assms(3) tr by (auto simp: cycle_retry_def split: batch_verdict.splits prod.splits bool.splits)
    then show ?thesis using balanced_park [OF b] by simp
  next
    case False
    then have "s' = s" "mset (pb' # cycle_held cv @ P) = mset (cycle_held cv' @ P)"
      using assms(2,3) tr
      by (auto simp: cycle_retry_def cycle_held_def split: batch_verdict.splits prod.splits bool.splits)
    then show ?thesis using balanced_perm b by blast
  qed
qed

lemma balanced_cycle_record:
  assumes "balanced A (sr_pb res # cycle_held cv @ P) s" "cycle_record res (cv, s) = (cv', s')"
  shows "balanced A (cycle_held cv' @ P) s'"
proof -
  define cv1 where "cv1 = cv\<lparr>cv_needs_refresh := cv_needs_refresh cv \<or> sr_refresh_needed res\<rparr>"
  have held: "cycle_held cv1 = cycle_held cv" "cv_fenced cv1 = cv_fenced cv"
    by (simp_all add: cv1_def cycle_held_def)
  note b = assms(1) [folded held(1)]
  show ?thesis
  proof (cases "cv_fenced cv1")
    case (Some to_fail)
    then show ?thesis using balanced_cycle_fenced [OF b Some] assms(2)
      by (simp add: cycle_record_def Let_def cv1_def [symmetric])
  next
    case None
    have eq: "(case sr_verdict res of
        Acked off lat \<Rightarrow> (cv1, ack_batch (sr_pb res) off lat (record_ack (sr_pb res) off s))
      | Terminal code repair \<Rightarrow>
          (let (bump, repairs) = record_repair (sr_pb res) repair (cv_bump_epoch cv1, cv_repairs cv1)
           in (cv1\<lparr>cv_bump_epoch := bump, cv_repairs := repairs,
                  cv_failed := cv_failed cv1 @ [(sr_pb res, ProducerServer code)]\<rparr>, s))
      | Split \<Rightarrow> (cv1\<lparr>cv_splits := cv_splits cv1 @ [sr_pb res]\<rparr>, s)
      | FatalVerdict code \<Rightarrow> (cv1\<lparr>cv_fenced := Some []\<rparr>,
          finish_in_flight (fail_batch (pb_records (sr_pb res)) (fatal_code_error code)
            (record_transaction_fatal_error (sr_pb res) code s)))
      | Barred bar \<Rightarrow> (cv1, finish_in_flight (fail_batch (pb_records (sr_pb res)) (barrier_error bar) s))
      | v \<Rightarrow> cycle_retry (sr_pb res) v cv1 s) = (cv', s')"
      using assms(2) None by (simp add: cycle_record_def Let_def cv1_def [symmetric] split: batch_verdict.splits)
    have ack: "balanced A (sr_pb res # cycle_held cv1 @ P) (record_ack (sr_pb res) off s)" for off
      using b by (simp cong: balanced_cong)
    have fat: "balanced A (sr_pb res # cycle_held cv1 @ P) (record_transaction_fatal_error (sr_pb res) c s)" for c
      using b by (simp cong: balanced_cong)
    have perm: "balanced A (cycle_held cv' @ P) s"
      if "mset (sr_pb res # cycle_held cv1) = mset (cycle_held cv')"
      by (rule balanced_perm [OF _ b]) (use that in simp)
    show ?thesis
      using eq balanced_cycle_retry [OF b None] balanced_ack [OF ack] balanced_fail [OF fat]
        balanced_fail [OF b] perm None
      by (cases "sr_verdict res") (auto simp: cycle_held_def split: prod.splits)
  qed
qed

lemma balanced_fold_failed:
  "balanced A (map fst failed @ P) s
     \<Longrightarrow> balanced A P (fold (\<lambda>(pb, err). terminal_fail_batch pb err) failed s)"
proof (induction failed arbitrary: s)
  case (Cons x failed)
  then have "balanced A (map fst failed @ P) (terminal_fail_batch (fst x) (snd x) s)"
    by (intro balanced_terminal) simp
  from Cons.IH [OF this] show ?case by (simp add: case_prod_beta)
qed simp

lemma bump_fields [simp]:
  "accumulators (snd (bump_idempotent_epoch ans s)) = accumulators s"
  "retry (snd (bump_idempotent_epoch ans s)) = retry s"
  "in_flight (snd (bump_idempotent_epoch ans s)) = in_flight s"
  "resolved (snd (bump_idempotent_epoch ans s)) = resolved s"
  by (simp_all add: bump_idempotent_epoch_def split: option.split prod.split)

lemma balanced_bump [simp]: "balanced A P (snd (bump_idempotent_epoch ans s)) = balanced A P s"
  by (rule balanced_cong) simp_all

lemma balanced_repairs [simp]: "balanced A P (fold apply_repair rs s) = balanced A P s"
proof (induction rs arbitrary: s)
  case (Cons r rs)
  have "balanced A P (apply_repair r s) = balanced A P s"
    by (rule balanced_cong) (simp_all add: apply_repair_def split: prod.split)
  then show ?case using Cons by simp
qed simp

lemma balanced_restart_and_park:
  assumes "balanced A (pb # P) s"
  shows "balanced A P (restart_and_park pb s)"
proof -
  obtain pb' s' where r: "restart_sequence pb s = (pb', s')" by fastforce
  then have "balanced A (pb' # P) s'"
    using balanced_same_batch [OF assms, of pb'] balanced_cong [of s' s]
    by (auto simp: restart_sequence_def pb_key_def)
  then show ?thesis using r by (simp add: restart_and_park_def balanced_park)
qed

lemma balanced_rewrite_and_park:
  assumes "balanced A (pb # P) s"
  shows "balanced A P (rewrite_and_park pb s)"
proof -
  let ?pb = "pb\<lparr>pb_record_batch := (pb_record_batch pb)
    \<lparr>rb_producer_id := sd_producer_id s, rb_producer_epoch := sd_producer_epoch s\<rparr>\<rparr>"
  have "balanced A (?pb # P) s"
    by (rule balanced_same_batch [OF assms]) (simp_all add: pb_key_def)
  then have "balanced A P (restart_and_park ?pb s)" by (rule balanced_restart_and_park)
  then show ?thesis by (simp add: rewrite_and_park_def restart_and_park_def)
qed

lemma balanced_cycle_apply:
  assumes "balanced A (cycle_held cv @ P) s"
  shows "balanced A P (snd (cycle_apply ans cv s))"
proof (cases "cv_fenced cv")
  case (Some to_fail)
  have "balanced A (map fst (cv_failed cv) @ (to_fail @ cv_restarts cv @ cv_rewrites cv @ cv_splits cv) @ P) s"
    by (rule balanced_perm [OF _ assms]) (simp add: cycle_held_def Some)
  from balanced_fence [OF balanced_fold_failed [OF this]] show ?thesis
    by (simp add: cycle_apply_def Some)
next
  case None
  obtain bumped s1 where b: "(if cv_bump_epoch cv \<or> cv_rewrites cv \<noteq> []
      then bump_idempotent_epoch ans s else (False, s)) = (bumped, s1)" by fastforce
  then have s1: "s1 = s \<or> s1 = snd (bump_idempotent_epoch ans s)" by (auto split: if_splits)
  let ?tail = "cv_restarts cv @ cv_splits cv @ map fst (cv_failed cv) @ P"
  define s2 where "s2 = (if bumped then fold rewrite_and_park (cv_rewrites cv) s1
    else fold park (cv_rewrites cv) s1)"
  have "balanced A (cv_rewrites cv @ ?tail) s"
    by (rule balanced_perm [OF _ assms]) (simp add: cycle_held_def None)
  then have "balanced A (cv_rewrites cv @ ?tail) s1" using s1 by auto
  then have "balanced A ?tail s2" unfolding s2_def
    by (auto intro: balanced_fold balanced_park balanced_rewrite_and_park)
  then have "balanced A ?tail (fold apply_repair (cv_repairs cv) s2)" by simp
  then have "balanced A (cv_splits cv @ map fst (cv_failed cv) @ P)
      (fold restart_and_park (cv_restarts cv) (fold apply_repair (cv_repairs cv) s2))"
    by (rule balanced_fold [where f = restart_and_park, rotated]) (rule balanced_restart_and_park)
  then have "balanced A (map fst (cv_failed cv) @ P) (fold (\<lambda>pb. split_and_requeue pb bumped) (cv_splits cv)
      (fold restart_and_park (cv_restarts cv) (fold apply_repair (cv_repairs cv) s2)))"
    by (rule balanced_fold [where f = "\<lambda>pb. split_and_requeue pb bumped", rotated]) (rule balanced_split)
  from balanced_fold_failed [OF this] show ?thesis
    by (simp add: cycle_apply_def None b s2_def Let_def)
qed

lemma balanced_complete:
  assumes "balanced A (map sr_pb results @ P) s"
  shows "balanced A P (snd (complete_batches ans results s))"
proof -
  have "balanced A (map sr_pb rs @ cycle_held cv @ P) s' \<Longrightarrow> fold cycle_record rs (cv, s') = (cv1, s1)
      \<Longrightarrow> balanced A (cycle_held cv1 @ P) s1" for rs cv s' cv1 s1
  proof (induction rs arbitrary: cv s')
    case (Cons r rs)
    obtain cv2 s2 where r: "cycle_record r (cv, s') = (cv2, s2)" by fastforce
    have "balanced A (sr_pb r # cycle_held cv @ (map sr_pb rs @ P)) s'"
      by (rule balanced_perm [OF _ Cons.prems(1)]) simp
    from balanced_cycle_record [OF this r]
    have "balanced A (map sr_pb rs @ cycle_held cv2 @ P) s2"
      by (rule balanced_perm [rotated]) simp
    then show ?case using Cons.IH Cons.prems(2) r by simp
  qed simp
  from this [of results cycle_default s] show ?thesis
    using assms balanced_cycle_apply
    by (auto simp: complete_batches_def cycle_held_def cycle_default_def split: prod.split)
qed

section \<open>A drain\<close>

lemma balanced_fail_recovered:
  "balanced A (pbs @ P) s \<Longrightarrow> fail_recovered_batches pbs s = (kept, s') \<Longrightarrow> balanced A (kept @ P) s'"
proof (induction pbs arbitrary: s kept P)
  case (Cons pb pbs)
  show ?case
  proof (cases "drained_barrier s (pb_generation pb)")
    case None
    then obtain kept' where k: "fail_recovered_batches pbs s = (kept', s')" "kept = pb # kept'"
      using Cons.prems(2) by (auto split: prod.splits)
    have "balanced A (pbs @ (pb # P)) s" by (rule balanced_perm [OF _ Cons.prems(1)]) simp
    from Cons.IH [OF this k(1)] show ?thesis unfolding k(2) by (rule balanced_perm [rotated]) simp
  next
    case (Some b)
    then show ?thesis using Cons.IH [OF balanced_fail] Cons.prems by simp
  qed
qed simp

lemma delete_split:
  assumes "map_of xs k = Some v" "distinct (map fst xs)"
  shows "\<exists>ys zs. xs = ys @ (k, v) # zs \<and> AList.delete k xs = ys @ zs"
  using assms
proof (induction xs)
  case (Cons x xs)
  show ?case
  proof (cases "fst x = k")
    case True
    then have "k \<notin> fst ` set xs" using Cons.prems(2) by auto
    then have "AList.delete k xs = xs" by (simp add: AList.delete_eq filter_id_conv) force
    then show ?thesis using Cons.prems True
      by (intro exI [of _ "[]"] exI [of _ xs]) (cases x, auto simp: AList.delete_eq)
  next
    case False
    then obtain ys zs where "xs = ys @ (k, v) # zs" "AList.delete k xs = ys @ zs"
      using Cons by (cases x) auto
    then show ?thesis using False
      by (intro exI [of _ "x # ys"] exI [of _ zs]) (cases x, auto simp: AList.delete_eq)
  qed
qed simp

lemma in_fst: "(k, v) \<in> set xs \<Longrightarrow> k \<in> fst ` set xs"
  by force

lemma balanced_fail_slot:
  assumes "balanced A P s"
  shows "balanced A P (fail_slot kb s)"
proof (cases "map_of (retry s) (fst kb)")
  case (Some pb)
  then obtain ys zs where r: "retry s = ys @ (fst kb, pb) # zs" "AList.delete (fst kb) (retry s) = ys @ zs"
    using delete_split assms by (metis balanced_def slots_wf_def)
  have "balanced A (pb # P) (s\<lparr>retry := ys @ zs\<rparr>)"
    using assms by (auto simp: balanced_def slots_wf_def r(1) ac_simps simp del: mset_map dest: in_fst)
  then show ?thesis using Some balanced_fail r(2) by (simp add: fail_slot_def)
qed (use assms in \<open>simp add: fail_slot_def\<close>)

lemma balanced_fail_slots: "balanced A P s \<Longrightarrow> balanced A P (fail_recovered_retry_slots s)"
  unfolding fail_recovered_retry_slots_def by (intro balanced_fold_keep balanced_fail_slot)

definition batch_handles :: "in_progress_batch list \<Rightarrow> nat multiset" where
  "batch_handles bs = mset (concat (map (\<lambda>b. map rec_ack (batch_records b)) bs))"

lemma batch_handles_simps [simp]:
  "batch_handles [] = {#}"
  "batch_handles (b # bs) = mset (map rec_ack (batch_records b)) + batch_handles bs"
  "batch_handles (bs @ bs') = batch_handles bs + batch_handles bs'"
  by (simp_all add: batch_handles_def)

lemma mset_queued:
  "mset (queued acc) = batch_handles (acc_ready acc)
     + (case acc_current acc of Some b \<Rightarrow> mset (map rec_ack (batch_records b)) | None \<Rightarrow> {#})"
  by (simp add: queued_def acc_batches_def batch_handles_def split: option.split)

lemma retain_ready_fields:
  "retain_ready bs s = (kept, s') \<Longrightarrow>
     accumulators s' = accumulators s \<and> retry s' = retry s \<and> in_flight s' = in_flight s
     \<and> (\<exists>d. mset (map fst (resolved s')) = mset (map fst (resolved s)) + d
            \<and> batch_handles bs = batch_handles kept + d)"
proof (induction bs arbitrary: s kept)
  case (Cons b bs)
  show ?case
  proof (cases "undrained_barrier s (transaction_generation b)")
    case None
    then show ?thesis using Cons by (force split: prod.splits simp: ac_simps simp del: mset_map)
  next
    case (Some bar)
    then obtain d where "accumulators s' = accumulators s" "retry s' = retry s" "in_flight s' = in_flight s"
      "mset (map fst (resolved s')) = mset (map fst (resolved s)) + mset (map rec_ack (batch_records b)) + d"
      "batch_handles bs = batch_handles kept + d"
      using Cons.IH [of "fail_batch (batch_records b) (barrier_error bar) s" kept] Cons.prems by auto
    then show ?thesis
      by (intro conjI exI [of _ "mset (map rec_ack (batch_records b)) + d"])
        (simp_all add: ac_simps del: mset_map)
  qed
qed simp

lemma balanced_recover_accumulator:
  assumes "balanced A P s"
  shows "balanced A P (recover_accumulator key s)"
proof (cases "map_of (accumulators s) key")
  case (Some acc)
  obtain cur s1 where c: "(case acc_current acc of
      None \<Rightarrow> (None, s)
    | Some b \<Rightarrow> (case undrained_barrier s (transaction_generation b) of
         Some bar \<Rightarrow> (None, fail_batch (batch_records b) (barrier_error bar) s)
       | None \<Rightarrow> (Some b, s))) = (cur, s1)" by fastforce
  obtain kept s2 where k: "retain_ready (acc_ready acc) s1 = (kept, s2)" by fastforce
  let ?ch = "\<lambda>c. case c of Some b \<Rightarrow> mset (map rec_ack (batch_records b)) | None \<Rightarrow> {#}"
  have f1: "accumulators s1 = accumulators s" "retry s1 = retry s" "in_flight s1 = in_flight s"
    using c by (auto split: option.splits)
  consider "cur = acc_current acc" "s1 = s"
    | b bar where "acc_current acc = Some b" "cur = None" "s1 = fail_batch (batch_records b) bar s"
    using c by (auto split: option.splits)
  then have "\<exists>d1. mset (map fst (resolved s1)) = mset (map fst (resolved s)) + d1
      \<and> ?ch (acc_current acc) = ?ch cur + d1"
    by cases (simp_all del: mset_map)
  then obtain d1 where d1: "mset (map fst (resolved s1)) = mset (map fst (resolved s)) + d1"
    "?ch (acc_current acc) = ?ch cur + d1" by blast
  obtain d2 where d2: "mset (map fst (resolved s2)) = mset (map fst (resolved s1)) + d2"
    "batch_handles (acc_ready acc) = batch_handles kept + d2"
    using retain_ready_fields [OF k] by auto
  have eq: "recover_accumulator key s = set_acc key (acc\<lparr>acc_current := cur, acc_ready := kept\<rparr>) s2"
    using Some c k by (simp add: recover_accumulator_def)
  show ?thesis
    by (rule balanced_set_acc [OF assms Some, where b = "acc\<lparr>acc_current := cur, acc_ready := kept\<rparr>"
          and d = "d1 + d2"])
      (use f1 retain_ready_fields [OF k] in
        \<open>simp_all add: eq d1 d2 mset_queued add.assoc add.left_commute add.commute del: mset_map\<close>)
qed (use assms in \<open>simp add: recover_accumulator_def\<close>)

lemma balanced_recovered_accumulators:
  assumes "balanced A P s"
  shows "balanced A P (fail_recovered_accumulator_batches s)"
proof (cases "recovery_scan_needed s")
  case True
  have "balanced A P (fold recover_accumulator (map fst (accumulators s)) s)"
    using assms by (intro balanced_fold_keep balanced_recover_accumulator)
  then show ?thesis using True by (simp add: fail_recovered_accumulator_batches_def balanced_def)
qed (use assms in \<open>simp add: fail_recovered_accumulator_batches_def\<close>)

lemma take_expired_handles:
  "mset (queued acc) = mset (queued (snd (take_expired s now acc))) + batch_handles (fst (take_expired s now acc))"
proof -
  define late where "late = (\<lambda>b :: in_progress_batch. reached_delivery_timeout s (first_append_at b) now)"
  have "batch_handles (acc_ready acc) = batch_handles (takeWhile late (acc_ready acc))
      + batch_handles (dropWhile late (acc_ready acc))"
    by (metis batch_handles_simps(3) takeWhile_dropWhile_id)
  then show ?thesis
    by (cases "dropWhile late (acc_ready acc) = []")
      (simp_all add: take_expired_def Let_def mset_queued late_def [symmetric] ac_simps
        del: dropWhile_eq_Nil_conv mset_map split: option.split)
qed

lemma fail_unsent_fields:
  "accumulators (fail_unsent_batches bs s) = accumulators s"
  "retry (fail_unsent_batches bs s) = retry s"
  "in_flight (fail_unsent_batches bs s) = in_flight s"
  "mset (map fst (resolved (fail_unsent_batches bs s))) = mset (map fst (resolved s)) + batch_handles bs"
proof -
  show "accumulators (fail_unsent_batches bs s) = accumulators s"
    "retry (fail_unsent_batches bs s) = retry s" "in_flight (fail_unsent_batches bs s) = in_flight s"
    by (induction bs arbitrary: s) (simp_all add: fail_unsent_batches_def fail_unsent_def)
  show "mset (map fst (resolved (fail_unsent_batches bs s)))
      = mset (map fst (resolved s)) + batch_handles bs"
  proof (induction bs arbitrary: s)
    case (Cons b bs)
    have "map fst (resolved (fail_unsent b s)) = map fst (resolved s) @ map rec_ack (batch_records b)"
      by (simp add: fail_unsent_def)
    then show ?case using Cons [of "fail_unsent b s"]
      by (simp add: fail_unsent_batches_def add.assoc del: mset_map)
  qed (simp add: fail_unsent_batches_def)
qed

lemma balanced_expired_accumulators:
  assumes "balanced A P s"
  shows "balanced A P (fail_expired_accumulator_batches now s)"
proof -
  let ?ex = "concat (map (\<lambda>(k, a). fst (take_expired s now a)) (accumulators s))"
  let ?accs = "map (\<lambda>(k, a). (k, snd (take_expired s now a))) (accumulators s)"
  have "queue_handles accs = queue_handles (map (\<lambda>(k, a). (k, snd (take_expired s now a))) accs)
      + batch_handles (concat (map (\<lambda>(k, a). fst (take_expired s now a)) accs))" for accs
  proof (induction accs)
    case (Cons ka accs)
    then show ?case
      using take_expired_handles [of "snd ka" s now] by (simp add: case_prod_beta add.assoc add.left_commute)
  qed simp
  then have "queue_handles (accumulators s) = queue_handles ?accs + batch_handles ?ex" .
  moreover have "map fst ?accs = map fst (accumulators s)" by (simp add: case_prod_beta comp_def)
  ultimately show ?thesis
    using assms unfolding balanced_def fail_expired_accumulator_batches_def
    by (simp add: take_expired_accumulator_batches_def fail_unsent_fields ac_simps del: mset_map map_map)
qed

lemma collect_loop_split:
  assumes "collect_loop s now m slots (ts, ex, pk) = (ts', ex', pk')"
    and "list_all (\<lambda>(k, pb). k = pb_key pb) slots" "list_all (\<lambda>(k, pb). k = pb_key pb) pk"
  shows "list_all (\<lambda>(k, pb). k = pb_key pb) pk'
    \<and> mset (map pb_key ts') + mset (map pb_key ex') + mset (map fst pk')
        = mset (map pb_key ts) + mset (map pb_key ex) + mset (map fst pk) + mset (map fst slots)
    \<and> held_handles ts' + held_handles ex' + slot_handles pk'
        = held_handles ts + held_handles ex + slot_handles pk + slot_handles slots"
  using assms
proof (induction slots arbitrary: ts ex pk)
  case (Cons x slots)
  obtain pb where x: "x = (pb_key pb, pb)" using Cons.prems(2) by (cases x) auto
  have same: "pb_key (pb\<lparr>pb_backoff_until := None\<rparr>) = pb_key pb"
    "pb_handles (pb\<lparr>pb_backoff_until := None\<rparr>) = pb_handles pb"
    by (simp_all add: pb_key_def pb_handles_def)
  show ?case
  proof (cases "reached_delivery_timeout s (pb_created_at pb) now")
    case True
    then show ?thesis using Cons.IH [of ts "ex @ [pb]" pk] Cons.prems x by simp
  next
    case False
    then show ?thesis
      using Cons.IH [of ts ex "pk @ [(pb_key pb, pb)]"] Cons.IH [of "ts @ [pb\<lparr>pb_backoff_until := None\<rparr>]" ex pk]
        Cons.prems x by (auto simp: same split: if_splits)
  qed
qed simp

lemma fold_update_new:
  "distinct (map fst xs) \<Longrightarrow> fst ` set xs \<inter> fst ` set ys = {}
     \<Longrightarrow> fold (\<lambda>(k, v). AList.update k v) xs ys = ys @ xs"
proof (induction xs arbitrary: ys)
  case (Cons x xs)
  obtain k v where [simp]: "x = (k, v)" by fastforce
  have "fold (\<lambda>(k, v). AList.update k v) xs (ys @ [(k, v)]) = (ys @ [(k, v)]) @ xs"
    using Cons.prems by (intro Cons.IH) auto
  then show ?case using Cons.prems by (simp add: update_new)
qed simp

lemma balanced_collect:
  assumes "balanced A P s" "collect_retries now m s = (ts, ex, s')"
  shows "balanced A (ts @ ex @ P) s'"
proof -
  obtain pk where c: "collect_loop s now m (retry s) ([], [], []) = (ts, ex, pk)"
    and s': "s' = s\<lparr>retry := fold (\<lambda>(key, pb). AList.update key pb) pk []\<rparr>"
    using assms(2) by (auto simp: collect_retries_def split: prod.splits)
  have slots: "distinct (map fst (retry s))" "list_all (\<lambda>(k, pb). k = pb_key pb) (retry s)"
    using assms(1) by (simp_all add: balanced_def slots_wf_def)
  note split = collect_loop_split [OF c slots(2), simplified]
  have keys: "mset (map pb_key (ts @ ex) @ map fst pk) = mset (map fst (retry s))"
    using split by (simp add: add.assoc)
  then have dist: "distinct (map pb_key (ts @ ex) @ map fst pk)"
    and sets: "set (map pb_key (ts @ ex)) \<union> fst ` set pk = fst ` set (retry s)"
    using slots(1) mset_eq_imp_distinct_iff [OF keys] mset_eq_setD [OF keys] by auto
  have len: "length ts + length ex + length pk = length (retry s)"
    using mset_eq_length [OF keys] by simp
  have retry: "retry s' = pk" using dist by (simp add: s' fold_update_new)
  have P: "distinct (map pb_key P)" "set (map pb_key P) \<inter> fst ` set (retry s) = {}"
    using assms(1) by (simp_all add: balanced_def)
  have off: "set (map pb_key (ts @ ex)) \<inter> set (map pb_key P) = {}" "set (map pb_key P) \<inter> fst ` set pk = {}"
    using P(2) sets by blast+
  have off': "set (map pb_key (ts @ ex)) \<inter> fst ` set pk = {}"
    using dist by (simp add: Int_Un_distrib Int_Un_distrib2)
  have d: "distinct (map pb_key (ts @ ex @ P))"
    using P(1) dist off(1) by (metis append.assoc distinct_append map_append)
  have k: "set (map pb_key (ts @ ex @ P)) \<inter> fst ` set (retry s') = {}"
    using off(2) off' unfolding retry by (metis Int_Un_distrib2 Un_empty append.assoc map_append set_append)
  have h: "held_handles ts + held_handles ex + slot_handles pk = slot_handles (retry s)"
    and l: "list_all (\<lambda>(k, pb). k = pb_key pb) pk"
    using split by blast+
  have "A = mset (map fst (resolved s)) + queue_handles (accumulators s)
      + slot_handles pk + held_handles (ts @ ex @ P)"
    using assms(1) by (simp add: balanced_def h [symmetric] ac_simps del: mset_map)
  moreover have "in_flight s' = length (retry s') + length (ts @ ex @ P)"
    using assms(1) len retry by (simp add: balanced_def s')
  moreover have "slots_wf (retry s')" using dist l retry by (simp add: slots_wf_def)
  ultimately show ?thesis using assms(1) d k unfolding balanced_def retry by (simp add: s' del: mset_map)
qed

lemma balanced_expire:
  assumes "balanced A (ts @ ex @ P) s"
  shows "balanced A P (expire_batches ans ex ts s)"
proof -
  obtain bump repairs where r: "fold (\<lambda>pb. record_repair pb
      (repair_after_failure (batch_mode_of (pb_record_batch pb)))) ex (False, []) = (bump, repairs)"
    by fastforce
  let ?s1 = "if bump then snd (bump_idempotent_epoch ans s) else fold apply_repair repairs s"
  have "balanced A (ts @ ex @ P) ?s1" using assms by simp
  then have "balanced A (ex @ P) (fold park ts ?s1)"
    by (rule balanced_fold [where f = park, rotated]) (rule balanced_park)
  then have "balanced A P (fold (\<lambda>pb. terminal_fail_batch pb SendTimeout) ex (fold park ts ?s1))"
    by (rule balanced_fold [where f = "\<lambda>pb. terminal_fail_batch pb SendTimeout", rotated])
      (rule balanced_terminal)
  then show ?thesis using r by (simp add: expire_batches_def Let_def)
qed

definition drain_inv :: "nat multiset \<Rightarrow> prepared_batch list \<Rightarrow> connection_capacity \<Rightarrow> drain_cycle \<Rightarrow> bool" where
  "drain_inv A P cap d \<longleftrightarrow>
     balanced A (dc_to_send d @ P) (dc_sender d) \<and> length (dc_routes d) = length (dc_to_send d)
     \<and> cap_limit (dc_slots d) = cap_limit cap
     \<and> (\<forall>l. cap_count (dc_slots d) l = cap_count cap l + count_list (dc_routes d) l)
     \<and> (\<forall>l. 0 < count_list (dc_routes d) l \<longrightarrow> cap_count (dc_slots d) l \<le> cap_limit cap)"

definition covers :: "prepared_batch list \<Rightarrow> drain_cycle \<Rightarrow> bool" where
  "covers P d \<longleftrightarrow>
     pb_key ` set (dc_to_send d @ P) \<union> fst ` set (retry (dc_sender d)) \<subseteq> dc_occupied d"

lemma reserve_simps [simp]:
  "cap_limit (reserve l c) = cap_limit c"
  "cap_count (reserve l c) l' = cap_count c l' + (if l' = l then 1 else 0)"
  by (simp_all add: reserve_def cap_count_def)

lemma count_list_snoc [simp]: "count_list (xs @ [x]) y = count_list xs y + (if x = y then 1 else 0)"
  by (induction xs) simp_all

lemma drain_inv_send:
  assumes "drain_inv A P cap d" "available (dc_slots d) l"
    and "balanced A ((dc_to_send d @ [pb]) @ P) s"
    and "d' = d\<lparr>dc_sender := s, dc_slots := reserve l (dc_slots d), dc_routes := dc_routes d @ [l],
              dc_to_send := dc_to_send d @ [pb], dc_occupied := occ\<rparr>"
  shows "drain_inv A P cap d'"
  using assms by (auto simp: drain_inv_def available_def)

lemma drain_inv_keep:
  assumes "drain_inv A P cap d" "balanced A (dc_to_send d @ P) s"
  shows "drain_inv A P cap (d\<lparr>dc_sender := s\<rparr>)" "drain_inv A P cap (d\<lparr>dc_sender := s, dc_occupied := occ\<rparr>)"
  using assms by (auto simp: drain_inv_def)

lemma drain_inv_route:
  assumes "drain_inv A (pbs @ P) cap d"
  shows "drain_inv A P cap (fold route_retry pbs d)"
  using assms
proof (induction pbs arbitrary: d)
  case (Cons pb pbs)
  have b: "balanced A (dc_to_send d @ (pb # pbs @ P)) (dc_sender d)"
    using Cons.prems by (simp add: drain_inv_def)
  have "drain_inv A (pbs @ P) cap (route_retry pb d)"
  proof (cases "available (dc_slots d) (resolve_leader (dc_sender d) (pb_key pb))")
    case True
    then show ?thesis using Cons.prems by (auto simp: route_retry_def drain_inv_def available_def Let_def)
  next
    case False
    have "balanced A (pb # dc_to_send d @ pbs @ P) (dc_sender d)"
      by (rule balanced_perm [OF _ b]) simp
    from balanced_park [OF this] show ?thesis
      using False Cons.prems by (auto simp: route_retry_def drain_inv_def Let_def)
  qed
  then show ?case using Cons.IH by simp
qed simp

lemma latency_fields [simp]:
  "accumulators (note_node_latency k t b s) = accumulators s" "retry (note_node_latency k t b s) = retry s"
  "in_flight (note_node_latency k t b s) = in_flight s" "resolved (note_node_latency k t b s) = resolved s"
  by (simp_all add: note_node_latency_def Let_def split: option.split)

lemma balanced_latency [simp]: "balanced A P (note_node_latency k t b s) = balanced A P s"
  by (rule balanced_cong) simp_all

lemma balanced_latencies [simp]:
  "balanced A P (fold (\<lambda>pb. note_node_latency (g pb) t b) pbs s) = balanced A P s"
  by (induction pbs arbitrary: s) simp_all

lemma load_stats_fields [simp]:
  "balanced A P (update_partition_load_stats s) = balanced A P s"
  by (rule balanced_cong) (simp_all add: update_partition_load_stats_def)

lemma prepare_batch_fields:
  "prepare_batch key b s = (pb, s') \<Longrightarrow> pb_key pb = key \<and> pb_records pb = batch_records b
     \<and> accumulators s' = accumulators s \<and> retry s' = retry s \<and> in_flight s' = in_flight s
     \<and> resolved s' = resolved s"
  by (auto simp: prepare_batch_def Let_def pb_key_def)

text \<open>Taking the oldest ready batch of an idle partition in hand.\<close>

lemma balanced_pop:
  assumes "balanced A P s" "pop_ready_batch key s = (Some b, s1)"
    and "key \<notin> pb_key ` set P" "key \<notin> fst ` set (retry s)"
    and "pb_key pb = key" "pb_records pb = batch_records b"
    and "accumulators s' = accumulators s1" "retry s' = retry s1" "in_flight s' = in_flight s1"
    and "resolved s' = resolved s1"
  shows "balanced A (pb # P) s'"
proof -
  obtain acc bs where acc: "map_of (accumulators s) key = Some acc" "acc_ready acc = b # bs"
    and s1: "s1 = (set_acc key (acc\<lparr>acc_ready := bs\<rparr>) s)\<lparr>in_flight := in_flight s + 1\<rparr>"
    using assms(2) by (auto simp: pop_ready_batch_def split: option.splits list.splits)
  have dist: "distinct (map fst (accumulators s))" using assms(1) by (simp add: balanced_def)
  have "queue_handles (AList.update key (acc\<lparr>acc_ready := bs\<rparr>) (accumulators s)) + mset (queued acc)
      = queue_handles (accumulators s) + mset (queued (acc\<lparr>acc_ready := bs\<rparr>))"
    by (rule queue_handles_update [OF acc(1) dist])
  moreover have "mset (queued acc) = pb_handles pb + mset (queued (acc\<lparr>acc_ready := bs\<rparr>))"
    using acc(2) assms(6) by (simp add: mset_queued pb_handles_def ac_simps del: mset_map)
  ultimately have "queue_handles (accumulators s)
      = queue_handles (AList.update key (acc\<lparr>acc_ready := bs\<rparr>) (accumulators s)) + pb_handles pb"
    by (metis add.assoc add_right_cancel)
  then show ?thesis
    using assms(1,3-5) dist unfolding balanced_def assms(7-10) s1
    by (simp add: AList.distinct_update ac_simps del: mset_map)
qed

lemma seal_queued: "mset (queued (seal_current acc)) = mset (queued acc)"
  by (auto simp: seal_current_def mset_queued split: option.split)

lemma covers_note: "covers P d \<Longrightarrow> retry s = retry (dc_sender d) \<Longrightarrow> covers P (d\<lparr>dc_sender := s\<rparr>)"
  by (simp add: covers_def)

lemma drain_inv_key:
  assumes "drain_inv A P cap d" "covers P d"
  shows "drain_inv A P cap (drain_key intent now key d) \<and> covers P (drain_key intent now key d)"
proof -
  let ?s = "dc_sender d" and ?l = "resolve_leader (dc_sender d) key"
  show ?thesis
  proof (cases "map_of (accumulators ?s) key")
    case None
    then show ?thesis using assms by (simp add: drain_key_def Let_def)
  next
    case (Some acc)
    have bal: "balanced A (dc_to_send d @ P) ?s" using assms(1) by (simp add: drain_inv_def)
    show ?thesis
    proof (cases "\<not> available (dc_slots d) ?l \<or> key \<in> dc_occupied d")
      case True
      then have "drain_key intent now key d = d
          \<or> drain_key intent now key d = d\<lparr>dc_sender := note_node_latency key now False ?s\<rparr>"
        using Some by (auto simp: drain_key_def Let_def)
      then show ?thesis
        using assms drain_inv_keep(1) [OF assms(1), of "note_node_latency key now False ?s"] bal
          covers_note [OF assms(2)] by auto
    next
      case False
      define s1 where "s1 = (if should_seal ?s intent now acc then set_acc key (seal_current acc) ?s else ?s)"
      have b1: "balanced A (dc_to_send d @ P) s1"
        using bal balanced_set_acc [OF bal Some, of "set_acc key (seal_current acc) ?s" "seal_current acc" "{#}"]
        by (simp add: s1_def seal_queued)
      have r1: "retry s1 = retry ?s" by (simp add: s1_def)
      have fresh: "key \<notin> pb_key ` set (dc_to_send d @ P)" "key \<notin> fst ` set (retry s1)"
        using False assms(2) r1 by (auto simp: covers_def)
      obtain popped s2 where p: "pop_ready_batch key s1 = (popped, s2)" by fastforce
      have r2: "retry s2 = retry s1"
        using p by (auto simp: pop_ready_batch_def split: option.splits list.splits)
      show ?thesis
      proof (cases popped)
        case None
        then have "s2 = s1" using p by (auto simp: pop_ready_batch_def split: option.splits list.splits)
        then have "drain_key intent now key d = d\<lparr>dc_sender := s1\<rparr>"
          using Some False p None by (simp add: drain_key_def Let_def s1_def [symmetric])
        then show ?thesis
          using drain_inv_keep(1) [OF assms(1) b1] covers_note [OF assms(2) r1] by simp
      next
        case (Some b)
        define s3 where "s3 = note_node_latency key now True s2"
        obtain pb s4 where pr: "prepare_batch key b s3 = (pb, s4)" by fastforce
        note f = prepare_batch_fields [OF pr]
        have eq: "drain_key intent now key d = (case undrained_barrier s3 (transaction_generation b) of
             Some bar \<Rightarrow> d\<lparr>dc_sender := finish_in_flight (fail_batch (batch_records b) (barrier_error bar) s3)\<rparr>
           | None \<Rightarrow> d\<lparr>dc_sender := s4, dc_slots := reserve ?l (dc_slots d), dc_routes := dc_routes d @ [?l],
                 dc_to_send := dc_to_send d @ [pb], dc_occupied := insert key (dc_occupied d)\<rparr>)"
          using \<open>map_of (accumulators ?s) key = Some acc\<close> False p Some pr
          by (simp add: drain_key_def Let_def s1_def [symmetric] s3_def [symmetric] split: option.split)
        show ?thesis
        proof (cases "undrained_barrier s3 (transaction_generation b)")
          case None
          have "balanced A (pb # dc_to_send d @ P) s4"
            using f by (intro balanced_pop [OF b1 p [unfolded Some] fresh]) (simp_all add: s3_def)
          then have "balanced A ((dc_to_send d @ [pb]) @ P) s4" by (rule balanced_perm [rotated]) simp
          then show ?thesis
            using drain_inv_send [OF assms(1), of ?l pb s4 "drain_key intent now key d"] False None eq f r1 r2 assms(2)
            by (auto simp: covers_def s3_def)
        next
          case (Some bar)
          have "balanced A (pb # dc_to_send d @ P) s3"
            using f by (intro balanced_pop [OF b1 p [unfolded \<open>popped = Some b\<close>] fresh]) (simp_all add: s3_def)
          from balanced_fail [OF this] f show ?thesis
            using eq Some drain_inv_keep(1) [OF assms(1)] covers_note [OF assms(2)] r1 r2
            by (simp add: s3_def)
        qed
      qed
    qed
  qed
qed

lemma drain_inv_keys:
  "drain_inv A P cap d \<Longrightarrow> covers P d \<Longrightarrow> drain_inv A P cap (fold (drain_key intent now) keys d)"
  by (induction keys arbitrary: d) (use drain_inv_key in auto)

lemma drain_inv_new:
  assumes "drain_inv A P cap d" "pb_key ` set P \<subseteq> active"
  shows "drain_inv A P cap (drain_new intent now active d)"
proof -
  define s where "s = fold (\<lambda>pb. note_node_latency (pb_key pb) now True) (dc_to_send d) (dc_sender d)"
  let ?d = "d\<lparr>dc_sender := s,
    dc_occupied := set (map pb_key (dc_to_send d)) \<union> fst ` set (retry s) \<union> active\<rparr>"
  have "drain_inv A P cap ?d"
    using assms(1) by (intro drain_inv_keep(2)) (auto simp: s_def drain_inv_def)
  moreover have "covers P ?d" using assms(2) by (auto simp: covers_def)
  ultimately show ?thesis unfolding drain_new_def s_def [symmetric] Let_def by (rule drain_inv_keys)
qed

definition fits :: "connection_capacity \<Rightarrow> (int \<times> prepared_batch) list \<Rightarrow> bool" where
  "fits cap out \<longleftrightarrow>
     (\<forall>l. 0 < count_list (map fst out) l \<longrightarrow> cap_count cap l + count_list (map fst out) l \<le> cap_limit cap)"

lemma balanced_drain:
  assumes "balanced A P s" "pb_key ` set P \<subseteq> active"
    and "drain_batches intent now ans active cap s = (out, s')"
  shows "balanced A (map snd out @ P) s' \<and> fits cap out"
proof (cases "lifecycle s = STATE_ACTIVE")
  case False
  then show ?thesis using assms balanced_fence [of A "[]" P s] by (auto simp: drain_batches_def fits_def)
next
  case True
  define s1 where "s1 = fail_expired_accumulator_batches now (fail_recovered_retry_slots
    (fail_recovered_accumulator_batches (update_partition_load_stats s)))"
  obtain ts ex s2 where c: "collect_retries now usize_max s1 = (ts, ex, s2)" by (metis prod_cases3)
  have "balanced A P s1" unfolding s1_def using assms(1)
    by (intro balanced_expired_accumulators balanced_fail_slots balanced_recovered_accumulators) simp
  then have b2: "balanced A (ts @ ex @ P) s2" using c by (rule balanced_collect)
  obtain pending s3 where f: "fail_recovered_batches ts s2 = (pending, s3)" by fastforce
  define d where "d = fold route_retry pending \<lparr>dc_sender = s3, dc_slots = cap, dc_routes = [],
    dc_to_send = [], dc_occupied = {}\<rparr>"
  obtain ok s4 where k: "(if sd_producer_epoch (dc_sender d) = i16_max
    then bump_idempotent_epoch ans (dc_sender d) else (True, dc_sender d)) = (ok, s4)" by fastforce
  have eq: "(out, s') = (if ex \<noteq> [] then ([], expire_batches ans ex ts s2)
    else if \<not> ok then ([], fold park (dc_to_send d) s4)
    else let d' = drain_new intent now active (d\<lparr>dc_sender := s4\<rparr>)
      in (zip (dc_routes d') (dc_to_send d'), dc_sender d'))"
    using assms(3) True c f k unfolding drain_batches_def s1_def [symmetric]
    by (cases "ex = []"; cases "sd_producer_epoch (dc_sender d) = i16_max"; cases ok)
      (auto simp: d_def Let_def)
  show ?thesis
  proof (cases "ex = []")
    case False
    then show ?thesis using eq balanced_expire [OF b2] by (simp add: fits_def)
  next
    case ex: True
    have "balanced A (pending @ P) s3" using b2 f balanced_fail_recovered ex by simp
    then have dinv: "drain_inv A P cap d" unfolding d_def by (intro drain_inv_route) (simp add: drain_inv_def)
    have b4: "balanced A (dc_to_send d @ P) s4"
    proof -
      have "s4 = dc_sender d \<or> s4 = snd (bump_idempotent_epoch ans (dc_sender d))"
        using k by (auto split: if_splits)
      then show ?thesis using dinv by (auto simp: drain_inv_def)
    qed
    show ?thesis
    proof (cases ok)
      case False
      then have "out = []" "s' = fold park (dc_to_send d) s4" using eq ex by simp_all
      then show ?thesis
        using balanced_fold [where f = park, OF balanced_park b4] by (simp add: fits_def)
    next
      case True
      define d' where "d' = drain_new intent now active (d\<lparr>dc_sender := s4\<rparr>)"
      have "drain_inv A P cap d'" unfolding d'_def
        using drain_inv_keep(1) [OF dinv b4] assms(2) by (rule drain_inv_new)
      moreover have "out = zip (dc_routes d') (dc_to_send d')" "s' = dc_sender d'"
        using eq ex True by (simp_all add: d'_def Let_def)
      ultimately show ?thesis by (auto simp: drain_inv_def fits_def)
    qed
  qed
qed

section \<open>The loop\<close>

definition requests_of :: "driver \<Rightarrow> prepared_batch list" where
  "requests_of d = map (\<lambda>r. fst (snd r)) (dr_requests d)"

text \<open>The capacity counts the requests per connection and never passes its limit.\<close>

definition cap_ok :: "connection_capacity \<Rightarrow> int list \<Rightarrow> bool" where
  "cap_ok c ls \<longleftrightarrow>
     (\<forall>l. cap_count c l = count_list ls l \<and> count_list ls l \<le> cap_limit c \<and> cap_used c l \<noteq> Some 0)"

definition driver_inv :: "nat multiset \<Rightarrow> driver \<Rightarrow> bool" where
  "driver_inv A d \<longleftrightarrow>
     balanced A (requests_of d) (dr_sender d)
     \<and> dr_occupied d = pb_key ` set (requests_of d)
     \<and> cap_ok (dr_capacity d) (map fst (dr_requests d))"

lemma queue_requests:
  "fold queue_request out d = d\<lparr>dr_capacity := fold (\<lambda>lp. reserve (fst lp)) out (dr_capacity d),
     dr_occupied := dr_occupied d \<union> pb_key ` snd ` set out,
     dr_requests := dr_requests d
       @ map (\<lambda>(l, pb). (l, pb, last_acked_offset (dr_sender d) (pb_key pb))) out\<rparr>"
  by (induction out arbitrary: d) (auto simp: queue_request_def)

lemma fold_reserve:
  "cap_limit (fold (\<lambda>lp. reserve (fst lp)) out c) = cap_limit c"
  "cap_count (fold (\<lambda>lp. reserve (fst lp)) out c) l = cap_count c l + count_list (map fst out) l"
  "cap_used c l \<noteq> Some 0 \<Longrightarrow> cap_used (fold (\<lambda>lp. reserve (fst lp)) out c) l \<noteq> Some 0"
proof -
  show "cap_limit (fold (\<lambda>lp. reserve (fst lp)) out c) = cap_limit c"
    "cap_count (fold (\<lambda>lp. reserve (fst lp)) out c) l = cap_count c l + count_list (map fst out) l"
    by (induction out arbitrary: c) auto
  show "cap_used c l \<noteq> Some 0 \<Longrightarrow> cap_used (fold (\<lambda>lp. reserve (fst lp)) out c) l \<noteq> Some 0"
    by (induction out arbitrary: c) (auto simp: reserve_def)
qed

lemma cap_ok_reserve:
  assumes "cap_ok c ls" "fits c out"
  shows "cap_ok (fold (\<lambda>lp. reserve (fst lp)) out c) (ls @ map fst out)"
  unfolding cap_ok_def
proof
  fix l
  have "cap_count c l = count_list ls l" "count_list ls l \<le> cap_limit c" "cap_used c l \<noteq> Some 0"
    using assms(1) unfolding cap_ok_def by blast+
  then show "cap_count (fold (\<lambda>lp. reserve (fst lp)) out c) l = count_list (ls @ map fst out) l
      \<and> count_list (ls @ map fst out) l \<le> cap_limit (fold (\<lambda>lp. reserve (fst lp)) out c)
      \<and> cap_used (fold (\<lambda>lp. reserve (fst lp)) out c) l \<noteq> Some 0"
    using assms(2) [unfolded fits_def, rule_format, of l] fold_reserve(3) [of c l out]
    by (cases "count_list (map fst out) l = 0") (simp_all add: fold_reserve)
qed

lemma driver_inv_drain:
  assumes "driver_inv A d"
  shows "driver_inv A (drive_drain now ans d)"
proof -
  obtain out s' where o: "drain_batches (if dr_force d then DrainForce else DrainExpired) now ans
      (dr_occupied d) (dr_capacity d) (dr_sender d) = (out, s')" by fastforce
  have b: "balanced A (map snd out @ requests_of d) s'" "fits (dr_capacity d) out"
    using balanced_drain [OF _ _ o, of A "requests_of d"] assms by (auto simp: driver_inv_def)
  let ?d = "drive_drain now ans d"
  have eq: "?d = fold queue_request out (d\<lparr>dr_sender := s'\<rparr>)" using o by (simp add: drive_drain_def)
  have req: "requests_of ?d = requests_of d @ map snd out"
    by (simp add: eq queue_requests requests_of_def comp_def case_prod_beta)
  have "balanced A (requests_of ?d) (dr_sender ?d)"
    using balanced_perm [of "map snd out @ requests_of d" "requests_of d @ map snd out"] b(1)
    unfolding req by (simp add: eq queue_requests)
  moreover have "dr_occupied ?d = pb_key ` set (requests_of ?d)"
    using assms unfolding req by (simp add: eq queue_requests driver_inv_def image_Un)
  moreover have "cap_ok (dr_capacity ?d) (map fst (dr_requests ?d))"
    using cap_ok_reserve [OF _ b(2)] assms
    by (simp add: eq queue_requests driver_inv_def comp_def case_prod_beta)
  ultimately show ?thesis unfolding driver_inv_def by blast
qed

definition same_batch :: "prepared_batch \<Rightarrow> prepared_batch \<Rightarrow> bool" where
  "same_batch pb pb' \<longleftrightarrow> pb_key pb' = pb_key pb \<and> pb_records pb' = pb_records pb"

lemma back_off_same: "same_batch pb ((back_off s t pb)\<lparr>pb_last_failure := f\<rparr>)"
  by (simp add: same_batch_def back_off_def pb_key_def Let_def)

lemma refresh_same: "same_batch pb (refresh_topic_id s pb)"
  by (simp add: same_batch_def refresh_topic_id_def pb_key_def split: option.split)

lemma same_batch_trans: "same_batch a b \<Longrightarrow> same_batch b c \<Longrightarrow> same_batch a c"
  by (simp add: same_batch_def)

lemma same_batch_refl: "same_batch a a"
  by (simp add: same_batch_def)

lemma resend_same: "same_batch pb (sr_pb (resend net s pb v f r))"
  by (simp add: resend_def back_off_same)

lemma interpret_same:
  assumes "interpret_response net pb resp la s = (res, s')"
  shows "same_batch pb (sr_pb res) \<and> balanced A P s' = balanced A P s"
proof
  show "same_batch pb (sr_pb res)"
    using assms resend_same same_batch_refl
    by (auto simp: interpret_response_def Let_def split: option.splits classification.splits if_splits)
  show "balanced A P s' = balanced A P s"
    by (rule balanced_cong) (use assms in \<open>auto simp: interpret_response_def Let_def
      split: option.splits classification.splits if_splits\<close>)
qed

lemma evict_balanced [simp]: "balanced A P (evict_leader l s) = balanced A P s"
  by (rule balanced_cong) (simp_all add: evict_leader_def)

lemma send_same:
  assumes "send_one_batch_to_leader net pb la l s = (res, s')"
  shows "same_batch pb (sr_pb res) \<and> balanced A P s' = balanced A P s"
proof (cases "drained_barrier s (pb_generation pb)")
  case None
  let ?pb = "refresh_topic_id s pb"
  have r: "same_batch pb (sr_pb (resend net s ?pb v f b))" for v f b
    by (rule same_batch_trans [OF refresh_same resend_same])
  have i: "same_batch pb (sr_pb res) \<and> balanced A P s' = balanced A P s"
    if "interpret_response net ?pb resp la s = (res, s')" for resp
    using interpret_same [OF that] same_batch_trans [OF refresh_same] by blast
  show ?thesis
    using assms None r i refresh_same
    by (auto simp: send_one_batch_to_leader_def Let_def split: option.splits if_splits)
qed (use assms same_batch_refl in \<open>auto simp: send_one_batch_to_leader_def\<close>)

lemma run_requests_same:
  assumes "run_requests fin s = (completed, s')"
  shows "map fst completed = map (\<lambda>r. fst (snd r)) fin
    \<and> map (\<lambda>c. pb_key (sr_pb (snd c))) completed = map (\<lambda>r. pb_key (fst (snd (snd r)))) fin
    \<and> map (\<lambda>c. pb_records (sr_pb (snd c))) completed = map (\<lambda>r. pb_records (fst (snd (snd r)))) fin
    \<and> balanced A P s' = balanced A P s"
  using assms
proof (induction fin arbitrary: s completed)
  case (Cons r fin)
  obtain net l pb la where r: "r = (net, l, pb, la)" by (metis prod_cases4)
  obtain res s1 where s1: "send_one_batch_to_leader net pb la l s = (res, s1)" by fastforce
  obtain rest where rest: "run_requests fin s1 = (rest, s')" "completed = (l, res) # rest"
    using Cons.prems r s1 by (auto split: prod.splits)
  show ?case using Cons.IH [OF rest(1)] send_same [OF s1, of A P] r rest(2) by (simp add: same_batch_def)
qed simp

lemma balanced_same_batches:
  assumes "map pb_key P = map pb_key P'" "map pb_records P = map pb_records P'"
  shows "balanced A (P @ Q) s = balanced A (P' @ Q) s"
proof -
  have "held_handles P = (\<Sum>rs\<leftarrow>map pb_records P. mset (map rec_ack rs))" for P
    by (induction P) (simp_all add: pb_handles_def)
  then have "held_handles P = held_handles P'" by (simp only: assms(2))
  moreover have "length P = length P'" using assms(1) by (rule map_eq_imp_length_eq)
  moreover have "pb_key ` set P = pb_key ` set P'" using assms(1) by (metis list.set_map)
  ultimately show ?thesis
    unfolding balanced_def map_append set_append assms(1) by simp
qed

lemma release_one:
  assumes "cap_used c l \<noteq> Some 0" "0 < cap_count c l"
  shows "cap_count (release l c) l' = cap_count c l' - (if l' = l then 1 else 0)"
    and "cap_used c l' \<noteq> Some 0 \<Longrightarrow> cap_used (release l c) l' \<noteq> Some 0"
  using assms by (auto simp: release_def cap_count_def Let_def split: option.splits)

lemma release_limit [simp]: "cap_limit (release l c) = cap_limit c"
  by (simp add: release_def Let_def split: option.split)

lemma release_all:
  assumes "\<forall>l. cap_used c l \<noteq> Some 0" "\<forall>l. count_list ls l \<le> cap_count c l"
  shows "(\<forall>l. cap_count (fold release ls c) l = cap_count c l - count_list ls l)
    \<and> (\<forall>l. cap_used (fold release ls c) l \<noteq> Some 0) \<and> cap_limit (fold release ls c) = cap_limit c"
  using assms
proof (induction ls arbitrary: c)
  case (Cons x ls)
  have x: "cap_used c x \<noteq> Some 0" "0 < cap_count c x"
    using Cons.prems(1) Cons.prems(2) [rule_format, of x] by simp_all
  have "\<forall>l. cap_used (release x c) l \<noteq> Some 0" using release_one(2) [OF x] Cons.prems(1) by blast
  moreover have "\<forall>l. count_list ls l \<le> cap_count (release x c) l"
  proof
    fix l show "count_list ls l \<le> cap_count (release x c) l"
      using Cons.prems(2) [rule_format, of l] release_one(1) [OF x, of l] by (auto split: if_splits)
  qed
  ultimately show ?case
    using Cons.IH [of "release x c"] release_one(1) [OF x] by auto
qed simp

lemma count_list_mset: "mset xs = mset ys \<Longrightarrow> count_list xs x = count_list ys x"
  by (metis count_mset)

lemma cap_ok_release:
  assumes "cap_ok c ls" "mset ls = mset (fin @ rest)"
  shows "cap_ok (fold release fin c) rest"
proof -
  have c: "count_list ls l = count_list fin l + count_list rest l" for l
    using count_list_mset [OF assms(2), of l] by simp
  have pre: "\<forall>l. cap_used c l \<noteq> Some 0" "\<forall>l. count_list fin l \<le> cap_count c l"
    using assms(1) c by (auto simp: cap_ok_def)
  show ?thesis unfolding cap_ok_def
  proof
    fix l
    have "cap_count c l = count_list ls l" "count_list ls l \<le> cap_limit c"
      using assms(1) unfolding cap_ok_def by blast+
    then show "cap_count (fold release fin c) l = count_list rest l
        \<and> count_list rest l \<le> cap_limit (fold release fin c) \<and> cap_used (fold release fin c) l \<noteq> Some 0"
      using release_all [OF pre] c [of l] by simp
  qed
qed

lemma driver_inv_complete:
  assumes "driver_inv A d" "mset (map snd fin @ pending) = mset (dr_requests d)"
  shows "driver_inv A (drive_complete fin pending ans d)"
proof -
  obtain completed s1 where r: "run_requests fin (dr_sender d) = (completed, s1)" by fastforce
  obtain refresh s2 where c: "complete_batches ans (map snd completed) s1 = (refresh, s2)" by fastforce
  let ?P = "map (\<lambda>r. fst (snd r)) pending" and ?F = "map (\<lambda>r. fst (snd (snd r))) fin"
  let ?d = "drive_complete fin pending ans d"
  note same = run_requests_same [OF r, of A "?F @ ?P"]
  have d: "dr_sender ?d = s2" "dr_requests ?d = pending" "requests_of ?d = ?P"
    "dr_capacity ?d = fold release (map fst completed) (dr_capacity d)"
    "dr_occupied ?d = dr_occupied d - set (map (\<lambda>c. pb_key (sr_pb (snd c))) completed)"
    using r c by (simp_all add: drive_complete_def requests_of_def fold_map comp_def)
  have keys: "set (map (\<lambda>c. pb_key (sr_pb (snd c))) completed) = pb_key ` set ?F"
    using same by (simp del: set_map) (simp add: image_image)
  have perm: "mset (requests_of d) = mset (?F @ ?P)"
    using arg_cong [OF assms(2), of "image_mset (\<lambda>r. fst (snd r))"]
    by (simp add: requests_of_def multiset.map_comp comp_def)
  have "balanced A (?F @ ?P) (dr_sender d)"
    using balanced_perm [OF perm] assms(1) by (simp add: driver_inv_def)
  then have bal: "balanced A (?F @ ?P) s1" using same by simp
  then have "balanced A (map sr_pb (map snd completed) @ ?P) s1"
    using balanced_same_batches [of ?F "map sr_pb (map snd completed)" A ?P s1] same by (simp add: comp_def)
  from balanced_complete [OF this, of ans] have "balanced A ?P s2" using c by simp
  moreover have "dr_occupied d - pb_key ` set ?F = pb_key ` set ?P"
  proof -
    have "dr_occupied d = pb_key ` set ?F \<union> pb_key ` set ?P"
      using assms(1) mset_eq_setD [OF perm] by (simp add: driver_inv_def image_Un)
    moreover have "pb_key ` set ?F \<inter> pb_key ` set ?P = {}"
      using bal by (simp add: balanced_def image_image)
    ultimately show ?thesis by blast
  qed
  moreover have "cap_ok (fold release (map fst completed) (dr_capacity d)) (map fst pending)"
  proof (rule cap_ok_release)
    show "cap_ok (dr_capacity d) (map fst (dr_requests d))" using assms(1) by (simp add: driver_inv_def)
    show "mset (map fst (dr_requests d)) = mset (map fst completed @ map fst pending)"
      using arg_cong [OF assms(2), of "image_mset fst"] same
      by (simp add: multiset.map_comp comp_def)
  qed
  ultimately show ?thesis unfolding driver_inv_def d keys by blast
qed

text \<open>
  The loop and its environment.  \<open>drive_run n s0 A d\<close>: from a sender that starts at \<open>s0\<close>, the loop
  reaches \<open>d\<close> after \<open>Producer\<close> appended the records with the handles \<open>A\<close>.  A drain runs when the
  schedule asks for one.  The other tasks change what they share with the sender, but not its
  queues: the transaction state, the error slot, the lifecycle, the known brokers and the locks.
\<close>

definition sender_start :: "sender \<Rightarrow> bool" where
  "sender_start s \<longleftrightarrow> accumulators s = [] \<and> in_flight s = 0 \<and> resolved s = []"

inductive drive_run :: "nat \<Rightarrow> sender \<Rightarrow> nat multiset \<Rightarrow> driver \<Rightarrow> bool" for n s0 where
  start: "sender_start s0 \<Longrightarrow> drive_run n s0 {#} (driver_start n s0)"
| drain: "drive_run n s0 A d
    \<Longrightarrow> sch_immediate (schedule now (dr_force d) (dr_occupied d) (dr_capacity d) (dr_sender d))
    \<Longrightarrow> drive_run n s0 A (drive_drain now ans d)"
| complete: "drive_run n s0 A d \<Longrightarrow> fin \<noteq> []
    \<Longrightarrow> mset (map snd fin @ pending) = mset (dr_requests d)
    \<Longrightarrow> drive_run n s0 A (drive_complete fin pending ans d)"
| refreshed: "drive_run n s0 A d \<Longrightarrow> dr_refreshing d
    \<Longrightarrow> drive_run n s0 A (d\<lparr>dr_sender := update_leaders_from_metadata md (dr_sender d),
                           dr_refreshing := False\<rparr>)"
| settle: "drive_run n s0 A d
    \<Longrightarrow> sch_settled (schedule now (dr_force d) (dr_occupied d) (dr_capacity d) (dr_sender d))
    \<Longrightarrow> drive_run n s0 A (d\<lparr>dr_force := False\<rparr>)"
| wake: "drive_run n s0 A d \<Longrightarrow> drive_run n s0 A (d\<lparr>dr_force := True\<rparr>)"
| stop: "drive_run n s0 A d \<Longrightarrow> drive_run n s0 A (d\<lparr>dr_force := True, dr_stopping := True\<rparr>)"
| appended: "drive_run n s0 A d
    \<Longrightarrow> drive_run n s0 (add_mset ack A) (d\<lparr>dr_sender :=
          producer_append key k v hs ts gen mem ack lim now (dr_sender d)\<rparr>)"
| aborted: "drive_run n s0 A d
    \<Longrightarrow> drive_run n s0 A (d\<lparr>dr_sender := producer_abort key (dr_sender d)\<rparr>)"
| others: "drive_run n s0 A d
    \<Longrightarrow> drive_run n s0 A (d\<lparr>dr_sender := (dr_sender d)
          \<lparr>sd_txn_state := ts, txn_pid_epoch := pe, txn_recovery_required := rr,
           txn_recovery_generation := rg, txn_error := te, lifecycle := lc, knows_broker := kb,
           lock_held := lh\<rparr>\<rparr>)"


lemma adopt_fields [simp]:
  "accumulators (adopt_metadata md s) = accumulators s \<and> retry (adopt_metadata md s) = retry s
   \<and> in_flight (adopt_metadata md s) = in_flight s \<and> resolved (adopt_metadata md s) = resolved s"
proof -
  have "accumulators (adopt_topic t s) = accumulators s \<and> retry (adopt_topic t s) = retry s
      \<and> in_flight (adopt_topic t s) = in_flight s \<and> resolved (adopt_topic t s) = resolved s" for t s
    by (simp add: adopt_topic_def Let_def split: option.split)
  then show ?thesis unfolding adopt_metadata_def by (induction md arbitrary: s) simp_all
qed

lemma balanced_append:
  assumes "balanced A P s"
  shows "balanced (add_mset ack A) P (producer_append key k v hs ts gen mem ack lim now s)"
proof -
  define acc where "acc = (case map_of (accumulators s) key of Some a \<Rightarrow> a | None \<Rightarrow> accumulator_new lim)"
  define acc' where "acc' = snd (append_record k v hs ts gen mem ack now acc)"
  have q: "mset (queued acc') = add_mset ack (mset (queued acc))"
    by (auto simp: acc'_def append_record_def open_batch_def Let_def mset_queued batch_new_def
        split: option.splits)
  have eq: "producer_append key k v hs ts gen mem ack lim now s = set_acc key acc' s"
    by (simp add: producer_append_def acc'_def acc_def)
  have dist: "distinct (map fst (accumulators s))" using assms by (simp add: balanced_def)
  have "queue_handles (AList.update key acc' (accumulators s)) = add_mset ack (queue_handles (accumulators s))"
  proof (cases "map_of (accumulators s) key")
    case None
    then have "queued acc = []" by (simp add: acc_def accumulator_new_def queued_def acc_batches_def)
    then show ?thesis using q queue_handles_insert [OF None] by simp
  next
    case (Some a)
    then have "queue_handles (AList.update key acc' (accumulators s)) + mset (queued a)
        = add_mset ack (queue_handles (accumulators s)) + mset (queued a)"
      using queue_handles_update [OF Some dist, of acc'] q by (simp add: acc_def)
    then show ?thesis by simp
  qed
  then show ?thesis using assms unfolding eq by (simp add: balanced_def AList.distinct_update)
qed

lemma balanced_abort:
  assumes "balanced A P s"
  shows "balanced A P (producer_abort key s)"
proof (cases "map_of (accumulators s) key")
  case (Some acc)
  obtain failed acc' where ab: "abort_undrained_batches acc = (failed, acc')" by fastforce
  have "mset (map fst failed) = mset (queued acc)" using abort_undrained_handles [of acc] ab by simp
  moreover have "queued acc' = []"
    using ab by (auto simp: abort_undrained_batches_def queued_def acc_batches_def)
  ultimately show ?thesis
    by (intro balanced_set_acc [OF assms Some, where b = acc' and d = "mset (map fst failed)"])
      (simp_all add: producer_abort_def Some ab comp_def case_prod_beta)
qed (use assms in \<open>simp add: producer_abort_def\<close>)

lemma requests_of_sender [simp]: "requests_of (d\<lparr>dr_sender := s\<rparr>) = requests_of d"
  by (simp add: requests_of_def)

lemma driver_inv_sender:
  assumes "driver_inv A d" "balanced A' (requests_of d) s"
  shows "driver_inv A' (d\<lparr>dr_sender := s\<rparr>)"
  using assms by (simp add: driver_inv_def requests_of_def)

lemma drive_run_inv:
  "drive_run n s0 A d \<Longrightarrow> driver_inv A d \<and> cap_limit (dr_capacity d) = n"
proof (induction rule: drive_run.induct)
  case start
  then show ?case
    by (simp add: driver_inv_def driver_start_def sender_start_def balanced_def requests_of_def
        slots_wf_def cap_ok_def cap_count_def)
next
  case (drain A d now ans)
  then show ?case using driver_inv_drain [of A d now ans]
    by (auto simp: drive_drain_def queue_requests fold_reserve split: prod.split)
next
  case (complete A d fin pending ans)
  have "cap_limit (fold (\<lambda>c. release (f c)) xs c) = cap_limit c" for f :: "'b \<Rightarrow> int" and xs c
    by (induction xs arbitrary: c) simp_all
  then show ?case using complete driver_inv_complete [of A d fin pending ans]
    by (auto simp: drive_complete_def split: prod.split)
next
  case (refreshed A d md)
  have "balanced A (requests_of d) (update_leaders_from_metadata md (dr_sender d))"
    using refreshed by (simp add: update_leaders_from_metadata_def driver_inv_def balanced_def
        split: option.split)
  from driver_inv_sender [OF conjunct1 [OF refreshed.IH] this] show ?case
    using refreshed.IH by (simp add: driver_inv_def requests_of_def)
next
  case (appended A d ack key k v hs ts gen mem lim now)
  then show ?case
    by (simp add: driver_inv_def balanced_append)
next
  case (aborted A d key)
  then show ?case
    by (simp add: driver_inv_def balanced_abort)
next
  case (others A d ts pe rr rg te lc kb lh)
  then show ?case by (simp add: driver_inv_def requests_of_def balanced_def)
qed (simp_all add: driver_inv_def requests_of_def)

section \<open>Settled\<close>

lemma include_settled [simp]:
  "sch_settled (include_deadline a b sch) = sch_settled sch"
  "sch_settled (include_delivery s a b sch) = sch_settled sch"
  by (simp_all add: include_deadline_def include_delivery_def split: option.split)

lemma schedule_retry_settled: "\<not> sch_settled (schedule_retry s now c pb sch)"
  by (simp add: schedule_retry_def Let_def split: option.split)

definition idle :: "accumulator \<Rightarrow> bool" where
  "idle acc \<longleftrightarrow> acc_ready acc = [] \<and> (case acc_current acc of Some b \<Rightarrow> batch_records b = [] | None \<Rightarrow> True)"

lemma schedule_accumulator_settled:
  "sch_settled (schedule_accumulator s now f occ c ka sch) \<Longrightarrow> sch_settled sch \<and> idle (snd ka)"
  by (auto simp: schedule_accumulator_def idle_def Let_def split: option.splits list.splits if_splits)

lemma schedule_settled:
  assumes "sch_settled (schedule now f occ c s)"
  shows "retry s = [] \<and> in_flight s = 0 \<and> queue_handles (accumulators s) = {#}"
proof -
  have fold: "sch_settled (fold (schedule_accumulator s now f occ c) accs sch)
      \<Longrightarrow> sch_settled sch \<and> list_all (\<lambda>ka. idle (snd ka)) accs" for accs sch
    by (induction accs arbitrary: sch) (auto dest: schedule_accumulator_settled)
  have retries: "sch_settled (fold (schedule_retry s now c) pbs sch) \<Longrightarrow> pbs = [] \<and> sch_settled sch" for pbs sch
  proof (induction pbs arbitrary: sch)
    case (Cons pb pbs)
    then show ?case using schedule_retry_settled by fastforce
  qed simp
  have "queued acc = []" if "idle acc" for acc
    using that by (auto simp: idle_def queued_def acc_batches_def split: option.splits)
  then have "list_all (\<lambda>ka. idle (snd ka)) accs \<Longrightarrow> queue_handles accs = {#}"
    for accs :: "(topic_partition \<times> accumulator) list"
    by (induction accs) auto
  then show ?thesis
    using fold [OF assms [unfolded schedule_def]] retries by (auto dest!: retries)
qed

end
