(* ===== verification/Sender_Claims.thy ===== *)
theory Sender_Claims
  imports Sender_Props
begin

text \<open>
  The properties of the sender: every record is resolved exactly once, one batch per partition is
  outstanding, a settled loop has resolved everything, the verdicts follow the error codes, and how
  sequence numbers and offsets are given out.
\<close>

section \<open>A sender to run\<close>

definition sender_example :: sender where
  "sender_example = \<lparr>cfg_acks = AcksAll, cfg_compression = 0, cfg_compression_level = None,
     cfg_linger = 0, cfg_request_timeout_ms = 1000, cfg_retries = 3, cfg_backoff = (\<lambda>_. 100),
     cfg_delivery_timeout = 5000, cfg_instant_max = 1000000, cfg_transactional_id = None,
     knows_broker = (\<lambda>b. b = 1), sd_producer_id = 9, sd_producer_epoch = 0,
     metadata_cache = Map.empty, partition_leaders = [(''t'', 0) \<mapsto> 1],
     sd_partitioner = partitioner_new \<lparr>sticky_batch_size = 100, ignore_keys = False,
       adaptive_partitioning = False, availability_timeout = 0, rack_aware = False\<rparr>,
     accumulators = [], lock_held = (\<lambda>_. False), next_seq = Map.empty, lifecycle = STATE_ACTIVE,
     in_flight = 0, sd_txn_state = Uninitialized, txn_pid_epoch = (- 1, - 1),
     txn_recovery_required = False, txn_recovery_generation = 0, txn_error = NO_TXN_ERROR,
     retry = [], last_acked_offset = Map.empty, latencies = Map.empty, recovery_generation = None,
     evicted = [], resolved = []\<rparr>"

definition transport_example :: "int \<Rightarrow> produce_transport" where
  "transport_example code = \<lparr>encode_level = (\<lambda>_ _. None),
     send_produce = (\<lambda>_ req. Some [\<lparr>tr_name = rq_topic req, tr_topic_id = 0, tr_partitions =
       [\<lparr>pr_index = rq_partition req, pr_error_code = code, pr_base_offset = 40,
         pr_log_append_time_ms = - 1, pr_log_start_offset = 0, pr_leader_id = - 1\<rparr>]\<rparr>]),
     send_no_response = (\<lambda>_ _. True), clock_now = 10\<rparr>"

lemmas example_defs = sender_example_def transport_example_def STATE_ACTIVE_def NO_TXN_ERROR_def
  partitioner_new_def driver_start_def

text \<open>One record appended, drained and acknowledged.\<close>

definition appended_example :: driver where
  "appended_example = (let d = driver_start 5 sender_example in
     d\<lparr>dr_sender := producer_append (''t'', 0) None (Some [1]) [] 3 None None 7 100 0 (dr_sender d)\<rparr>)"

definition drained_example :: driver where
  "drained_example = drive_drain 2 None appended_example"

definition acked_example :: driver where
  "acked_example = drive_complete
     (map (Pair (transport_example 0)) (dr_requests drained_example)) [] None drained_example"

lemma appended_example_run: "drive_run 5 sender_example {#7#} appended_example"
  unfolding appended_example_def Let_def
  by (rule drive_run.appended [of _ _ "{#}", simplified])
    (rule drive_run.start, simp add: sender_start_def sender_example_def)

lemma appended_example_eq:
  "appended_example = (driver_start 5 sender_example)\<lparr>dr_sender := sender_example\<lparr>accumulators :=
     [((''t'', 0), \<lparr>acc_current = Some \<lparr>transaction_generation = None,
       first_append_at = 0, size_bytes = 17, batch_records = [\<lparr>offset_delta = 0, rec_timestamp_ms = 3,
         rec_key = None, rec_value = Some [1], rec_headers = [], rec_ack = 7\<rparr>],
       batch_memory = None\<rparr>, acc_ready = [], batch_size = 100\<rparr>)]\<rparr>\<rparr>"
  by (simp add: appended_example_def driver_start_def sender_example_def producer_append_def set_acc_def
      append_record_def open_batch_def accumulator_new_def batch_new_def approx_record_size_def
      opt_len_def i32_of_usize_def)

lemmas run_defs = schedule_def schedule_accumulator_def include_delivery_def include_deadline_def
  delivery_deadline_def recovery_scan_needed_def batch_barred_def undrained_barrier_def
  drained_barrier_def available_def cap_count_def resolve_leader_def linger_deadline_def
  drive_drain_def drain_batches_def update_partition_load_stats_def
  fail_recovered_accumulator_batches_def recover_accumulator_def fail_recovered_retry_slots_def
  fail_expired_accumulator_batches_def take_expired_accumulator_batches_def take_expired_def
  reached_delivery_timeout_def fail_unsent_batches_def collect_retries_def drain_new_def
  drain_key_def should_seal_def seal_current_def set_acc_def pop_ready_batch_def
  note_node_latency_def prepare_batch_def build_record_batch_def txn_pid_snapshot_def
  i16_max_def reserve_def queue_request_def pb_key_def slot_defs

lemma drained_example_run: "drive_run 5 sender_example {#7#} drained_example"
  unfolding drained_example_def
proof (rule drive_run.drain [OF appended_example_run, of 2])
  show "sch_immediate (schedule 2 (dr_force appended_example) (dr_occupied appended_example)
      (dr_capacity appended_example) (dr_sender appended_example))"
    by (simp add: appended_example_eq run_defs example_defs Let_def)
qed

definition batch_example :: prepared_batch where
  "batch_example = \<lparr>pb_topic = ''t'', pb_partition = 0, pb_topic_id = 0, pb_base_sequence = 0,
     pb_record_batch = \<lparr>rb_compression = 0, rb_transactional = False, rb_last_offset_delta = 0,
       rb_base_timestamp = 3, rb_max_timestamp = 3, rb_producer_id = 9, rb_producer_epoch = 0,
       rb_base_sequence = 0, rb_records = [\<lparr>wr_timestamp_delta = 0, wr_offset_delta = 0,
         wr_key = None, wr_value = Some [1], wr_headers = []\<rparr>]\<rparr>,
     pb_records = [\<lparr>offset_delta = 0, rec_timestamp_ms = 3, rec_key = None, rec_value = Some [1],
       rec_headers = [], rec_ack = 7\<rparr>],
     pb_created_at = 0, pb_backoff_until = None, pb_retries_used = 0, pb_backoff_attempts = 0,
     pb_last_failure = None, pb_generation = None, pb_memory = None\<rparr>"

lemma drained_example_eq:
  "dr_requests drained_example = [(1, batch_example, None)]
   \<and> resolved (dr_sender drained_example) = [] \<and> in_flight (dr_sender drained_example) = 1"
  by (simp add: drained_example_def batch_example_def appended_example_eq run_defs example_defs Let_def
      i32_of_usize_def wrap_i32_def BOOTSTRAP_LEADER_def)

lemmas completion_defs = drive_complete_def i32_of_usize_def wrap_i32_def BOOTSTRAP_LEADER_def
  send_one_batch_to_leader_def refresh_topic_id_def build_single_batch_request_def
  interpret_response_def find_partition_def batch_example_def classify_verdict_def code_defs
  complete_batches_def cycle_record_def cycle_default_def cycle_apply_def ack_batch_def
  record_ack_def finish_in_flight_def

lemma acked_example_run: "drive_run 5 sender_example {#7#} acked_example"
  unfolding acked_example_def
  by (rule drive_run.complete [OF drained_example_run])
    (simp_all add: drained_example_eq comp_def)

lemma acked_example_eq:
  "map fst (resolved (dr_sender acked_example)) = [7] \<and> dr_requests acked_example = []"
  unfolding acked_example_def drained_example_eq [THEN conjunct1]
  by (simp add: drained_example_def appended_example_eq run_defs example_defs completion_defs Let_def)

lemma acked_example_settled:
  "sch_settled (schedule 3 (dr_force acked_example) (dr_occupied acked_example)
     (dr_capacity acked_example) (dr_sender acked_example))"
  unfolding acked_example_def drained_example_eq [THEN conjunct1]
  by (simp add: drained_example_def appended_example_eq run_defs example_defs completion_defs Let_def)

lemma owned_once:
  assumes "A = mset r + w" "\<forall>h. count A h \<le> 1"
  shows "distinct r" "set r \<inter> set_mset w = {}"
proof -
  have c: "count (mset r) h + count w h \<le> 1" for h
    using assms(2) [rule_format, of h] unfolding assms(1) count_union .
  then show "distinct r" by (intro count_le_one_distinct) (metis add_leE)
  show "set r \<inter> set_mset w = {}"
  proof (rule ccontr)
    assume "set r \<inter> set_mset w \<noteq> {}"
    then obtain h where "h \<in># mset r" "h \<in># w" by auto
    then have "0 < count (mset r) h" "0 < count w h" by (simp_all only: count_greater_zero_iff)
    then show False using c [of h] by linarith
  qed
qed

section \<open>Properties\<close>

text \<open>
  C2. No record is lost and none is resolved twice.  At every point of every run of the sender
  loop, the delivery handles of the appended records are exactly those already resolved, those
  waiting in the accumulators, those of the parked resends and those of the outstanding requests;
  with distinct handles, a handle is resolved at most once, and not while it is still waiting.
\<close>
theorem sender_conserves_handles:
  assumes "drive_run n s0 A d"
  shows "A = mset (map fst (resolved (dr_sender d))) + queue_handles (accumulators (dr_sender d))
           + slot_handles (retry (dr_sender d)) + held_handles (requests_of d)
    \<and> ((\<forall>h. count A h \<le> 1) \<longrightarrow> distinct (map fst (resolved (dr_sender d))))
    \<and> ((\<forall>h. count A h \<le> 1) \<longrightarrow> set (map fst (resolved (dr_sender d)))
         \<inter> set_mset (queue_handles (accumulators (dr_sender d)) + slot_handles (retry (dr_sender d))
                      + held_handles (requests_of d)) = {})"
proof -
  have "balanced A (requests_of d) (dr_sender d)"
    using drive_run_inv [OF assms] unfolding driver_inv_def by blast
  then have A: "A = mset (map fst (resolved (dr_sender d))) + queue_handles (accumulators (dr_sender d))
      + slot_handles (retry (dr_sender d)) + held_handles (requests_of d)"
    unfolding balanced_def by blast
  note once = owned_once [OF A [unfolded add.assoc], folded add.assoc]
  show ?thesis by (intro conjI impI A once)
qed

theorem sender_conserves_handles_witness:
  "map fst (resolved (dr_sender acked_example)) = [7]
   \<and> {#7#} = mset (map fst (resolved (dr_sender acked_example)))
       + queue_handles (accumulators (dr_sender acked_example))
       + slot_handles (retry (dr_sender acked_example)) + held_handles (requests_of acked_example)"
  using conjunct1 [OF sender_conserves_handles [OF acked_example_run]] conjunct1 [OF acked_example_eq]
  by (rule conjI [rotated])

text \<open>
  C3. One batch per partition.  The outstanding requests and the parked resends are on pairwise
  distinct partitions, \<open>in_flight\<close> is their number, \<open>occupied\<close> is the set of partitions with an
  outstanding request, and no connection has more requests than \<open>max_in_flight\<close>.
\<close>
theorem one_batch_per_partition:
  assumes "drive_run n s0 A d"
  shows "distinct (map pb_key (requests_of d) @ map fst (retry (dr_sender d)))
    \<and> list_all (\<lambda>(k, pb). k = pb_key pb) (retry (dr_sender d))
    \<and> in_flight (dr_sender d) = length (dr_requests d) + length (retry (dr_sender d))
    \<and> dr_occupied d = pb_key ` set (requests_of d)
    \<and> (\<forall>leader. length (filter (\<lambda>r. fst r = leader) (dr_requests d)) \<le> n)"
proof -
  have inv: "driver_inv A d" "cap_limit (dr_capacity d) = n" using drive_run_inv [OF assms] by auto
  have "length (filter (\<lambda>r. fst r = l) rs) = count_list (map fst rs) l"
    for l and rs :: "(int \<times> prepared_batch \<times> int option) list"
    by (induction rs) auto
  moreover have "count_list (map fst (dr_requests d)) l \<le> n" for l
    using inv unfolding driver_inv_def cap_ok_def by blast
  ultimately show ?thesis
    using inv(1) by (auto simp: driver_inv_def balanced_def slots_wf_def requests_of_def)
qed

theorem one_batch_per_partition_witness:
  "dr_requests drained_example = [(1, batch_example, None)]
   \<and> dr_occupied drained_example = {(''t'', 0)} \<and> in_flight (dr_sender drained_example) = 1"
  using one_batch_per_partition [OF drained_example_run] drained_example_eq
  by (simp add: requests_of_def batch_example_def pb_key_def)

text \<open>
  C4. A settled loop has resolved everything.  When the schedule reports \<open>settled\<close>, which is the
  only point where the loop clears a forced drain or ends, no request is outstanding and every
  record that was ever appended has been resolved.
\<close>
theorem settled_resolves_all:
  assumes "drive_run n s0 A d"
    and "sch_settled (schedule now (dr_force d) (dr_occupied d) (dr_capacity d) (dr_sender d))"
  shows "dr_requests d = [] \<and> mset (map fst (resolved (dr_sender d))) = A"
proof -
  note idle = schedule_settled [OF assms(2)]
  have b: "balanced A (requests_of d) (dr_sender d)"
    using drive_run_inv [OF assms(1)] by (simp add: driver_inv_def)
  then have "requests_of d = []" using idle by (simp add: balanced_def)
  then show ?thesis using b idle by (simp add: balanced_def requests_of_def)
qed

theorem settled_resolves_all_witness:
  "dr_requests acked_example = [] \<and> mset (map fst (resolved (dr_sender acked_example))) = {#7#}"
  by (rule settled_resolves_all [OF acked_example_run acked_example_settled])

lemma special_codes:
  "code \<in> {0, 10, 31, 35, 45, 46, 49, 53, 59, 90}
     \<Longrightarrow> error_class_of code = (if code = 0 then NoError else NotRetriable)"
  by (auto simp: error_class_of_def)

lemma classify_ordinary:
  assumes "pa_error_code a \<notin> {0, 10, 31, 35, 45, 46, 49, 53, 59, 90}"
  shows "classify_verdict a mode acked n = (case error_class_of (pa_error_code a) of
      InvalidMetadata \<Rightarrow> Routing
    | Retriable \<Rightarrow> Verdict RetryVerdict
    | _ \<Rightarrow> Verdict (Terminal (pa_error_code a) (repair_after_failure mode)))"
  using assms by (simp add: classify_verdict_def code_defs Let_def)

lemma ordinary_class: "code \<noteq> 0 \<Longrightarrow> error_class_of code \<noteq> NoError"
  by (simp add: error_class_of_def)

text \<open>The same table over the error class and the repair of a batch mode.\<close>

lemma classify_verdict_by_class:
  "(classify_verdict a mode acked n = Verdict Split \<longleftrightarrow> pa_error_code a = 10 \<and> 1 < n)
    \<and> (classify_verdict a mode acked n = Verdict (Acked off ts) \<longleftrightarrow>
         pa_error_code a \<in> {0, 46} \<and> off = pa_base_offset a \<and> ts = pa_log_append_time_ms a)
    \<and> (classify_verdict a mode acked n = Verdict (FatalVerdict c) \<longleftrightarrow>
         mode \<noteq> PlainMode \<and> pa_error_code a \<in> {31, 35, 49, 53, 90} \<and> c = pa_error_code a)
    \<and> (classify_verdict a mode acked n = Routing \<longleftrightarrow> error_class_of (pa_error_code a) = InvalidMetadata)
    \<and> (classify_verdict a mode acked n = Verdict BumpEpochAndRetry \<longleftrightarrow> mode = IdempotentMode
         \<and> (pa_error_code a = 45 \<or> pa_error_code a = 59 \<and> 0 \<le> pa_log_start_offset a))
    \<and> (classify_verdict a mode acked n = Verdict RestartSequenceAndRetry \<longleftrightarrow> mode = TransactionalMode
         \<and> pa_error_code a = 59 \<and> 0 \<le> pa_log_start_offset a
         \<and> (case acked of Some k \<Rightarrow> k | None \<Rightarrow> - 1) < pa_log_start_offset a)
    \<and> (classify_verdict a mode acked n = Verdict RetryVerdict \<longleftrightarrow>
         error_class_of (pa_error_code a) = Retriable
         \<or> pa_error_code a = 59 \<and> mode \<noteq> PlainMode \<and> pa_log_start_offset a < 0)
    \<and> (classify_verdict a mode acked n = Verdict (Terminal c r) \<longleftrightarrow>
         c = pa_error_code a \<and> error_class_of c = NotRetriable
         \<and> (if c = 10 then n \<le> 1 \<and> r = repair_after_failure mode
            else if c = 46 then False
            else if c \<in> {31, 35, 49, 53, 90} then mode = PlainMode \<and> r = Keep
            else if c = 45 then mode \<noteq> IdempotentMode \<and> r = repair_after_failure mode
            else if c = 59 then mode = PlainMode \<and> r = Keep
              \<or> mode = TransactionalMode \<and> r = Reset \<and> 0 \<le> pa_log_start_offset a
                \<and> pa_log_start_offset a \<le> (case acked of Some k \<Rightarrow> k | None \<Rightarrow> - 1)
            else r = repair_after_failure mode))
    \<and> (classify_verdict a mode acked n \<noteq> Verdict (Barred b))"
proof (cases "pa_error_code a \<in> {0, 10, 31, 35, 45, 46, 49, 53, 59, 90}")
  case False
  then show ?thesis
    using classify_ordinary [OF False, of mode acked n] ordinary_class [of "pa_error_code a"]
    by (cases "error_class_of (pa_error_code a)") auto
next
  case True
  then consider "pa_error_code a = 0" | "pa_error_code a = 10" | "pa_error_code a = 31"
    | "pa_error_code a = 35" | "pa_error_code a = 45" | "pa_error_code a = 46" | "pa_error_code a = 49"
    | "pa_error_code a = 53" | "pa_error_code a = 59" | "pa_error_code a = 90" by auto
  then show ?thesis
    using special_codes [OF True]
    by cases (cases mode; auto simp: classify_verdict_def code_defs Let_def)+
qed

lemma error_class_codes:
  "error_class_of c = InvalidMetadata \<longleftrightarrow> c \<in> {3, 5, 6, 9, 13, 56, 72, 74, 80, 83, 84, 100, 103}"
  "error_class_of c = Retriable \<longleftrightarrow>
     c \<in> {2, 7, 14, 15, 16, 19, 20, 41, 51, 70, 71, 75, 78, 88, 89, 106, 122, 123, 133}"
  "error_class_of c = NotRetriable \<longleftrightarrow>
     c \<notin> {0} \<union> {3, 5, 6, 9, 13, 56, 72, 74, 80, 83, 84, 100, 103}
       \<union> {2, 7, 14, 15, 16, 19, 20, 41, 51, 70, 71, 75, 78, 88, 89, 106, 122, 123, 133}"
  unfolding error_class_of_def by (simp_all split: if_split)

lemma repair_after_failure_table:
  "r = repair_after_failure mode \<longleftrightarrow>
     (mode, r) \<in> {(PlainMode, Keep), (IdempotentMode, BumpEpoch), (TransactionalMode, GiveBack)}"
  by (cases mode) auto

text \<open>
  C26. The verdict of a partition answer, as the broker protocol numbers the errors.  Each verdict is
  given for exactly the codes, modes and offsets listed: a batch counts as written only for \<open>NONE\<close>
  (0) and \<open>DUPLICATE_SEQUENCE_NUMBER\<close> (46); the thirteen codes of stale metadata reroute the batch
  and the nineteen other retriable ones send it again; only a batch with a producer id fences the
  producer; and every other code fails the batch, which keeps the sequence of a plain batch, bumps
  the epoch of an idempotent one and gives the sequences of a transactional one back.
\<close>
theorem classify_verdict_table:
  "(classify_verdict a mode acked n = Verdict Split \<longleftrightarrow> pa_error_code a = 10 \<and> 1 < n)
    \<and> (classify_verdict a mode acked n = Verdict (Acked off ts) \<longleftrightarrow>
         pa_error_code a \<in> {0, 46} \<and> off = pa_base_offset a \<and> ts = pa_log_append_time_ms a)
    \<and> (classify_verdict a mode acked n = Verdict (FatalVerdict c) \<longleftrightarrow>
         mode \<noteq> PlainMode \<and> pa_error_code a \<in> {31, 35, 49, 53, 90} \<and> c = pa_error_code a)
    \<and> (classify_verdict a mode acked n = Routing \<longleftrightarrow>
         pa_error_code a \<in> {3, 5, 6, 9, 13, 56, 72, 74, 80, 83, 84, 100, 103})
    \<and> (classify_verdict a mode acked n = Verdict BumpEpochAndRetry \<longleftrightarrow> mode = IdempotentMode
         \<and> (pa_error_code a = 45 \<or> pa_error_code a = 59 \<and> 0 \<le> pa_log_start_offset a))
    \<and> (classify_verdict a mode acked n = Verdict RestartSequenceAndRetry \<longleftrightarrow> mode = TransactionalMode
         \<and> pa_error_code a = 59 \<and> 0 \<le> pa_log_start_offset a
         \<and> (case acked of Some k \<Rightarrow> k | None \<Rightarrow> - 1) < pa_log_start_offset a)
    \<and> (classify_verdict a mode acked n = Verdict RetryVerdict \<longleftrightarrow>
         pa_error_code a
           \<in> {2, 7, 14, 15, 16, 19, 20, 41, 51, 70, 71, 75, 78, 88, 89, 106, 122, 123, 133}
         \<or> pa_error_code a = 59 \<and> mode \<noteq> PlainMode \<and> pa_log_start_offset a < 0)
    \<and> (classify_verdict a mode acked n = Verdict (Terminal c r) \<longleftrightarrow>
         c = pa_error_code a
         \<and> c \<notin> {0} \<union> {3, 5, 6, 9, 13, 56, 72, 74, 80, 83, 84, 100, 103}
             \<union> {2, 7, 14, 15, 16, 19, 20, 41, 51, 70, 71, 75, 78, 88, 89, 106, 122, 123, 133}
         \<and> (if c = 46 then False
            else if c \<in> {31, 35, 49, 53, 90} then mode = PlainMode \<and> r = Keep
            else if c = 59 then mode = PlainMode \<and> r = Keep
              \<or> mode = TransactionalMode \<and> r = Reset \<and> 0 \<le> pa_log_start_offset a
                \<and> pa_log_start_offset a \<le> (case acked of Some k \<Rightarrow> k | None \<Rightarrow> - 1)
            else \<not> (c = 10 \<and> 1 < n) \<and> \<not> (c = 45 \<and> mode = IdempotentMode)
              \<and> (mode, r) \<in> {(PlainMode, Keep), (IdempotentMode, BumpEpoch),
                              (TransactionalMode, GiveBack)}))
    \<and> classify_verdict a mode acked n \<noteq> Verdict (Barred b)"
  using classify_verdict_by_class [of a mode acked n off ts c r b]
  unfolding repair_after_failure_table error_class_codes
  by (cases "c = 10"; cases "c = 45") (simp_all add: not_less)

lemma wrap_i32_sum:
  assumes "0 \<le> x" "x \<le> 4294967294"
  shows "wrap_i32 x = (if x \<le> 2147483647 then x else x - 4294967296)"
proof (cases "x \<le> 2147483647")
  case True
  then show ?thesis using assms by (simp add: wrap_i32_def mod_pos_pos_trivial)
next
  case False
  have "(x + 2147483648) mod 4294967296 = (x - 2147483648 + 4294967296) mod 4294967296"
    by (simp add: add.commute)
  also have "\<dots> = (x - 2147483648) mod 4294967296" by (rule mod_add_self2)
  also have "\<dots> = x - 2147483648" using False assms by (intro mod_pos_pos_trivial) simp_all
  finally show ?thesis using False by (simp add: wrap_i32_def)
qed

text \<open>
  C23. Sequence numbers are consecutive below $2^{31}$, and then negative.  The next batch of a
  partition starts right after the records of the last one as long as the sum fits an \<open>i32\<close>; past
  it, \<open>wrapping_add\<close> gives a negative base sequence, where the protocol continues at 0.
\<close>
theorem sequence_allocation:
  assumes "prepare_batch key b s = (pb, s')" and "next_seq s key = Some cur"
    and "0 \<le> cur" "cur \<le> 2147483647" and "length (batch_records b) \<le> 2147483647"
  shows "pb_base_sequence pb = cur \<and> rb_base_sequence (pb_record_batch pb) = cur
    \<and> next_seq s' key = Some
        (if cur + int (length (batch_records b)) \<le> 2147483647
         then cur + int (length (batch_records b))
         else cur + int (length (batch_records b)) - 4294967296)
    \<and> (2147483647 < cur + int (length (batch_records b))
         \<longrightarrow> (\<exists>base. next_seq s' key = Some base \<and> base < 0))"
proof -
  have len: "i32_of_usize (length (batch_records b)) = int (length (batch_records b))"
    using assms(5) by (simp add: i32_of_usize_def)
  have wrap: "wrap_i32 (cur + int (length (batch_records b))) =
      (if cur + int (length (batch_records b)) \<le> 2147483647
       then cur + int (length (batch_records b)) else cur + int (length (batch_records b)) - 4294967296)"
    using assms(3-5) by (intro wrap_i32_sum) simp_all
  have "pb_base_sequence pb = cur" "rb_base_sequence (pb_record_batch pb) = cur"
    "next_seq s' key = Some (wrap_i32 (cur + int (length (batch_records b))))"
    using assms(1,2) len
    by (auto simp: prepare_batch_def build_record_batch_def Let_def case_prod_beta split: option.splits)
  then show ?thesis using wrap assms(3-5) by simp
qed

definition full_example :: in_progress_batch where
  "full_example = \<lparr>transaction_generation = None, first_append_at = 0, size_bytes = 36,
     batch_records = [pending_example 1, (pending_example 2)\<lparr>offset_delta := 1\<rparr>], batch_memory = None\<rparr>"

theorem sequence_allocation_witness:
  "let s = sender_example\<lparr>next_seq := [(''t'', 0) \<mapsto> 2147483646]\<rparr>
   in next_seq (snd (prepare_batch (''t'', 0) full_example s)) (''t'', 0) = Some (- 2147483648)"
proof -
  let ?s = "sender_example\<lparr>next_seq := [(''t'', 0) \<mapsto> 2147483646]\<rparr>"
  obtain pb s' where p: "prepare_batch (''t'', 0) full_example ?s = (pb, s')" by fastforce
  show ?thesis using sequence_allocation [OF p, of 2147483646] p by (simp add: full_example_def)
qed

text \<open>
  C25. A batch that is split after an epoch bump of an earlier cycle restarts the new epoch at its
  old sequence.  One request asks for an epoch bump; another idempotent batch, still on the wire at
  the old epoch, is then rejected as too large.  Its parts go out at the new epoch, but the first of
  them carries the base sequence of the old epoch, not 0: \<open>split_and_requeue\<close> only looks for a bump
  in its own cycle.
\<close>
theorem split_after_bump_keeps_old_sequence:
  assumes "sr_verdict r1 = BumpEpochAndRetry" and "pb_retries_used (sr_pb r1) < cfg_retries s"
    and "sd_producer_epoch s < i16_max"
    and "sr_verdict r2 = Split" and "batch_mode_of (pb_record_batch (sr_pb r2)) = IdempotentMode"
    and "s1 = snd (complete_batches ans [r1] s)" and "s2 = snd (complete_batches ans [r2] s1)"
    and "cfg_transactional_id s = None"
    and "prepare_batch (pb_key (sr_pb r2)) b s2 = (pb, s3)"
  shows "rb_producer_epoch (pb_record_batch pb) = sd_producer_epoch s + 1
    \<and> rb_base_sequence (pb_record_batch pb) = pb_base_sequence (sr_pb r2)"
proof -
  have s1: "sd_producer_epoch s1 = sd_producer_epoch s + 1" "cfg_transactional_id s1 = None"
    using assms(1-3,6,8)
    by (simp_all add: complete_batches_def cycle_record_def cycle_retry_def take_retry_def
        cycle_default_def cycle_apply_def bump_idempotent_epoch_def rewrite_and_park_def
        restart_sequence_def park_def Let_def)
  have s2: "s2 = split_and_requeue (sr_pb r2) False s1"
    using assms(4,7) by (simp add: complete_batches_def cycle_record_def cycle_default_def
        cycle_apply_def Let_def)
  then have "sd_producer_epoch s2 = sd_producer_epoch s + 1" "cfg_transactional_id s2 = None"
    "next_seq s2 (pb_key (sr_pb r2)) = Some (pb_base_sequence (sr_pb r2))"
    using s1 assms(5)
    by (simp_all add: split_and_requeue_def finish_in_flight_def set_acc_def fail_batch_def Let_def
        split: option.split)
  then show ?thesis using assms(9)
    by (auto simp: prepare_batch_def build_record_batch_def txn_pid_snapshot_def Let_def)
qed

theorem split_after_bump_keeps_old_sequence_witness:
  "let r1 = \<lparr>sr_pb = batch_example\<lparr>pb_partition := 1\<rparr>, sr_verdict = BumpEpochAndRetry, sr_refresh_needed = False\<rparr>;
       r2 = \<lparr>sr_pb = batch_example\<lparr>pb_base_sequence := 40\<rparr>, sr_verdict = Split, sr_refresh_needed = False\<rparr>;
       s2 = snd (complete_batches None [r2] (snd (complete_batches None [r1] sender_example)));
       pb = fst (prepare_batch (''t'', 0) full_example s2)
   in rb_producer_epoch (pb_record_batch pb) = 1 \<and> rb_base_sequence (pb_record_batch pb) = 40"
proof -
  let ?r1 = "\<lparr>sr_pb = batch_example\<lparr>pb_partition := 1\<rparr>, sr_verdict = BumpEpochAndRetry, sr_refresh_needed = False\<rparr>"
  let ?r2 = "\<lparr>sr_pb = batch_example\<lparr>pb_base_sequence := 40\<rparr>, sr_verdict = Split, sr_refresh_needed = False\<rparr>"
  let ?s2 = "snd (complete_batches None [?r2] (snd (complete_batches None [?r1] sender_example)))"
  obtain pb s3 where p: "prepare_batch (pb_key (sr_pb ?r2)) full_example ?s2 = (pb, s3)" by fastforce
  have "rb_producer_epoch (pb_record_batch pb) = sd_producer_epoch sender_example + 1
      \<and> rb_base_sequence (pb_record_batch pb) = pb_base_sequence (sr_pb ?r2)"
    by (rule split_after_bump_keeps_old_sequence [OF _ _ _ _ _ refl refl _ p])
      (simp_all add: batch_example_def sender_example_def i16_max_def batch_mode_of_def)
  then show ?thesis using p by (simp add: pb_key_def batch_example_def sender_example_def)
qed

text \<open>
  C24. The offsets of an acknowledged batch.  A batch as the accumulator builds it, prepared and
  acknowledged at a base offset, resolves its records in the order they were appended, the $i$-th
  one at the base offset plus $i$, in its topic and partition, and frees one in-flight slot.
\<close>
theorem acked_records_get_their_offsets:
  assumes "batch_ok cap b" and "length (batch_records b) \<le> 2147483647" and "0 \<le> base"
    and "prepare_batch (t, p) b s = (pb, s')" and "in_flight s' = Suc n"
  shows "in_flight (ack_batch pb base lat s') = n
    \<and> map fst (resolved (ack_batch pb base lat s')) = map fst (resolved s) @ map rec_ack (batch_records b)
    \<and> (\<forall>i. i < length (batch_records b) \<longrightarrow>
         (\<exists>m. resolved (ack_batch pb base lat s') ! (length (resolved s) + i)
                = (rec_ack (batch_records b ! i), Inr m)
            \<and> rm_topic m = t \<and> rm_partition m = p \<and> rm_offset m = base + int i))"
proof -
  have pb: "pb_records pb = batch_records b" "pb_topic pb = t" "pb_partition pb = p" "resolved s' = resolved s"
    using assms(4) by (auto simp: prepare_batch_def Let_def)
  have off: "offset_delta (batch_records b ! i) = int i" if i: "i < length (batch_records b)" for i
  proof -
    have "map offset_delta (batch_records b) ! i = map i32_of_usize [0..<length (batch_records b)] ! i"
      using assms(1) by (simp add: batch_ok_def)
    then show ?thesis using i assms(2) by (simp add: i32_of_usize_def)
  qed
  show ?thesis
    using assms(3,5) off
    by (auto simp: ack_batch_def pb comp_def nth_append record_offset_def INVALID_OFFSET_def)
qed

theorem acked_records_get_their_offsets_witness:
  "let (pb, s) = prepare_batch (''t'', 0) full_example (sender_example\<lparr>in_flight := 1\<rparr>)
   in in_flight (ack_batch pb 40 (- 1) s) = 0
      \<and> map fst (resolved (ack_batch pb 40 (- 1) s)) = [1, 2]"
proof -
  obtain pb s where p: "prepare_batch (''t'', 0) full_example (sender_example\<lparr>in_flight := 1\<rparr>) = (pb, s)"
    by fastforce
  have "batch_ok 100 full_example"
    by (simp add: batch_ok_def full_example_def pending_example_def pending_size_def
        approx_record_size_def opt_len_def i32_of_usize_def)
  moreover have "in_flight s = Suc 0" using p by (auto simp: prepare_batch_def Let_def)
  ultimately show ?thesis
    using acked_records_get_their_offsets [OF _ _ _ p, of 100 40 0 "- 1"] p
    by (simp add: full_example_def pending_example_def sender_example_def)
qed

end
