(* ===== verification/Ordered_Map.thy ===== *)
theory Ordered_Map
  imports Prelude
begin

text \<open>
  Maps as the consumer uses them.  A \<open>BTreeMap\<close> is the association list of its entries in
  ascending key order, a \<open>BTreeSet\<close> the ascending list of its elements, and a \<open>HashMap\<close> an
  association list with one entry per key whose order carries no meaning.  \<open>btree_entry\<close> is
  \<open>map.entry(k).or_insert(d)\<close> followed by a change of the value; the other operations are
  instances of it.  The lemmas relate every operation to \<^const>\<open>map_of\<close>.
\<close>

text \<open>A partition of a topic, \<open>(String, i32)\<close>.\<close>

type_synonym topic_partition = "string \<times> int"

fun btree_entry :: "'k::linorder \<Rightarrow> 'v \<Rightarrow> ('v \<Rightarrow> 'v) \<Rightarrow> ('k \<times> 'v) list \<Rightarrow> ('k \<times> 'v) list" where
  "btree_entry k d f [] = [(k, f d)]"
| "btree_entry k d f ((k', v) # m) =
     (if k = k' then (k', f v) # m
      else if k < k' then (k, f d) # (k', v) # m
      else (k', v) # btree_entry k d f m)"

definition btree_insert :: "'k::linorder \<Rightarrow> 'v \<Rightarrow> ('k \<times> 'v) list \<Rightarrow> ('k \<times> 'v) list" where
  "btree_insert k v m = btree_entry k v (\<lambda>_. v) m"

text \<open>\<open>iter.collect::<BTreeMap<_, _>>()\<close>: a later pair replaces an earlier one with its key.\<close>

definition btree_collect :: "('k::linorder \<times> 'v) list \<Rightarrow> ('k \<times> 'v) list" where
  "btree_collect kvs = fold (\<lambda>(k, v) m. btree_insert k v m) kvs []"

text \<open>\<open>iter.collect::<BTreeSet<_>>()\<close>.\<close>

definition btree_set :: "'a::linorder list \<Rightarrow> 'a list" where
  "btree_set xs = map fst (btree_collect (map (\<lambda>x. (x, ())) xs))"

definition btree_wf :: "('k::linorder \<times> 'v) list \<Rightarrow> bool" where
  "btree_wf m \<longleftrightarrow> sorted (map fst m) \<and> distinct (map fst m)"

lemma btree_entry_keys: "fst ` set (btree_entry k d f m) = insert k (fst ` set m)"
  by (induction k d f m rule: btree_entry.induct) auto

lemma btree_entry_wf: "btree_wf m \<Longrightarrow> btree_wf (btree_entry k d f m)"
  unfolding btree_wf_def
proof (induction k d f m rule: btree_entry.induct)
  case (2 k d f k' v m)
  have "fst ` set (btree_entry k d f m) = insert k (fst ` set m)"
    by (rule btree_entry_keys)
  then show ?case
    using 2 by (auto simp: less_le)
qed simp

lemma map_of_btree_entry:
  "btree_wf m \<Longrightarrow>
     map_of (btree_entry k d f m)
       = (map_of m)(k \<mapsto> f (case map_of m k of None \<Rightarrow> d | Some v \<Rightarrow> v))"
  unfolding btree_wf_def
proof (induction k d f m rule: btree_entry.induct)
  case (2 k d f k' v m)
  then have "k < k' \<Longrightarrow> map_of m k = None"
    by (auto simp: map_of_eq_None_iff)
  then show ?case
    using 2 by (auto simp: fun_eq_iff)
qed auto

lemma btree_insert_wf: "btree_wf m \<Longrightarrow> btree_wf (btree_insert k v m)"
  by (simp add: btree_insert_def btree_entry_wf)

lemma btree_insert_keys: "fst ` set (btree_insert k v m) = insert k (fst ` set m)"
  by (simp add: btree_insert_def btree_entry_keys)

lemma map_of_btree_insert: "btree_wf m \<Longrightarrow> map_of (btree_insert k v m) = (map_of m)(k \<mapsto> v)"
  by (simp add: btree_insert_def map_of_btree_entry)

lemma fold_btree_insert:
  assumes "btree_wf m"
  shows "btree_wf (fold (\<lambda>(k, v) m. btree_insert k v m) kvs m)
     \<and> map_of (fold (\<lambda>(k, v) m. btree_insert k v m) kvs m) = map_of m ++ map_of (rev kvs)"
  using assms
proof (induction kvs arbitrary: m)
  case (Cons kv kvs)
  obtain k v where kv: "kv = (k, v)" by force
  have "btree_wf (btree_insert k v m)" using Cons.prems by (rule btree_insert_wf)
  from Cons.IH [OF this] show ?case
    using Cons.prems by (auto simp: kv map_of_btree_insert map_add_def fun_eq_iff split: option.splits)
qed simp

lemma btree_wf_Nil [simp]: "btree_wf []"
  by (simp add: btree_wf_def)

lemma btree_collect_wf [simp, intro]: "btree_wf (btree_collect kvs)"
  using fold_btree_insert [of "[]" kvs] by (simp add: btree_collect_def)

lemma map_of_btree_collect: "map_of (btree_collect kvs) = map_of (rev kvs)"
  using fold_btree_insert [of "[]" kvs] by (simp add: btree_collect_def)

lemma map_of_rev_distinct: "distinct (map fst kvs) \<Longrightarrow> map_of (rev kvs) = map_of kvs"
  by (rule map_of_inject_set [THEN iffD2]) (simp_all add: rev_map [symmetric])

lemma btree_collect_keys: "set (map fst (btree_collect kvs)) = fst ` set kvs"
proof -
  have "dom (map_of (btree_collect kvs)) = dom (map_of (rev kvs))"
    by (simp add: map_of_btree_collect)
  then show ?thesis by (simp add: dom_map_of_conv_image_fst)
qed

lemma btree_collect_eq_set:
  assumes "distinct (map fst kvs)"
  shows "set (btree_collect kvs) = set kvs"
proof -
  have "map_of (btree_collect kvs) = map_of kvs"
    using assms by (simp add: map_of_btree_collect map_of_rev_distinct)
  moreover have "distinct (map fst (btree_collect kvs))"
    using btree_collect_wf [of kvs] by (simp add: btree_wf_def)
  ultimately show ?thesis
    using assms map_of_inject_set by metis
qed

lemma btree_set_eq: "btree_set xs = sorted_list_of_set (set xs)"
proof -
  let ?m = "btree_collect (map (\<lambda>x. (x, ())) xs)"
  have "btree_wf ?m" by simp
  then have "sorted (btree_set xs)" "distinct (btree_set xs)"
    by (simp_all add: btree_set_def btree_wf_def)
  moreover have "set (btree_set xs) = set xs"
    using btree_collect_keys [of "map (\<lambda>x. (x, ())) xs"] by (simp add: btree_set_def image_image)
  ultimately show ?thesis
    by (metis sorted_list_of_set.idem_if_sorted_distinct)
qed

lemma set_btree_set [simp]: "set (btree_set xs) = set xs"
  by (simp add: btree_set_eq)

lemma distinct_btree_set [simp]: "distinct (btree_set xs)"
  by (simp add: btree_set_eq)

lemma sorted_btree_set [simp]: "sorted (btree_set xs)"
  by (simp add: btree_set_eq)

lemma find_SomeD: "find P xs = Some x \<Longrightarrow> x \<in> set xs \<and> P x"
  by (induction xs) (auto split: if_splits)

end
