(* ===== verification/Assignor.thy ===== *)
theory Assignor
  imports Ordered_Map
begin

text \<open>
  The shared part of the partition assignors (\<open>client-consumer/src/assignor/mod.rs\<close>): the
  assignor names and rebalance protocols, the order of group members, the user data of the
  sticky assignors with its reader, and the contract that every eager assignor meets.

  A topic partition is a pair of topic and index.  \<open>topic_partitions\<close>, a
  \<open>HashMap<String, i32>\<close>, is an association list with one entry per topic, and an assignment,
  a \<open>HashMap<String, Vec<(String, i32)>>\<close>, one with an entry per member id.
\<close>

type_synonym topic_counts = "(string \<times> int) list"
type_synonym assignment = "(string \<times> topic_partition list) list"

section \<open>Assignors and rebalance protocols\<close>

datatype rebalance_protocol = Eager | Cooperative

datatype assignor = Range | RoundRobin | Sticky | CooperativeSticky

fun protocol_index :: "rebalance_protocol \<Rightarrow> nat" where
  "protocol_index Eager = 0"
| "protocol_index Cooperative = 1"

instantiation rebalance_protocol :: linorder
begin

definition less_eq_rebalance_protocol :: "rebalance_protocol \<Rightarrow> rebalance_protocol \<Rightarrow> bool" where
  "less_eq_rebalance_protocol a b \<longleftrightarrow> protocol_index a \<le> protocol_index b"

definition less_rebalance_protocol :: "rebalance_protocol \<Rightarrow> rebalance_protocol \<Rightarrow> bool" where
  "less_rebalance_protocol a b \<longleftrightarrow> protocol_index a < protocol_index b"

instance
proof
  fix a b c :: rebalance_protocol
  show "a < b \<longleftrightarrow> a \<le> b \<and> \<not> b \<le> a"
    by (auto simp: less_eq_rebalance_protocol_def less_rebalance_protocol_def)
  show "a \<le> b \<Longrightarrow> b \<le> c \<Longrightarrow> a \<le> c" "a \<le> a" "a \<le> b \<or> b \<le> a"
    by (auto simp: less_eq_rebalance_protocol_def)
  show "a \<le> b \<Longrightarrow> b \<le> a \<Longrightarrow> a = b"
    by (cases a; cases b) (auto simp: less_eq_rebalance_protocol_def)
qed

end

fun protocol_name :: "assignor \<Rightarrow> string" where
  "protocol_name Range = ''range''"
| "protocol_name RoundRobin = ''roundrobin''"
| "protocol_name Sticky = ''sticky''"
| "protocol_name CooperativeSticky = ''cooperative-sticky''"

definition assignor_from_str :: "string \<Rightarrow> string + assignor" where
  "assignor_from_str value =
     (if value = ''range'' then Inr Range
      else if value = ''roundrobin'' then Inr RoundRobin
      else if value = ''sticky'' then Inr Sticky
      else if value = ''cooperative-sticky'' then Inr CooperativeSticky
      else Inl (''invalid assignor: '' @ value))"

definition DEFAULT_LIST :: "assignor list" where
  "DEFAULT_LIST = [Range, CooperativeSticky]"

fun supported_protocols :: "assignor \<Rightarrow> rebalance_protocol list" where
  "supported_protocols CooperativeSticky = [Cooperative, Eager]"
| "supported_protocols _ = [Eager]"

definition by_protocol_name :: "assignor list \<Rightarrow> string \<Rightarrow> assignor option" where
  "by_protocol_name assignors name = find (\<lambda>a. protocol_name a = name) assignors"

text \<open>The first loop of \<open>rebalance_protocol_of\<close>: the first assignor that occurred before.\<close>

fun first_duplicate :: "assignor list \<Rightarrow> assignor list \<Rightarrow> assignor option" where
  "first_duplicate earlier [] = None"
| "first_duplicate earlier (a # rest) =
     (if a \<in> set earlier then Some a else first_duplicate (earlier @ [a]) rest)"

definition rebalance_protocol_of :: "assignor list \<Rightarrow> string + rebalance_protocol" where
  "rebalance_protocol_of assignors =
     (case first_duplicate [] assignors of
        Some a \<Rightarrow> Inl (''consumer assignors: duplicate assignor '' @ protocol_name a)
      | None \<Rightarrow>
          (case assignors of
             [] \<Rightarrow> Inl ''consumer assignors must not be empty''
           | first # _ \<Rightarrow>
               (case filter (\<lambda>p. \<forall>a\<in>set assignors. p \<in> set (supported_protocols a))
                       (supported_protocols first) of
                  [] \<Rightarrow> Inl ''consumer assignors have no common rebalance protocol''
                | p # ps \<Rightarrow> Inr (Max (set (p # ps))))))"

lemma assignor_from_str_protocol_name: "assignor_from_str (protocol_name a) = Inr a"
  by (cases a) (simp_all add: assignor_from_str_def)

lemma protocol_name_inject: "protocol_name a = protocol_name b \<longleftrightarrow> a = b"
  by (cases a; cases b) simp_all

lemma first_duplicate_None:
  "first_duplicate earlier xs = None \<longleftrightarrow> distinct xs \<and> set earlier \<inter> set xs = {}"
  by (induction earlier xs rule: first_duplicate.induct) auto

lemma supports_eager: "Eager \<in> set (supported_protocols a)"
  by (cases a) simp_all

lemma supports_cooperative: "Cooperative \<in> set (supported_protocols a) \<longleftrightarrow> a = CooperativeSticky"
  by (cases a) simp_all

section \<open>The order of members\<close>

record member_key =
  mk_member_id :: string
  mk_group_instance_id :: "string option"

datatype cmp_ordering = Less | Equal | Greater

definition str_cmp :: "'a::linorder \<Rightarrow> 'a \<Rightarrow> cmp_ordering" where
  "str_cmp a b = (if a < b then Less else if a = b then Equal else Greater)"

definition member_key_cmp :: "member_key \<Rightarrow> member_key \<Rightarrow> cmp_ordering" where
  "member_key_cmp k other =
     (case (mk_group_instance_id k, mk_group_instance_id other) of
        (Some a, Some b) \<Rightarrow> str_cmp a b
      | (Some _, None) \<Rightarrow> Less
      | (None, Some _) \<Rightarrow> Greater
      | (None, None) \<Rightarrow> str_cmp (mk_member_id k) (mk_member_id other))"

text \<open>
  \<open>members.sort_by(|(a, _), (b, _)| a.cmp(b))\<close>, a stable sort, is a sort by the key that
  \<open>member_key_cmp\<close> compares.
\<close>

definition member_rank :: "member_key \<Rightarrow> bool \<times> string" where
  "member_rank k = (case mk_group_instance_id k of
     Some a \<Rightarrow> (False, a) | None \<Rightarrow> (True, mk_member_id k))"

lemma member_key_cmp_rank: "member_key_cmp k other = str_cmp (member_rank k) (member_rank other)"
  by (auto simp: member_key_cmp_def member_rank_def str_cmp_def split: option.splits)

definition sort_members :: "(member_key \<times> 'a) list \<Rightarrow> (member_key \<times> 'a) list" where
  "sort_members ms = sort_key (\<lambda>(k, _). member_rank k) ms"

lemma set_sort_members [simp]: "set (sort_members ms) = set ms"
  by (simp add: sort_members_def)

lemma mset_sort_members [simp]: "mset (sort_members ms) = mset ms"
  by (simp add: sort_members_def)

lemma length_sort_members [simp]: "length (sort_members ms) = length ms"
  by (simp add: sort_members_def)

lemma mset_map_sort_members: "mset (map f (sort_members ms)) = mset (map f ms)"
  by simp

lemma distinct_map_sort_members: "distinct (map f (sort_members ms)) \<longleftrightarrow> distinct (map f ms)"
  by (rule mset_eq_imp_distinct_iff) simp

section \<open>User data of the sticky assignors\<close>

definition DEFAULT_GENERATION :: int where "DEFAULT_GENERATION = - 1"

definition group_by_topic :: "topic_partition list \<Rightarrow> (string \<times> int list) list" where
  "group_by_topic pairs = fold (\<lambda>(t, p) m. btree_entry t [] (\<lambda>ps. ps @ [p]) m) pairs []"

definition put_array_len :: "nat \<Rightarrow> u8 list" where
  "put_array_len n = be_bytes 4 (i32_of_usize n)"

definition i16_of_usize :: "nat \<Rightarrow> int" where
  "i16_of_usize n = (if int n \<le> 32767 then int n else 32767)"

definition put_topic_partitions :: "string \<times> int list \<Rightarrow> u8 list" where
  "put_topic_partitions = (\<lambda>(topic, partitions).
     be_bytes 2 (i16_of_usize (length topic)) @ as_bytes topic
     @ put_array_len (length partitions) @ concat (map (be_bytes 4) (sort partitions)))"

definition subscription_user_data ::
  "assignor \<Rightarrow> topic_partition list option \<Rightarrow> int \<Rightarrow> u8 list option" where
  "subscription_user_data assignor last_assignment generation =
     (case assignor of
        Range \<Rightarrow> None
      | RoundRobin \<Rightarrow> None
      | Sticky \<Rightarrow>
          map_option (\<lambda>partitions.
            let by_topic = group_by_topic partitions
            in put_array_len (length by_topic) @ concat (map put_topic_partitions by_topic)
               @ be_bytes 4 generation) last_assignment
      | CooperativeSticky \<Rightarrow> Some (be_bytes 4 generation))"

text \<open>\<open>usize::try_from(n).ok()\<close> of a signed integer.\<close>

definition usize_try_from :: "int \<Rightarrow> nat option" where
  "usize_try_from n = (if n < 0 then None else Some (nat n))"

text \<open>\<open>buf.get_i32()\<close> repeated, after the caller has checked the remaining length.\<close>

fun get_i32s :: "nat \<Rightarrow> u8 list \<Rightarrow> int list" where
  "get_i32s 0 buf = []"
| "get_i32s (Suc n) buf = from_be_bytes (take 4 buf) # get_i32s n (drop 4 buf)"

definition read_topic :: "u8 list \<Rightarrow> (topic_partition list \<times> u8 list) option" where
  "read_topic buf =
     (if length buf < 2 then None
      else case usize_try_from (from_be_bytes (take 2 buf)) of
        None \<Rightarrow> None
      | Some len \<Rightarrow>
          (let buf = drop 2 buf
           in if length buf < len + 4 then None
              else case from_utf8 (take len buf) of
                None \<Rightarrow> None
              | Some topic \<Rightarrow>
                  (let buf = drop len buf
                   in case usize_try_from (from_be_bytes (take 4 buf)) of
                        None \<Rightarrow> None
                      | Some cnt \<Rightarrow>
                          (let buf = drop 4 buf
                           in if usize_max < cnt * 4 then None
                              else if length buf < cnt * 4 then None
                              else Some (map (Pair topic) (get_i32s cnt buf),
                                         drop (cnt * 4) buf)))))"

fun read_topics :: "nat \<Rightarrow> u8 list \<Rightarrow> (topic_partition list \<times> u8 list) option" where
  "read_topics 0 buf = Some ([], buf)"
| "read_topics (Suc n) buf =
     (case read_topic buf of
        None \<Rightarrow> None
      | Some (ps, rest) \<Rightarrow> map_option (\<lambda>(qs, rest). (ps @ qs, rest)) (read_topics n rest))"

definition read_topic_partitions :: "u8 list \<Rightarrow> (topic_partition list \<times> u8 list) option" where
  "read_topic_partitions buf =
     (if length buf < 4 then None
      else case usize_try_from (from_be_bytes (take 4 buf)) of
        None \<Rightarrow> None
      | Some topics \<Rightarrow> read_topics topics (drop 4 buf))"

definition decode_sticky_user_data :: "u8 list option \<Rightarrow> topic_partition list \<times> int" where
  "decode_sticky_user_data user_data =
     (case user_data of
        None \<Rightarrow> ([], DEFAULT_GENERATION)
      | Some bytes \<Rightarrow>
          (if bytes = [] then ([], DEFAULT_GENERATION)
           else case read_topic_partitions bytes of
             None \<Rightarrow> ([], DEFAULT_GENERATION)
           | Some (partitions, buf) \<Rightarrow>
               (partitions,
                if 4 \<le> length buf then from_be_bytes (take 4 buf) else DEFAULT_GENERATION)))"

subsection \<open>Grouping by topic\<close>

lemma group_fold:
  assumes "btree_wf m"
  shows "btree_wf (fold (\<lambda>(t, p) m. btree_entry t [] (\<lambda>ps. ps @ [p]) m) pairs m)
    \<and> map_of (fold (\<lambda>(t, p) m. btree_entry t [] (\<lambda>ps. ps @ [p]) m) pairs m) t
      = (case map_of m t of
           None \<Rightarrow> (if t \<in> fst ` set pairs then Some (map snd (filter (\<lambda>x. fst x = t) pairs)) else None)
         | Some ps \<Rightarrow> Some (ps @ map snd (filter (\<lambda>x. fst x = t) pairs)))"
  using assms
proof (induction pairs arbitrary: m)
  case Nil
  then show ?case by (auto split: option.splits)
next
  case (Cons x pairs)
  obtain u p where x: "x = (u, p)" by force
  have "btree_wf (btree_entry u [] (\<lambda>ps. ps @ [p]) m)"
    using Cons.prems by (rule btree_entry_wf)
  from Cons.IH [OF this] show ?case
    using Cons.prems by (auto simp: x map_of_btree_entry split: option.splits)
qed

lemma group_by_topic_wf [simp]: "btree_wf (group_by_topic pairs)"
  using group_fold [of "[]" pairs] by (simp add: group_by_topic_def)

lemma map_of_group_by_topic:
  "map_of (group_by_topic pairs) t =
     (if t \<in> fst ` set pairs then Some (map snd (filter (\<lambda>x. fst x = t) pairs)) else None)"
  using group_fold [of "[]" pairs t] by (simp add: group_by_topic_def)

text \<open>Written out topic by topic with each group sorted, the pairs come in tuple order.\<close>

definition flatten_groups :: "(string \<times> int list) list \<Rightarrow> topic_partition list" where
  "flatten_groups gs = concat (map (\<lambda>(t, ps). map (Pair t) ps) gs)"

lemma count_flatten_groups:
  "distinct (map fst gs) \<Longrightarrow>
     count (mset (flatten_groups gs)) (t, p)
       = (case map_of gs t of None \<Rightarrow> 0 | Some ps \<Rightarrow> count (mset ps) p)"
proof (induction gs)
  case (Cons g gs)
  obtain u ps where g: "g = (u, ps)" by force
  have "count (mset (map (Pair u) ps)) (t, p) = (if u = t then count (mset ps) p else 0)"
    by (induction ps) auto
  moreover have "u = t \<Longrightarrow> map_of gs t = None"
    using Cons.prems g by (auto simp: map_of_eq_None_iff)
  ultimately show ?case
    using Cons by (auto simp: g flatten_groups_def split: option.splits)
qed (simp add: flatten_groups_def)

lemma sorted_flatten_groups:
  "btree_wf gs \<Longrightarrow> sorted (flatten_groups (map (\<lambda>(t, ps). (t, sort ps)) gs))"
proof (induction gs)
  case (Cons g gs)
  obtain u ps where g: "g = (u, ps)" by force
  have "sorted (map (Pair u) (sort ps))"
    by (rule sorted_map [THEN iffD2], rule sorted_wrt_mono_rel [OF _ sorted_sort]) simp
  moreover have "u < t" if "(t, qs) \<in> set gs" for t qs
    using Cons.prems that g by (force simp: btree_wf_def less_le)
  then have "x \<le> y" if "x \<in> set (map (Pair u) (sort ps))"
    "y \<in> set (flatten_groups (map (\<lambda>(t, ps). (t, sort ps)) gs))" for x y
    using that by (auto simp: flatten_groups_def)
  moreover have "btree_wf gs" using Cons.prems by (simp add: btree_wf_def)
  ultimately show ?case
    using Cons.IH by (simp add: g flatten_groups_def sorted_append)
qed (simp add: flatten_groups_def)

lemma flatten_group_by_topic:
  "flatten_groups (map (\<lambda>(t, ps). (t, sort ps)) (group_by_topic pairs)) = sort pairs"
proof (rule properties_for_sort [symmetric])
  let ?gs = "group_by_topic pairs"
  let ?ss = "map (\<lambda>(t, ps). (t, sort ps)) ?gs"
  have d: "distinct (map fst ?gs)" using group_by_topic_wf [of pairs] by (simp add: btree_wf_def)
  have fst_ss: "map fst ?ss = map fst ?gs" by auto
  have m: "map_of ?ss t = map_option sort (map_of ?gs t)" for t
    by (simp add: map_of_map)
  have "count (mset (flatten_groups ?ss)) (t, p) = count (mset pairs) (t, p)" for t p
  proof -
    have "count (mset (map snd (filter (\<lambda>x. fst x = t) pairs))) p = count (mset pairs) (t, p)"
      by (induction pairs) auto
    moreover have "t \<notin> fst ` set pairs \<Longrightarrow> count (mset pairs) (t, p) = 0"
      by (force simp: count_eq_zero_iff)
    ultimately show ?thesis
      using count_flatten_groups [of ?ss t p] d
      unfolding fst_ss m map_of_group_by_topic by (auto simp del: mset_map mset_filter)
  qed
  then show "mset (flatten_groups ?ss) = mset pairs"
    by (intro multiset_eqI) (metis surj_pair)
  show "sorted (flatten_groups ?ss)" by (rule sorted_flatten_groups) simp
qed

subsection \<open>Reading back what was written\<close>

lemma get_i32s_concat:
  "\<forall>p\<in>set ps. i32_range p \<Longrightarrow> get_i32s (length ps) (concat (map (be_bytes 4) ps) @ rest) = ps"
  by (induction ps) (simp_all add: codec_simps)

lemma length_concat_be [simp]: "length (concat (map (be_bytes n) ps)) = length ps * n"
  by (induction ps) simp_all

definition user_topic_ok :: "string \<Rightarrow> int list \<Rightarrow> bool" where
  "user_topic_ok t ps \<longleftrightarrow>
     utf8_str t \<and> length t \<le> 32767 \<and> length ps \<le> 2147483647 \<and> (\<forall>p\<in>set ps. i32_range p)"

lemma read_topic_put:
  assumes "user_topic_ok t ps"
  shows "read_topic (put_topic_partitions (t, ps) @ rest) = Some (map (Pair t) (sort ps), rest)"
proof -
  have len: "from_be_bytes (be_bytes 2 (i16_of_usize (length t))) = int (length t)"
    and cnt: "from_be_bytes (be_bytes 4 (i32_of_usize (length ps))) = int (length ps)"
    using assms
    by (simp_all add: user_topic_ok_def i16_of_usize_def i32_of_usize_def codec_simps range_simps)
  have "get_i32s (length ps) (concat (map (be_bytes 4) (sort ps)) @ rest) = sort ps"
    using get_i32s_concat [of "sort ps" rest] assms by (simp add: user_topic_ok_def)
  moreover have "\<not> usize_max < length ps * 4"
    using assms by (simp add: user_topic_ok_def usize_max_def)
  ultimately show ?thesis
    using assms len cnt
    by (simp add: read_topic_def put_topic_partitions_def put_array_len_def usize_try_from_def
        Let_def user_topic_ok_def codec_simps)
qed

lemma read_topics_put:
  "\<forall>(t, ps)\<in>set gs. user_topic_ok t ps \<Longrightarrow>
     read_topics (length gs) (concat (map put_topic_partitions gs) @ rest)
       = Some (flatten_groups (map (\<lambda>(t, ps). (t, sort ps)) gs), rest)"
  by (induction gs) (auto simp: read_topic_put flatten_groups_def)

text \<open>What a \<open>sticky\<close> member can send: partitions and topics within the ranges of the layout.\<close>

definition user_data_ok :: "topic_partition list \<Rightarrow> int \<Rightarrow> bool" where
  "user_data_ok ps generation \<longleftrightarrow>
     length ps \<le> 2147483647 \<and> i32_range generation
     \<and> (\<forall>(t, p)\<in>set ps. utf8_str t \<and> length t \<le> 32767 \<and> i32_range p)"

lemma group_topics_ok:
  assumes "user_data_ok ps g"
  shows "\<forall>(t, qs)\<in>set (group_by_topic ps). user_topic_ok t qs"
    and "length (group_by_topic ps) \<le> 2147483647"
proof -
  have wf: "distinct (map fst (group_by_topic ps))"
    using group_by_topic_wf [of ps] by (simp add: btree_wf_def)
  have keys: "fst ` set (group_by_topic ps) = fst ` set ps"
  proof -
    have "dom (map_of (group_by_topic ps)) = fst ` set ps"
      by (auto simp: map_of_group_by_topic dom_def)
    then show ?thesis by (simp add: dom_map_of_conv_image_fst)
  qed
  have "length (group_by_topic ps) = card (fst ` set ps)"
    using distinct_card [OF wf] keys by simp
  also have "\<dots> \<le> length ps"
    by (meson card_image_le card_length finite_set le_trans)
  finally show "length (group_by_topic ps) \<le> 2147483647"
    using assms by (simp add: user_data_ok_def)
  show "\<forall>(t, qs)\<in>set (group_by_topic ps). user_topic_ok t qs"
  proof clarify
    fix t qs assume "(t, qs) \<in> set (group_by_topic ps)"
    with wf have "map_of (group_by_topic ps) t = Some qs" by simp
    then have t: "t \<in> fst ` set ps" and qs: "qs = map snd (filter (\<lambda>x. fst x = t) ps)"
      by (simp_all add: map_of_group_by_topic split: if_splits)
    have "length qs \<le> length ps" by (simp add: qs)
    then have "length qs \<le> 2147483647" using assms by (simp add: user_data_ok_def)
    then show "user_topic_ok t qs"
      using assms t by (auto simp: user_topic_ok_def user_data_ok_def qs)
  qed
qed

lemma decode_sticky_encoded:
  assumes "user_data_ok ps g"
  shows "decode_sticky_user_data (subscription_user_data Sticky (Some ps) g) = (sort ps, g)"
proof -
  let ?gs = "group_by_topic ps"
  have "from_be_bytes (be_bytes 4 (i32_of_usize (length ?gs))) = int (length ?gs)"
    using group_topics_ok(2) [OF assms] by (simp add: i32_of_usize_def codec_simps range_simps)
  then have "read_topic_partitions
      (put_array_len (length ?gs) @ concat (map put_topic_partitions ?gs) @ be_bytes 4 g)
      = Some (sort ps, be_bytes 4 g)"
    using read_topics_put [OF group_topics_ok(1) [OF assms], of "be_bytes 4 g"]
    by (simp add: read_topic_partitions_def put_array_len_def usize_try_from_def
        flatten_group_by_topic)
  moreover have "be_bytes 4 g \<noteq> []"
    by (simp add: numeral_eq_Suc)
  ultimately show ?thesis
    using assms
    by (simp add: decode_sticky_user_data_def subscription_user_data_def Let_def codec_simps
        user_data_ok_def)
qed

section \<open>Assignments\<close>

text \<open>
  \<open>if let Some(slot) = out.get_mut(m) { slot.push(tp) }\<close> and
  \<open>out.entry(m).or_default().push(tp)\<close>.
\<close>

definition slot_push :: "string \<Rightarrow> topic_partition \<Rightarrow> assignment \<Rightarrow> assignment" where
  "slot_push m tp out = AList.map_entry m (\<lambda>ps. ps @ [tp]) out"

definition entry_push :: "string \<Rightarrow> topic_partition \<Rightarrow> assignment \<Rightarrow> assignment" where
  "entry_push m tp out = AList.map_default m [tp] (\<lambda>ps. ps @ [tp]) out"

text \<open>The partitions of a member (\<open>out.get(m).cloned().unwrap_or_default()\<close>), and of all members.\<close>

definition slot :: "assignment \<Rightarrow> string \<Rightarrow> topic_partition list" where
  "slot out m = (case map_of out m of None \<Rightarrow> [] | Some ps \<Rightarrow> ps)"

definition held :: "assignment \<Rightarrow> topic_partition list" where
  "held out = concat (map snd out)"

text \<open>
  The members of a group with their subscriptions, and the partitions that the group wants: those
  of the topics that the cluster has and a member subscribes to.
\<close>

type_synonym group_view = "(string \<times> string list) list"

definition subscribes :: "group_view \<Rightarrow> string \<Rightarrow> string \<Rightarrow> bool" where
  "subscribes subs m t \<longleftrightarrow> list_ex (\<lambda>(m', ts). m' = m \<and> t \<in> set ts) subs"

definition wanted :: "group_view \<Rightarrow> topic_counts \<Rightarrow> topic_partition \<Rightarrow> bool" where
  "wanted subs tps = (\<lambda>(t, p).
     list_ex (\<lambda>(_, ts). t \<in> set ts) subs
     \<and> (case map_of tps t of None \<Rightarrow> False | Some c \<Rightarrow> 0 \<le> p \<and> p < c))"

text \<open>
  What the group relies on: the assignment has one slot per member, every wanted partition is in
  exactly one slot, nothing else is assigned, and a member only gets topics it subscribes to.
\<close>

definition valid_assignment :: "group_view \<Rightarrow> topic_counts \<Rightarrow> assignment \<Rightarrow> bool" where
  "valid_assignment subs tps out \<longleftrightarrow>
     distinct (map fst out) \<and> fst ` set out = fst ` set subs
     \<and> distinct (held out) \<and> (\<forall>tp. tp \<in> set (held out) \<longleftrightarrow> wanted subs tps tp)
     \<and> (\<forall>(m, ps)\<in>set out. \<forall>tp\<in>set ps. subscribes subs m (fst tp))"

text \<open>An assignment under construction, which has placed the partitions of \<open>M\<close> so far.\<close>

definition placed :: "group_view \<Rightarrow> topic_partition multiset \<Rightarrow> assignment \<Rightarrow> bool" where
  "placed subs M out \<longleftrightarrow>
     distinct (map fst out) \<and> fst ` set out = fst ` set subs
     \<and> mset (held out) = M
     \<and> (\<forall>(m, ps)\<in>set out. \<forall>tp\<in>set ps. subscribes subs m (fst tp))"

lemma subscribes_iff: "subscribes subs m t \<longleftrightarrow> (\<exists>ts. (m, ts) \<in> set subs \<and> t \<in> set ts)"
  by (auto simp: subscribes_def list_ex_iff)

lemma wanted_iff:
  "wanted subs tps (t, p) \<longleftrightarrow>
     (\<exists>m. subscribes subs m t) \<and> (\<exists>c. map_of tps t = Some c \<and> 0 \<le> p \<and> p < c)"
  by (auto simp: wanted_def list_ex_iff subscribes_iff split: option.splits)

lemma subscribes_member: "subscribes subs m t \<Longrightarrow> m \<in> fst ` set subs"
  by (force simp: subscribes_iff)

lemma map_fst_map_entry [simp]: "map fst (AList.map_entry k f xs) = map fst xs"
  by (induction xs) auto

lemma map_default_entry:
  "k \<in> fst ` set xs \<Longrightarrow> AList.map_default k v f xs = AList.map_entry k f xs"
  by (induction xs) auto

lemma mset_held_push:
  "distinct (map fst out) \<Longrightarrow> m \<in> fst ` set out \<Longrightarrow>
     mset (held (slot_push m tp out)) = add_mset tp (mset (held out))"
  by (induction out) (auto simp: slot_push_def held_def)

lemma slot_push_entries:
  "(k, ps) \<in> set (slot_push m tp out) \<Longrightarrow>
     (k, ps) \<in> set out \<or> (k = m \<and> (\<exists>qs. (m, qs) \<in> set out \<and> ps = qs @ [tp]))"
  by (induction out) (auto simp: slot_push_def split: if_splits)

lemma map_fst_slot_push [simp]: "map fst (slot_push m tp out) = map fst out"
  by (simp add: slot_push_def)

lemma fst_set_slot_push [simp]: "fst ` set (slot_push m tp out) = fst ` set out"
  by (simp add: slot_push_def dom_map_entry)

lemma placed_push:
  assumes "placed subs M out" "subscribes subs m (fst tp)"
  shows "placed subs (add_mset tp M) (slot_push m tp out)"
  unfolding placed_def
proof (intro conjI)
  have m: "m \<in> fst ` set out"
    using assms subscribes_member by (force simp: placed_def)
  show "distinct (map fst (slot_push m tp out))" "fst ` set (slot_push m tp out) = fst ` set subs"
    using assms by (simp_all add: placed_def)
  show "mset (held (slot_push m tp out)) = add_mset tp M"
    using assms m by (simp add: placed_def mset_held_push)
  show "\<forall>(k, ps)\<in>set (slot_push m tp out). \<forall>x\<in>set ps. subscribes subs k (fst x)"
  proof clarify
    fix k ps t p assume *: "(k, ps) \<in> set (slot_push m tp out)" "(t, p) \<in> set ps"
    from slot_push_entries [OF *(1)] *(2) show "subscribes subs k (fst (t, p))"
      using assms by (fastforce simp: placed_def)
  qed
qed

lemma entry_push_slot: "m \<in> fst ` set out \<Longrightarrow> entry_push m tp out = slot_push m tp out"
  by (simp add: entry_push_def slot_push_def map_default_entry)

lemma placed_entry_push:
  assumes "placed subs M out" "subscribes subs m (fst tp)"
  shows "placed subs (add_mset tp M) (entry_push m tp out)"
  using placed_push [OF assms] assms subscribes_member [OF assms(2)]
  by (simp add: placed_def entry_push_slot)

lemma in_slot:
  "distinct (map fst out) \<Longrightarrow>
     tp \<in> set (slot out m) \<longleftrightarrow> (\<exists>ps. (m, ps) \<in> set out \<and> tp \<in> set ps)"
  by (auto simp: slot_def split: option.splits)

lemma in_held: "distinct (map fst out) \<Longrightarrow> tp \<in> set (held out) \<longleftrightarrow> (\<exists>m. tp \<in> set (slot out m))"
  unfolding held_def by (simp add: in_slot) force

lemma slot_unique:
  assumes "distinct (map fst out)" "distinct (held out)"
    and "tp \<in> set (slot out m)" "tp \<in> set (slot out m')"
  shows "m = m'"
proof -
  obtain ps ps' where "(m, ps) \<in> set out" "tp \<in> set ps" "(m', ps') \<in> set out" "tp \<in> set ps'"
    using assms in_slot by metis
  then show ?thesis
    using assms(2)
  proof (induction out)
    case (Cons e out)
    then show ?case
      by (cases e) (force simp: held_def)
  qed simp
qed

lemma slot_not_member: "m \<notin> fst ` set out \<Longrightarrow> slot out m = []"
  by (simp add: slot_def map_of_eq_None_iff [THEN iffD2])

lemma slot_slot_push:
  "slot (slot_push m tp out) k =
     (if k = m \<and> m \<in> fst ` set out then slot out m @ [tp] else slot out k)"
proof (cases "map_of out m")
  case None
  then have "m \<notin> fst ` set out" by (simp add: map_of_eq_None_iff)
  then show ?thesis using None by (simp add: slot_def slot_push_def map_of_map_entry)
next
  case (Some ps)
  then have "m \<in> fst ` set out" by (metis map_of_eq_None_iff option.distinct(1))
  then show ?thesis using Some by (simp add: slot_def slot_push_def map_of_map_entry)
qed

lemma placed_valid:
  assumes "placed subs M out" "\<And>tp. count M tp = (if wanted subs tps tp then 1 else 0)"
  shows "valid_assignment subs tps out"
proof -
  have "count (mset (held out)) tp = (if wanted subs tps tp then 1 else 0)" for tp
    using assms by (simp add: placed_def)
  then have "distinct (held out)" "\<And>tp. tp \<in> set (held out) \<longleftrightarrow> wanted subs tps tp"
    by (simp_all add: distinct_count_atmost_1 flip: count_greater_zero_iff set_mset_mset)
  then show ?thesis
    using assms by (simp add: placed_def valid_assignment_def)
qed

text \<open>The partitions of the topics \<open>ts\<close> that the cluster has, topic by topic.\<close>

definition partitions_of :: "topic_counts \<Rightarrow> string list \<Rightarrow> topic_partition list" where
  "partitions_of tps ts =
     concat (map (\<lambda>t. case map_of tps t of None \<Rightarrow> [] | Some c \<Rightarrow> map (Pair t) [0..c - 1]) ts)"

lemma partitions_of_simps [simp]:
  "partitions_of tps [] = []"
  "partitions_of tps (ts @ us) = partitions_of tps ts @ partitions_of tps us"
  "partitions_of tps (t # ts) =
     (case map_of tps t of None \<Rightarrow> [] | Some c \<Rightarrow> map (Pair t) [0..c - 1]) @ partitions_of tps ts"
  by (simp_all add: partitions_of_def)

lemma in_partitions_of:
  "(t, p) \<in> set (partitions_of tps ts) \<longleftrightarrow>
     t \<in> set ts \<and> (\<exists>c. map_of tps t = Some c \<and> 0 \<le> p \<and> p < c)"
  by (induction ts) (auto split: option.splits, metis+)

lemma distinct_partitions_of: "distinct ts \<Longrightarrow> distinct (partitions_of tps ts)"
proof (induction ts)
  case (Cons t ts)
  then show ?case
    by (auto simp: in_partitions_of distinct_map inj_on_def split: option.splits)
qed simp

lemma valid_of_partitions:
  assumes "placed subs (mset (partitions_of tps ts)) out" "distinct ts"
    and "\<And>t c. map_of tps t = Some c \<Longrightarrow> 0 < c \<Longrightarrow> t \<in> set ts \<longleftrightarrow> (\<exists>m. subscribes subs m t)"
  shows "valid_assignment subs tps out"
proof (rule placed_valid [OF assms(1)])
  fix tp
  have "tp \<in> set (partitions_of tps ts) \<longleftrightarrow> wanted subs tps tp"
    using assms(3) by (cases tp) (force simp: in_partitions_of wanted_iff)
  then show "count (mset (partitions_of tps ts)) tp = (if wanted subs tps tp then 1 else 0)"
    using distinct_partitions_of [OF assms(2), of tps] distinct_count_atmost_1 by metis
qed

section \<open>The contract of an eager assignor\<close>

text \<open>
  A group is well formed when its member ids differ and its member array has an \<open>i32\<close> length, as
  every \<open>JoinGroup\<close> response has.  \<open>view\<close> reads the member ids and subscriptions from the input of an assignor and \<open>run\<close> is the
  assignor.  The facts proved here are what the leader hands to the group in \<open>SyncGroup\<close>.
\<close>

definition group_ok :: "group_view \<Rightarrow> topic_counts \<Rightarrow> bool" where
  "group_ok subs tps \<longleftrightarrow>
     distinct (map fst subs) \<and> length subs \<le> 2147483647 \<and> distinct (map fst tps)"

locale eager_assignor =
  fixes view :: "'g \<Rightarrow> group_view"
    and run :: "'g \<Rightarrow> topic_counts \<Rightarrow> assignment"
  assumes run_valid:
    "group_ok (view g) tps \<Longrightarrow> valid_assignment (view g) tps (run g tps)"
begin

lemma owner_iff:
  assumes "group_ok (view g) tps"
  shows "(\<exists>m. tp \<in> set (slot (run g tps) m)) \<longleftrightarrow> wanted (view g) tps tp"
  using run_valid [OF assms] in_held [of "run g tps" tp] unfolding valid_assignment_def by blast

lemma owner_unique:
  assumes "group_ok (view g) tps"
    and "tp \<in> set (slot (run g tps) m)" "tp \<in> set (slot (run g tps) m')"
  shows "m = m'"
  using run_valid [OF assms(1)] slot_unique [OF _ _ assms(2,3)]
  unfolding valid_assignment_def by blast

lemma exactly_one_owner:
  assumes "group_ok (view g) tps" "wanted (view g) tps tp"
  shows "\<exists>!m. tp \<in> set (slot (run g tps) m)"
  using owner_iff [OF assms(1)] owner_unique [OF assms(1)] assms(2) by blast

lemma owner_subscribes:
  assumes "group_ok (view g) tps"
    and "tp \<in> set (slot (run g tps) m)"
  shows "subscribes (view g) m (fst tp)"
  using run_valid [OF assms(1)] assms(2) in_slot [of "run g tps" tp m]
  unfolding valid_assignment_def by fast

end

end
