(* ===== verification/Assignor_Eager.thy ===== *)
theory Assignor_Eager
  imports Assignor
begin

text \<open>
  The \<open>range\<close> and \<open>roundrobin\<close> assignors (\<open>client-consumer/src/assignor/range.rs\<close> and
  \<open>round_robin.rs\<close>), each an interpretation of the assignor contract, with the balance that each
  of them gives.
\<close>

type_synonym subscribed_member = "member_key \<times> string list"

definition member_view :: "subscribed_member list \<Rightarrow> group_view" where
  "member_view members = map (\<lambda>(k, ts). (mk_member_id k, ts)) members"

section \<open>The range assignor\<close>

text \<open>\<open>for p in next..(next + take)\<close>.\<close>

definition push_range :: "string \<Rightarrow> string \<Rightarrow> int \<Rightarrow> int \<Rightarrow> assignment \<Rightarrow> assignment" where
  "push_range topic m next tak out =
     fold (\<lambda>p out. slot_push m (topic, p) out) [next..next + tak - 1] out"

text \<open>The loop over the subscribed members of one topic, from index \<open>i\<close>.\<close>

fun range_members ::
  "string \<Rightarrow> int \<Rightarrow> int \<Rightarrow> nat \<Rightarrow> string list \<Rightarrow> int \<Rightarrow> assignment \<Rightarrow> assignment" where
  "range_members topic per extras i [] next out = out"
| "range_members topic per extras i (m # ms) next out =
     (let extra = (if i32_of_usize i < extras then 1 else 0);
          tak = per + extra
      in range_members topic per extras (Suc i) ms (next + tak)
           (push_range topic m next tak out))"

definition range_topic ::
  "subscribed_member list \<Rightarrow> string \<times> int \<Rightarrow> assignment \<Rightarrow> assignment" where
  "range_topic members = (\<lambda>(topic, partition_count) out.
     let subscribed = map (\<lambda>(k, _). mk_member_id k) (filter (\<lambda>(_, subs). topic \<in> set subs) members)
     in if subscribed = [] \<or> partition_count \<le> 0 then out
        else let n = i32_of_usize (length subscribed);
                 per = partition_count div n;
                 extras = partition_count mod n
             in range_members topic per extras 0 subscribed 0 out)"

definition assign_members :: "subscribed_member list \<Rightarrow> topic_counts \<Rightarrow> assignment" where
  "assign_members members topic_partitions =
     (let members = sort_members members;
          out = map (\<lambda>(k, _). (mk_member_id k, [])) members;
          topics = sort_key fst topic_partitions
      in fold (range_topic members) topics out)"

section \<open>The round robin assignor\<close>

text \<open>
  \<open>members.iter().cycle().skip(next % len).take(len).enumerate().find(..)\<close>: the members from
  position \<open>next % len\<close> on, once around.
\<close>

definition next_subscriber ::
  "subscribed_member list \<Rightarrow> string \<Rightarrow> nat \<Rightarrow> (nat \<times> subscribed_member) option" where
  "next_subscriber members topic next =
     find (\<lambda>(_, _, member_topics). topic \<in> set member_topics)
       (enumerate 0 (rotate (next mod length members) members))"

definition round_robin_partition ::
  "subscribed_member list \<Rightarrow> string \<Rightarrow> int \<Rightarrow> nat \<times> assignment \<Rightarrow> nat \<times> assignment" where
  "round_robin_partition members topic p = (\<lambda>(next, out).
     case next_subscriber members topic next of
       None \<Rightarrow> (next, out)
     | Some (skipped, member, _) \<Rightarrow>
         (next + (skipped + 1), slot_push (mk_member_id member) (topic, p) out))"

definition round_robin_topic ::
  "subscribed_member list \<Rightarrow> topic_counts \<Rightarrow> string \<Rightarrow> nat \<times> assignment \<Rightarrow> nat \<times> assignment" where
  "round_robin_topic members topic_partitions topic s =
     (case map_of topic_partitions topic of
        None \<Rightarrow> s
      | Some cnt \<Rightarrow> fold (round_robin_partition members topic) [0..max cnt 0 - 1] s)"

definition round_robin_assign :: "subscribed_member list \<Rightarrow> topic_counts \<Rightarrow> assignment" where
  "round_robin_assign members topic_partitions =
     (let out = map (\<lambda>(k, _). (mk_member_id k, [])) members
      in if members = [] then out
         else let members = sort_members members;
                  topics = btree_set (concat (map snd members))
              in snd (fold (round_robin_topic members topic_partitions) topics (0, out)))"

section \<open>Both assignors meet the contract\<close>

lemma placed_fold_push:
  assumes "placed subs M out" "\<And>p. p \<in> set ps \<Longrightarrow> subscribes subs m (fst (f p))"
  shows "placed subs (M + mset (map f ps)) (fold (\<lambda>p out. slot_push m (f p) out) ps out)"
  using assms
proof (induction ps arbitrary: M out)
  case (Cons p ps)
  have "placed subs (add_mset (f p) M) (slot_push m (f p) out)"
    using Cons.prems by (intro placed_push) simp_all
  from Cons.IH [OF this] Cons.prems show ?case by simp
qed simp

lemma upto_append: "i \<le> j \<Longrightarrow> j \<le> k \<Longrightarrow> [i..j - 1] @ [j..k - 1] = [i..k - 1]"
  using upto_split2 [of i "j - 1" "k - 1"] by (cases "i = j") auto

text \<open>The first \<open>i\<close> members of a topic get this many partitions together.\<close>

definition range_start :: "int \<Rightarrow> int \<Rightarrow> nat \<Rightarrow> int" where
  "range_start per extras i = int i * per + min (int i) extras"

lemma range_start_Suc:
  "range_start per extras (Suc i)
     = range_start per extras i + (per + (if int i < extras then 1 else 0))"
  by (simp add: range_start_def algebra_simps min_def)

lemma range_start_mono: "0 \<le> per \<Longrightarrow> i \<le> j \<Longrightarrow> range_start per extras i \<le> range_start per extras j"
  by (auto simp: range_start_def intro!: add_mono mult_right_mono)

lemma range_members_placed:
  assumes "placed subs M out" "\<And>m. m \<in> set ms \<Longrightarrow> subscribes subs m topic"
    and "0 \<le> per" "i + length ms \<le> 2147483647"
  shows "placed subs
      (M + mset (map (Pair topic) [range_start per extras i..range_start per extras (i + length ms) - 1]))
      (range_members topic per extras i ms (range_start per extras i) out)"
  using assms
proof (induction ms arbitrary: i M out)
  case Nil
  then show ?case by simp
next
  case (Cons m ms)
  let ?s = "range_start per extras"
  have i32: "i32_of_usize i = int i" using Cons.prems(4) by (simp add: i32_of_usize_def)
  have step: "?s i + (per + (if int i < extras then 1 else 0)) = ?s (Suc i)"
    by (rule range_start_Suc [symmetric])
  have "placed subs (M + mset (map (Pair topic) [?s i..?s (Suc i) - 1]))
      (push_range topic m (?s i) (per + (if int i < extras then 1 else 0)) out)"
    unfolding push_range_def step using Cons.prems(1,2) by (intro placed_fold_push) simp_all
  from Cons.IH [OF this, of "Suc i"] Cons.prems
  have "placed subs
      (M + mset (map (Pair topic) ([?s i..?s (Suc i) - 1] @ [?s (Suc i)..?s (i + length (m # ms)) - 1])))
      (range_members topic per extras (Suc i) ms (?s (Suc i))
        (push_range topic m (?s i) (per + (if int i < extras then 1 else 0)) out))"
    by (simp add: add.assoc)
  moreover have "[?s i..?s (Suc i) - 1] @ [?s (Suc i)..?s (i + length (m # ms)) - 1]
      = [?s i..?s (i + length (m # ms)) - 1]"
    using Cons.prems(3) by (intro upto_append range_start_mono) simp_all
  ultimately show ?case
    by (simp only: range_members.simps Let_def i32 step)
qed

lemma range_total:
  assumes "0 < n" "0 \<le> c"
  shows "range_start (c div int n) (c mod int n) n = c"
proof -
  have "c mod int n < int n" using assms by simp
  then show ?thesis by (simp add: range_start_def min_def)
qed

lemma range_topic_placed:
  assumes "placed subs M out" "subs = member_view ms'" "set ms = set ms'" "length ms \<le> 2147483647"
  shows "placed subs
     (M + mset (if \<exists>m. subscribes subs m t then map (Pair t) [0..c - 1] else []))
     (range_topic ms (t, c) out)"
proof -
  let ?ids = "map (\<lambda>(k, _). mk_member_id k) (filter (\<lambda>(_, subs). t \<in> set subs) ms)"
  let ?n = "length ?ids"
  have ids: "m \<in> set ?ids \<longleftrightarrow> subscribes subs m t" for m
    using assms(2,3) by (force simp: subscribes_iff member_view_def)
  have len: "?n \<le> 2147483647"
    using assms(4) le_trans [OF length_filter_le] by simp
  show ?thesis
  proof (cases "?ids = [] \<or> c \<le> 0")
    case True
    then have "range_topic ms (t, c) out = out"
      by (simp only: range_topic_def prod.case Let_def if_True)
    moreover have "(if \<exists>m. subscribes subs m t then map (Pair t) [0..c - 1] else []) = []"
      using True ids by (metis empty_iff list.set(1) list.simps(8) upto_empty zle_diff1_eq linorder_not_le)
    ultimately show ?thesis using assms(1) by simp
  next
    case False
    then have n: "0 < ?n" "0 < c" by auto
    have i32: "i32_of_usize ?n = int ?n" using len by (simp only: i32_of_usize_def) simp
    have step: "range_topic ms (t, c) out
        = range_members t (c div int ?n) (c mod int ?n) 0 ?ids 0 out"
      using False by (simp only: range_topic_def prod.case Let_def i32 if_False)
    have "placed subs
        (M + mset (map (Pair t) [range_start (c div int ?n) (c mod int ?n) 0
          ..range_start (c div int ?n) (c mod int ?n) (0 + ?n) - 1]))
        (range_members t (c div int ?n) (c mod int ?n) 0 ?ids
          (range_start (c div int ?n) (c mod int ?n) 0) out)"
      using ids len n by (intro range_members_placed assms(1)) (simp_all add: pos_imp_zdiv_nonneg_iff)
    moreover have "range_start (c div int ?n) (c mod int ?n) (0 + ?n) = c"
      using range_total [OF n(1), of c] n(2) by simp
    moreover have "range_start (c div int ?n) (c mod int ?n) 0 = 0"
      using n by (simp add: range_start_def min_def)
    moreover have "\<exists>m. subscribes subs m t"
      using ids n(1) by (metis length_greater_0_conv list.set_sel(1))
    ultimately show ?thesis
      unfolding step by (simp only: if_True)
  qed
qed

lemma placed_empty:
  "mset (map fst subs) = mset ids \<Longrightarrow> distinct (map fst subs) \<Longrightarrow>
     placed subs {#} (map (\<lambda>i. (i, [])) ids)"
  using mset_eq_imp_distinct_iff [of "map fst subs" ids] mset_eq_setD [of "map fst subs" ids]
  by (auto simp: placed_def held_def comp_def image_image)

lemma range_topics_placed:
  assumes "placed subs M out" "subs = member_view ms'" "set ms = set ms'" "length ms \<le> 2147483647"
    and "\<And>t c. (t, c) \<in> set topics \<Longrightarrow> map_of tps t = Some c"
  shows "placed subs
     (M + mset (partitions_of tps (filter (\<lambda>t. \<exists>m. subscribes subs m t) (map fst topics))))
     (fold (range_topic ms) topics out)"
  using assms
proof (induction topics arbitrary: M out)
  case (Cons tc topics)
  obtain t c where tc: "tc = (t, c)" by force
  have c: "map_of tps t = Some c" using Cons.prems(5) by (simp add: tc)
  show ?case
    using Cons.IH [OF range_topic_placed [OF Cons.prems(1-4), of t c] Cons.prems(2-4)] Cons.prems(5)
    by (cases "\<exists>m. subscribes subs m t") (simp_all add: tc add.assoc c)
qed simp

lemma member_view_ids: "map fst (member_view ms) = map (\<lambda>(k, _). mk_member_id k) ms"
  by (auto simp: member_view_def)

text \<open>Both assignors start with an empty slot for every member.\<close>

lemma placed_start:
  assumes "group_ok (member_view ms) tps" "mset ms' = mset ms"
  shows "placed (member_view ms) {#} (map (\<lambda>(k, _). (mk_member_id k, [])) ms')"
proof -
  have "mset (map (\<lambda>(k, _). mk_member_id k) ms') = mset (map (\<lambda>(k, _). mk_member_id k) ms)"
    using assms(2) by simp
  then have "placed (member_view ms) {#} (map (\<lambda>i. (i, [])) (map (\<lambda>(k, _). mk_member_id k) ms'))"
    using assms(1) by (intro placed_empty) (simp_all only: group_ok_def member_view_ids)
  then show ?thesis by (simp add: comp_def case_prod_unfold)
qed

interpretation range_assignor: eager_assignor member_view assign_members
proof
  fix ms tps
  assume ok: "group_ok (member_view ms) tps"
  let ?subs = "member_view ms" and ?topics = "sort_key fst tps"
  let ?ts = "filter (\<lambda>t. \<exists>m. subscribes ?subs m t) (map fst ?topics)"
  have "placed ?subs ({#} + mset (partitions_of tps ?ts)) (assign_members ms tps)"
    unfolding assign_members_def Let_def
  proof (rule range_topics_placed [OF _ refl])
    show "placed ?subs {#} (map (\<lambda>(k, _). (mk_member_id k, [])) (sort_members ms))"
      using ok by (rule placed_start) simp
  qed (use ok in \<open>simp_all add: group_ok_def member_view_def\<close>)
  then show "valid_assignment ?subs tps (assign_members ms tps)"
  proof (intro valid_of_partitions)
    have "mset (map fst ?topics) = mset (map fst tps)" by simp
    then have "distinct (map fst ?topics)"
      using ok mset_eq_imp_distinct_iff group_ok_def by metis
    then show "distinct ?ts" by simp
  qed (auto dest: map_of_SomeD intro: rev_image_eqI)
qed

lemma next_subscriber_Some:
  assumes "subscribes (member_view ms) m t"
  shows "\<exists>skipped k ts. next_subscriber ms t next = Some (skipped, k, ts)
    \<and> (k, ts) \<in> set ms \<and> t \<in> set ts"
proof -
  let ?xs = "enumerate 0 (rotate (next mod length ms) ms)"
  obtain k ts where "(k, ts) \<in> set ms" "t \<in> set ts"
    using assms by (auto simp: subscribes_iff member_view_def)
  then have "(k, ts) \<in> snd ` set ?xs"
    by (metis list.set_map map_snd_enumerate set_rotate)
  then obtain i where "(i, k, ts) \<in> set ?xs" by auto
  then have "\<exists>x. x \<in> set ?xs \<and> (case x of (_, _, us) \<Rightarrow> t \<in> set us)"
    using \<open>t \<in> set ts\<close> by blast
  then have "next_subscriber ms t next \<noteq> None"
    by (simp only: next_subscriber_def find_None_iff) simp
  then obtain s k' ts' where s: "next_subscriber ms t next = Some (s, k', ts')" by auto
  then have "(s, k', ts') \<in> set ?xs" "t \<in> set ts'"
    by (auto simp: next_subscriber_def dest: find_SomeD)
  moreover from this have "(k', ts') \<in> set ms"
    by (metis image_eqI list.set_map map_snd_enumerate set_rotate snd_conv)
  ultimately show ?thesis using s by blast
qed

lemma round_robin_partitions_placed:
  assumes "placed (member_view ms) M (snd s)" "mset ms' = mset ms" "subscribes (member_view ms) m t"
  shows "placed (member_view ms) (M + mset (map (Pair t) ps))
    (snd (fold (round_robin_partition ms' t) ps s))"
  using assms(1)
proof (induction ps arbitrary: M s)
  case (Cons p ps)
  obtain nxt out where s: "s = (nxt, out)" by force
  have "subscribes (member_view ms') m t"
    using assms(2,3) mset_eq_setD [OF assms(2)] by (simp add: subscribes_iff member_view_def)
  then obtain sk k ts where n: "next_subscriber ms' t nxt = Some (sk, k, ts)"
    "(k, ts) \<in> set ms'" "t \<in> set ts"
    using next_subscriber_Some by metis
  then have "subscribes (member_view ms) (mk_member_id k) t"
    using mset_eq_setD [OF assms(2)] by (force simp: subscribes_iff member_view_def)
  then have "placed (member_view ms) (add_mset (t, p) M)
      (snd (round_robin_partition ms' t p s))"
    using Cons.prems placed_push [of _ M out "mk_member_id k" "(t, p)"]
    by (simp add: s round_robin_partition_def n(1))
  from Cons.IH [OF this] show ?case by simp
qed simp

lemma round_robin_topics_placed:
  assumes "placed (member_view ms) M (snd s)" "mset ms' = mset ms"
    and "\<And>t. t \<in> set topics \<Longrightarrow> \<exists>m. subscribes (member_view ms) m t"
  shows "placed (member_view ms) (M + mset (partitions_of tps topics))
    (snd (fold (round_robin_topic ms' tps) topics s))"
  using assms(1,3)
proof (induction topics arbitrary: M s)
  case (Cons t topics)
  obtain m where m: "subscribes (member_view ms) m t" using Cons.prems(2) by auto
  have "[0..max c 0 - 1] = [0..c - 1]" for c :: int by (simp add: max_def)
  then have "placed (member_view ms)
      (M + mset (case map_of tps t of None \<Rightarrow> [] | Some c \<Rightarrow> map (Pair t) [0..c - 1]))
      (snd (round_robin_topic ms' tps t s))"
    using round_robin_partitions_placed [OF Cons.prems(1) assms(2) m] Cons.prems(1)
    by (simp add: round_robin_topic_def split: option.splits)
  from Cons.IH [OF this] Cons.prems(2) show ?case by (simp add: add.assoc)
qed simp

interpretation round_robin_assignor: eager_assignor member_view round_robin_assign
proof
  fix ms tps
  assume ok: "group_ok (member_view ms) tps"
  let ?subs = "member_view ms" and ?ms = "sort_members ms"
  let ?ts = "btree_set (concat (map snd ?ms))"
  have ts: "t \<in> set ?ts \<longleftrightarrow> (\<exists>m. subscribes ?subs m t)" for t
    by (auto simp: subscribes_iff member_view_def) force+
  have start: "placed ?subs {#} (map (\<lambda>(k, _). (mk_member_id k, [])) ms)"
    using ok by (rule placed_start) simp
  have "placed ?subs ({#} + mset (partitions_of tps ?ts)) (round_robin_assign ms tps)"
  proof (cases "ms = []")
    case True
    then show ?thesis
      using start by (simp add: round_robin_assign_def sort_members_def btree_set_eq)
  next
    case False
    then show ?thesis
      using round_robin_topics_placed [of ms "{#}" "(0, map (\<lambda>(k, _). (mk_member_id k, [])) ms)"
          ?ms ?ts tps] start ts
      by (simp add: round_robin_assign_def Let_def)
  qed
  then have "placed ?subs (mset (partitions_of tps ?ts)) (round_robin_assign ms tps)" by simp
  then show "valid_assignment ?subs tps (round_robin_assign ms tps)"
    by (rule valid_of_partitions [OF _ distinct_btree_set ts])
qed

section \<open>How the range assignor balances a topic\<close>

lemma slot_push_range:
  "m \<in> fst ` set out \<Longrightarrow>
     slot (push_range t m s tak out) k
       = slot out k @ (if k = m then map (Pair t) [s..s + tak - 1] else [])"
proof -
  have "fst ` set (fold (\<lambda>p out. slot_push m (t, p) out) ps out) = fst ` set out
    \<and> (m \<in> fst ` set out \<longrightarrow> slot (fold (\<lambda>p out. slot_push m (t, p) out) ps out) k
         = slot out k @ (if k = m then map (Pair t) ps else []))" for ps
    by (induction ps arbitrary: out) (simp_all add: slot_slot_push)
  then show "m \<in> fst ` set out \<Longrightarrow> ?thesis" by (simp add: push_range_def)
qed

lemma keys_push_range [simp]: "fst ` set (push_range t m s tak out) = fst ` set out"
proof -
  have "fst ` set (fold (\<lambda>p out. slot_push m (t, p) out) ps out) = fst ` set out" for ps
    by (induction ps arbitrary: out) simp_all
  then show ?thesis by (simp add: push_range_def)
qed

lemma keys_range_members [simp]:
  "fst ` set (range_members t per extras i ms s out) = fst ` set out"
  by (induction t per extras i ms s out rule: range_members.induct) (simp_all add: Let_def)

lemma slot_range_members_other:
  "set ms \<subseteq> fst ` set out \<Longrightarrow> m \<notin> set ms \<Longrightarrow>
     slot (range_members t per extras i ms s out) m = slot out m"
  by (induction t per extras i ms s out rule: range_members.induct)
    (simp_all add: Let_def slot_push_range)

lemma slot_range_members:
  assumes "distinct ms" "set ms \<subseteq> fst ` set out" "i + length ms \<le> 2147483647" "j < length ms"
  shows "slot (range_members t per extras i ms (range_start per extras i) out) (ms ! j)
    = slot out (ms ! j)
      @ map (Pair t) [range_start per extras (i + j)..range_start per extras (Suc (i + j)) - 1]"
  using assms
proof (induction ms arbitrary: i j out)
  case (Cons m ms)
  let ?s = "range_start per extras" and ?take = "per + (if int i < extras then 1 else 0)"
  have i32: "i32_of_usize i = int i" using Cons.prems(3) by (simp add: i32_of_usize_def)
  have step: "?s i + ?take = ?s (Suc i)" by (rule range_start_Suc [symmetric])
  have eq: "range_members t per extras i (m # ms) (?s i) out
      = range_members t per extras (Suc i) ms (?s (Suc i)) (push_range t m (?s i) ?take out)"
    by (simp only: range_members.simps Let_def i32 step)
  have push: "slot (push_range t m (?s i) ?take out) k
      = slot out k @ (if k = m then map (Pair t) [?s i..?s (Suc i) - 1] else [])" for k
    using slot_push_range [of m out t "?s i" ?take k] Cons.prems(2) unfolding step by simp
  show ?case
  proof (cases j)
    case 0
    have "slot (range_members t per extras (Suc i) ms (?s (Suc i)) (push_range t m (?s i) ?take out)) m
        = slot (push_range t m (?s i) ?take out) m"
      using Cons.prems(1,2) by (intro slot_range_members_other) simp_all
    then show ?thesis using 0 by (simp only: eq push) simp
  next
    case (Suc j')
    have "slot (range_members t per extras (Suc i) ms (?s (Suc i)) (push_range t m (?s i) ?take out))
          (ms ! j')
        = slot (push_range t m (?s i) ?take out) (ms ! j')
          @ map (Pair t) [?s (Suc i + j')..?s (Suc (Suc i + j')) - 1]"
      using Cons.prems Suc by (intro Cons.IH) simp_all
    moreover have "ms ! j' \<noteq> m" using Cons.prems(1,4) Suc by auto
    ultimately show ?thesis using Suc by (simp only: eq push) simp
  qed
qed simp

text \<open>The subscribers of a topic in member order, as \<open>assign_members\<close> lists them.\<close>

definition topic_subscribers :: "subscribed_member list \<Rightarrow> string \<Rightarrow> string list" where
  "topic_subscribers ms t =
     map (\<lambda>(k, _). mk_member_id k) (filter (\<lambda>(_, subs). t \<in> set subs) (sort_members ms))"

lemma keys_range_topic [simp]: "fst ` set (range_topic ms tc out) = fst ` set out"
  by (simp add: range_topic_def Let_def split: prod.split)

lemma keys_range_topics: "fst ` set (fold (range_topic ms) topics out) = fst ` set out"
  by (induction topics arbitrary: out) simp_all

lemma slot_push_range_filter:
  "t \<noteq> u \<Longrightarrow> filter (\<lambda>x. fst x = u) (slot (push_range t m s tak out) k)
     = filter (\<lambda>x. fst x = u) (slot out k)"
proof -
  assume tu: "t \<noteq> u"
  have "filter (\<lambda>x. fst x = u) (slot (fold (\<lambda>p out. slot_push m (t, p) out) ps out) k)
      = filter (\<lambda>x. fst x = u) (slot out k)" for ps
    using tu by (induction ps arbitrary: out) (simp_all add: slot_slot_push)
  then show ?thesis by (simp add: push_range_def)
qed

lemma slot_range_members_filter:
  "t \<noteq> u \<Longrightarrow> filter (\<lambda>x. fst x = u) (slot (range_members t per extras i ms s out) k)
     = filter (\<lambda>x. fst x = u) (slot out k)"
  by (induction t per extras i ms s out rule: range_members.induct)
    (simp_all add: Let_def slot_push_range_filter)

lemma slot_range_topics_filter:
  "t \<notin> fst ` set topics \<Longrightarrow>
     filter (\<lambda>x. fst x = t) (slot (fold (range_topic ms) topics out) k)
       = filter (\<lambda>x. fst x = t) (slot out k)"
proof (induction topics arbitrary: out)
  case (Cons tc topics)
  then have "fst tc \<noteq> t" by auto
  then have "filter (\<lambda>x. fst x = t) (slot (range_topic ms tc out) k)
      = filter (\<lambda>x. fst x = t) (slot out k)"
    by (cases tc) (simp add: range_topic_def Let_def slot_range_members_filter)
  then show ?case using Cons by simp
qed simp

lemma topic_subscribers_ok:
  assumes "group_ok (member_view ms) tps"
  shows "distinct (topic_subscribers ms t)" "length (topic_subscribers ms t) \<le> 2147483647"
    "set (topic_subscribers ms t) \<subseteq> set (map (\<lambda>(k, _). mk_member_id k) (sort_members ms))"
proof -
  have "distinct (map (\<lambda>(k, _). mk_member_id k) (sort_members ms))"
    using assms by (simp add: group_ok_def member_view_ids distinct_map_sort_members)
  then show "distinct (topic_subscribers ms t)"
    unfolding topic_subscribers_def by (rule distinct_map_filter)
  show "length (topic_subscribers ms t) \<le> 2147483647"
    using assms le_trans [OF length_filter_le, of "sort_members ms"]
    by (simp add: topic_subscribers_def group_ok_def member_view_def)
  show "set (topic_subscribers ms t) \<subseteq> set (map (\<lambda>(k, _). mk_member_id k) (sort_members ms))"
    by (auto simp: topic_subscribers_def)
qed

lemma slot_range_topic:
  assumes "group_ok (member_view ms) tps" "0 < c" "j < length (topic_subscribers ms t)"
    and "set (topic_subscribers ms t) \<subseteq> fst ` set out" "n = int (length (topic_subscribers ms t))"
  shows "slot (range_topic (sort_members ms) (t, c) out) (topic_subscribers ms t ! j)
    = slot out (topic_subscribers ms t ! j)
      @ map (Pair t) [range_start (c div n) (c mod n) j..range_start (c div n) (c mod n) (Suc j) - 1]"
proof -
  let ?ids = "topic_subscribers ms t"
  note ids = topic_subscribers_ok [OF assms(1), of t]
  have n: "i32_of_usize (length ?ids) = n" "0 < n" "?ids \<noteq> []"
    using ids(2) assms(3,5) by (auto simp: i32_of_usize_def)
  then have "range_start (c div n) (c mod n) 0 = 0" by (simp add: range_start_def min_def)
  moreover have "range_topic (sort_members ms) (t, c) out
      = range_members t (c div n) (c mod n) 0 ?ids 0 out"
    using assms(2) n by (simp add: range_topic_def topic_subscribers_def [symmetric] Let_def)
  ultimately show ?thesis
    using slot_range_members [OF ids(1) assms(4) _ assms(3), of 0 t "c div n" "c mod n"] ids(2)
    by simp
qed

lemma range_slot_of_topic:
  assumes ok: "group_ok (member_view ms) tps" and t: "map_of tps t = Some c" "0 < c"
    and j: "j < length (topic_subscribers ms t)" and n: "n = int (length (topic_subscribers ms t))"
  shows "filter (\<lambda>x. fst x = t) (slot (assign_members ms tps) (topic_subscribers ms t ! j))
    = map (Pair t) [range_start (c div n) (c mod n) j..range_start (c div n) (c mod n) (Suc j) - 1]"
proof -
  let ?ms = "sort_members ms" and ?f = "filter (\<lambda>x. fst x = t)"
  let ?ids = "topic_subscribers ms t"
  let ?out = "map (\<lambda>(k, _). (mk_member_id k, [])) ?ms :: assignment"
  have "(t, c) \<in> set (sort_key fst tps)" using t(1) by (simp add: map_of_SomeD)
  then obtain xs ys where split: "sort_key fst tps = xs @ (t, c) # ys"
    by (meson split_list)
  have "mset (map fst (sort_key fst tps)) = mset (map fst tps)" by simp
  then have "distinct (map fst (sort_key fst tps))"
    using ok mset_eq_imp_distinct_iff group_ok_def by metis
  then have nin: "t \<notin> fst ` set xs" "t \<notin> fst ` set ys"
    by (simp_all add: split)
  let ?o1 = "fold (range_topic ?ms) xs ?out"
  have empty: "?f (slot ?o1 k) = []" for k
    using slot_range_topics_filter [OF nin(1), of ?ms ?out k]
    by (auto simp: slot_def split: option.splits dest!: map_of_SomeD)
  have "fst ` set ?out = set (map (\<lambda>(k, _). mk_member_id k) ?ms)"
    by force
  then have "set ?ids \<subseteq> fst ` set ?o1"
    using topic_subscribers_ok(3) [OF ok] by (simp only: keys_range_topics)
  then have "?f (slot (range_topic ?ms (t, c) ?o1) (?ids ! j))
      = map (Pair t) [range_start (c div n) (c mod n) j..range_start (c div n) (c mod n) (Suc j) - 1]"
    using slot_range_topic [OF ok t(2) j _ n] by (simp add: empty filter_map comp_def)
  then show ?thesis
    using slot_range_topics_filter [OF nin(2)]
    by (simp add: assign_members_def Let_def split)
qed

section \<open>How round robin balances a uniform group\<close>

definition uniform :: "subscribed_member list \<Rightarrow> bool" where
  "uniform ms \<longleftrightarrow> (\<forall>(_, ts)\<in>set ms. \<forall>(_, us)\<in>set ms. set ts = set us)"

text \<open>The order in which round robin hands out the partitions, and the member ids in turn order.\<close>

definition round_robin_order :: "subscribed_member list \<Rightarrow> topic_counts \<Rightarrow> topic_partition list" where
  "round_robin_order ms tps = partitions_of tps (btree_set (concat (map snd ms)))"

definition turn_order :: "subscribed_member list \<Rightarrow> string list" where
  "turn_order ms = map (\<lambda>(k, _). mk_member_id k) (sort_members ms)"

lemma round_robin_topics_flat:
  "fold (round_robin_topic ms tps) topics s
     = fold (\<lambda>(t, p). round_robin_partition ms t p) (partitions_of tps topics) s"
proof (induction topics arbitrary: s)
  case (Cons t topics)
  have "[0..max c 0 - 1] = [0..c - 1]" for c :: int by (simp add: max_def)
  moreover have "fold (\<lambda>(t, p). round_robin_partition ms t p) (map (Pair t) ps) s
      = fold (round_robin_partition ms t) ps s" for ps
    by (simp add: fold_map comp_def)
  ultimately show ?case
    using Cons by (simp add: round_robin_topic_def split: option.splits)
qed simp

lemma next_subscriber_uniform:
  assumes "ms \<noteq> []" "\<And>k ts. (k, ts) \<in> set ms \<Longrightarrow> t \<in> set ts"
  shows "next_subscriber ms t i = Some (0, ms ! (i mod length ms))"
proof -
  have "rotate (i mod length ms) ms \<noteq> []" using assms(1) by simp
  moreover have "hd (rotate (i mod length ms) ms) = ms ! (i mod length ms)"
    using hd_rotate_conv_nth [OF assms(1), of "i mod length ms"] by simp
  ultimately have "rotate (i mod length ms) ms = ms ! (i mod length ms) # tl (rotate (i mod length ms) ms)"
    by (metis list.collapse)
  moreover have "t \<in> set (snd (ms ! (i mod length ms)))"
    using assms by (metis length_greater_0_conv mod_less_divisor nth_mem prod.collapse)
  ultimately show ?thesis
    unfolding next_subscriber_def
    by (metis (no_types, lifting) enumerate_simps(2) find.simps(2) case_prod_unfold fst_conv snd_conv)
qed

lemma round_robin_turns:
  assumes "ms \<noteq> []" "distinct (map (\<lambda>(k, _). mk_member_id k) ms)"
    and "\<forall>(t, p)\<in>set L. \<forall>(k, ts)\<in>set ms. t \<in> set ts"
    and "fst ` set out = set (map (\<lambda>(k, _). mk_member_id k) ms)"
    and "\<And>i. slot out i = []" "i < length ms"
  shows "fst (fold (\<lambda>(t, p). round_robin_partition ms t p) L (0, out)) = length L
    \<and> fst ` set (snd (fold (\<lambda>(t, p). round_robin_partition ms t p) L (0, out))) = fst ` set out
    \<and> slot (snd (fold (\<lambda>(t, p). round_robin_partition ms t p) L (0, out)))
          (map (\<lambda>(k, _). mk_member_id k) ms ! i)
        = map (nth L) (filter (\<lambda>q. q mod length ms = i) [0..<length L])"
  using assms(3)
proof (induction L rule: rev_induct)
  case Nil
  then show ?case by (simp add: assms(5))
next
  case (snoc x L)
  obtain t p where x: "x = (t, p)" by force
  let ?ids = "map (\<lambda>(k, _). mk_member_id k) ms" and ?n = "length L mod length ms"
  obtain nxt o1 where st: "fold (\<lambda>(t, p). round_robin_partition ms t p) L (0, out) = (nxt, o1)"
    by force
  have "\<forall>(t, p)\<in>set L. \<forall>(k, ts)\<in>set ms. t \<in> set ts" using snoc.prems by simp
  note IH = snoc.IH [OF this, unfolded st, simplified]
  have lt: "?n < length ms" using assms(1) by simp
  have "next_subscriber ms t (length L) = Some (0, ms ! ?n)"
    using snoc.prems x by (intro next_subscriber_uniform assms(1)) auto
  then have step: "round_robin_partition ms t p (length L, o1)
      = (Suc (length L), slot_push (?ids ! ?n) (t, p) o1)"
    using lt by (simp add: round_robin_partition_def case_prod_unfold)
  have eq: "?ids ! i = ?ids ! ?n \<longleftrightarrow> i = ?n"
    using assms(2,6) lt nth_eq_iff_index_eq by fastforce
  have mem: "?ids ! ?n \<in> fst ` set o1"
    using IH lt assms(4) nth_mem [of ?n ?ids] by simp
  have old: "map (nth (L @ [x])) (filter (\<lambda>q. q mod length ms = i) [0..<length L])
      = map (nth L) (filter (\<lambda>q. q mod length ms = i) [0..<length L])"
    by (simp add: nth_append)
  show ?case
    using IH step eq mem old by (auto simp: st x slot_slot_push nth_append)
qed

lemma round_robin_uniform_slot:
  assumes ok: "group_ok (member_view ms) tps" and "uniform ms" "i < length ms"
  shows "slot (round_robin_assign ms tps) (turn_order ms ! i)
    = map (nth (round_robin_order ms tps))
        (filter (\<lambda>q. q mod length ms = i) [0..<length (round_robin_order ms tps)])"
proof -
  let ?ms = "sort_members ms" and ?out = "map (\<lambda>(k, _). (mk_member_id k, [])) ms :: assignment"
  let ?L = "partitions_of tps (btree_set (concat (map snd ?ms)))"
  have ne: "ms \<noteq> []" using assms(3) by auto
  then have ne': "?ms \<noteq> []" by (metis length_0_conv length_sort_members)
  have "distinct (map (\<lambda>(k, _). mk_member_id k) ?ms)"
    using ok by (simp add: group_ok_def member_view_ids distinct_map_sort_members)
  moreover have "\<forall>(t, p)\<in>set ?L. \<forall>(k, ts)\<in>set ?ms. t \<in> set ts"
    using assms(2) by (force simp: in_partitions_of uniform_def)
  moreover have "fst ` set ?out = set (map (\<lambda>(k, _). mk_member_id k) ?ms)" by force
  moreover have "slot ?out k = []" for k
    by (auto simp: slot_def split: option.splits dest!: map_of_SomeD)
  ultimately have "slot (snd (fold (\<lambda>(t, p). round_robin_partition ?ms t p) ?L (0, ?out)))
      (map (\<lambda>(k, _). mk_member_id k) ?ms ! i)
    = map (nth ?L) (filter (\<lambda>q. q mod length ?ms = i) [0..<length ?L])"
    using round_robin_turns [of ?ms ?L ?out i] assms(3) ne' by simp
  moreover have "?L = round_robin_order ms tps"
    by (simp add: round_robin_order_def btree_set_eq)
  ultimately show ?thesis
    using ne by (simp add: round_robin_assign_def Let_def round_robin_topics_flat turn_order_def)
qed

end
