(* ===== verification/Assignor_Sticky.thy ===== *)
theory Assignor_Sticky
  imports Assignor_Eager
begin

text \<open>
  The sticky assignors (\<open>client-consumer/src/assignor/cooperative_sticky.rs\<close>): the resolution of
  the previous owners by generation, the constrained algorithm for a uniform group, the general
  algorithm with its balance loop, the eager and the cooperative result, and the dispatch of
  \<open>assignor::assign\<close>.  The proofs about them are in \<open>Assignor_Sticky_Props\<close>.
\<close>

type_synonym member_input = "string \<times> string list \<times> topic_partition list \<times> int"
type_synonym subs_index = "(string \<times> string list) list"

definition in_subs :: "subs_index \<Rightarrow> string \<Rightarrow> string \<Rightarrow> bool" where
  "in_subs subs m t = (case map_of subs m of None \<Rightarrow> False | Some ts \<Rightarrow> t \<in> set ts)"

section \<open>Previous owners\<close>

type_synonym claim_index = "(topic_partition \<times> (int \<times> string \<times> bool)) list"

definition claim :: "string \<Rightarrow> int \<Rightarrow> topic_partition \<Rightarrow> claim_index \<Rightarrow> claim_index" where
  "claim mid generation key best =
     (case map_of best key of
        None \<Rightarrow> AList.update key (generation, mid, False) best
      | Some (g, owner, tied) \<Rightarrow>
          (if g < generation then AList.update key (generation, mid, False) best
           else if generation = g then AList.update key (g, owner, True) best
           else best))"

text \<open>The stale claims that the loop skips.\<close>

definition live_claim :: "subs_index \<Rightarrow> topic_counts \<Rightarrow> string \<Rightarrow> topic_partition \<Rightarrow> bool" where
  "live_claim subs topic_partitions mid = (\<lambda>(t, p).
     case map_of topic_partitions t of
       None \<Rightarrow> False
     | Some pcount \<Rightarrow> \<not> (p < 0 \<or> pcount \<le> p) \<and> in_subs subs mid t)"

definition claim_member ::
  "subs_index \<Rightarrow> topic_counts \<Rightarrow> member_input \<Rightarrow> claim_index \<Rightarrow> claim_index" where
  "claim_member subs topic_partitions = (\<lambda>(mid, _, owned, generation) best.
     fold (\<lambda>tp best. if live_claim subs topic_partitions mid tp then claim mid generation tp best
                     else best) owned best)"

definition prepopulate_current_assignments ::
  "member_input list \<Rightarrow> subs_index \<Rightarrow> topic_counts \<Rightarrow> assignment" where
  "prepopulate_current_assignments members subs topic_partitions =
     (let best = fold (claim_member subs topic_partitions) members [];
          out = fold (\<lambda>(mid, _) out. btree_insert mid [] out) members [];
          out = fold (\<lambda>(tp, _, owner, tied) out.
                  if tied then out else btree_entry owner [] (\<lambda>ps. ps @ [tp]) out) best out
      in map (\<lambda>(k, v). (k, sort v)) out)"

section \<open>The constrained algorithm\<close>

definition entry_extend :: "string \<Rightarrow> topic_partition list \<Rightarrow> assignment \<Rightarrow> assignment" where
  "entry_extend m ps out = AList.map_default m ps (\<lambda>qs. qs @ ps) out"

record constrained =
  cs_over :: nat
  cs_assignment :: assignment
  cs_assigned :: "topic_partition set"
  cs_under :: "string list"
  cs_exact :: "string list"

text \<open>One round of the loop \<open>assignOwnedPartitions\<close>.\<close>

definition assign_owned ::
  "nat \<Rightarrow> nat \<Rightarrow> nat \<Rightarrow> assignment \<Rightarrow> string \<Rightarrow> constrained \<Rightarrow> constrained" where
  "assign_owned min_quota max_quota expected_over_min current mid s =
     (let owned = sort_key (\<lambda>(t, p). (p, t)) (slot current mid)
      in if length owned < min_quota then
           s\<lparr>cs_assigned := cs_assigned s \<union> set owned,
             cs_assignment := entry_extend mid owned (cs_assignment s),
             cs_under := cs_under s @ [mid]\<rparr>
         else if max_quota \<le> length owned \<and> cs_over s < expected_over_min then
           (let over = cs_over s + 1;
                owned = take max_quota owned
            in s\<lparr>cs_over := over,
                 cs_exact := (if over = expected_over_min then [] else cs_exact s),
                 cs_assigned := cs_assigned s \<union> set owned,
                 cs_assignment := entry_extend mid owned (cs_assignment s)\<rparr>)
         else
           (let owned = take min_quota owned
            in s\<lparr>cs_assigned := cs_assigned s \<union> set owned,
                 cs_assignment := entry_extend mid owned (cs_assignment s),
                 cs_exact := (if cs_over s < expected_over_min then cs_exact s @ [mid]
                              else cs_exact s)\<rparr>))"

record round_robin_state =
  rr_cursor :: nat
  rr_under :: "string list"
  rr_exact :: "string list"
  rr_assignment :: assignment

text \<open>
  One round of the loop \<open>assignRoundRobin\<close>.  \<^const>\<open>None\<close> is the \<open>break\<close> for an empty queue.
\<close>

definition pick_member :: "round_robin_state \<Rightarrow> (string \<times> round_robin_state) option" where
  "pick_member s =
     (if rr_cursor s < length (rr_under s) then Some (rr_under s ! rr_cursor s, s)
      else case rr_under s of
        first # _ \<Rightarrow> Some (first, s\<lparr>rr_cursor := 0\<rparr>)
      | [] \<Rightarrow> (case rr_exact s of
                 [] \<Rightarrow> None
               | m # rest \<Rightarrow> Some (m, s\<lparr>rr_exact := rest\<rparr>)))"

definition round_robin_step ::
  "nat \<Rightarrow> topic_partition \<Rightarrow> round_robin_state \<Rightarrow> round_robin_state option" where
  "round_robin_step min_quota tp s =
     (case pick_member s of
        None \<Rightarrow> None
      | Some (member, s) \<Rightarrow>
          (let out = entry_push member tp (rr_assignment s);
               cnt = length (slot out member);
               s = s\<lparr>rr_assignment := out\<rparr>;
               cursor = rr_cursor s
           in Some (if cursor < length (rr_under s) \<and> rr_under s ! cursor = member then
                      (if cnt = min_quota then
                         s\<lparr>rr_under := take cursor (rr_under s) @ drop (Suc cursor) (rr_under s),
                           rr_exact := rr_exact s @ [member]\<rparr>
                       else s\<lparr>rr_cursor := cursor + 1\<rparr>)
                    else s)))"

fun assign_round_robin ::
  "nat \<Rightarrow> topic_partition list \<Rightarrow> round_robin_state \<Rightarrow> round_robin_state" where
  "assign_round_robin min_quota [] s = s"
| "assign_round_robin min_quota (tp # tps) s =
     (case round_robin_step min_quota tp s of
        None \<Rightarrow> s
      | Some s' \<Rightarrow> assign_round_robin min_quota tps s')"

definition div_ceil :: "nat \<Rightarrow> nat \<Rightarrow> nat" where
  "div_ceil a b = a div b + (if 0 < a mod b then 1 else 0)"

definition owned_pass ::
  "nat \<Rightarrow> nat \<Rightarrow> nat \<Rightarrow> assignment \<Rightarrow> string list \<Rightarrow> constrained" where
  "owned_pass min_quota max_quota expected_over_min current member_ids =
     fold (assign_owned min_quota max_quota expected_over_min current) member_ids
       \<lparr>cs_over = 0, cs_assignment = map (\<lambda>i. (i, [])) member_ids, cs_assigned = {},
        cs_under = [], cs_exact = []\<rparr>"

definition constrained_assign ::
  "string list \<Rightarrow> subs_index \<Rightarrow> assignment \<Rightarrow> topic_counts \<Rightarrow> assignment" where
  "constrained_assign member_ids subs current topic_partitions =
     (if member_ids = [] then []
      else let shared = (case map_of subs (hd member_ids) of None \<Rightarrow> [] | Some ts \<Rightarrow> ts);
               all_partitions = partitions_of topic_partitions shared;
               sum_all = length all_partitions;
               min_quota = sum_all div length member_ids;
               max_quota = div_ceil sum_all (length member_ids);
               expected_over_min = sum_all mod length member_ids;
               c = owned_pass min_quota max_quota expected_over_min current member_ids;
               unassigned = filter (\<lambda>tp. tp \<notin> cs_assigned c) all_partitions;
               s = assign_round_robin min_quota unassigned
                     \<lparr>rr_cursor = 0, rr_under = sort (cs_under c), rr_exact = sort (cs_exact c),
                      rr_assignment = cs_assignment c\<rparr>
           in map (\<lambda>(k, v). (k, sort v)) (rr_assignment s))"

section \<open>The general algorithm\<close>

definition subscribers_per_topic :: "subs_index \<Rightarrow> topic_counts \<Rightarrow> (string \<times> string list) list" where
  "subscribers_per_topic subs topic_partitions =
     fold (\<lambda>(mid, s) idx.
       fold (\<lambda>t idx. if map_of topic_partitions t \<noteq> None
                     then btree_entry t [] (insort_insert mid) idx else idx) s idx) subs []"

definition previous_owner :: "assignment \<Rightarrow> topic_partition \<rightharpoonup> string" where
  "previous_owner current =
     fold (\<lambda>(m, parts) po. fold (\<lambda>tp po. po(tp \<mapsto> m)) parts po) current Map.empty"

definition least_loaded :: "string list \<Rightarrow> assignment \<Rightarrow> (nat \<times> string) option" where
  "least_loaded subscribed asg =
     fold (\<lambda>mid best.
       let load = length (slot asg mid)
       in case best of
            None \<Rightarrow> Some (load, mid)
          | Some (bl, bid) \<Rightarrow> if load < bl then Some (load, mid) else best) subscribed None"

definition pick_least_loaded :: "string list \<Rightarrow> assignment \<Rightarrow> string option" where
  "pick_least_loaded subscribed asg = map_option snd (least_loaded subscribed asg)"

definition choose_assignment_owner ::
  "topic_partition \<Rightarrow> string list \<Rightarrow> (topic_partition \<rightharpoonup> string) \<Rightarrow> assignment \<Rightarrow> string option" where
  "choose_assignment_owner tp subscribed prev_owner asg =
     (case least_loaded subscribed asg of
        None \<Rightarrow> None
      | Some (min_load, _) \<Rightarrow>
          (case prev_owner tp of
             Some prev \<Rightarrow>
               (if prev \<in> set subscribed then
                  (if length (slot asg prev) \<le> min_load then Some prev
                   else pick_least_loaded subscribed asg)
                else pick_least_loaded subscribed asg)
           | None \<Rightarrow> pick_least_loaded subscribed asg))"

definition place_partition ::
  "(string \<times> string list) list \<Rightarrow> (topic_partition \<rightharpoonup> string) \<Rightarrow> topic_partition
     \<Rightarrow> assignment \<Rightarrow> assignment" where
  "place_partition subscribers prev_owner tp asg =
     (case map_of subscribers (fst tp) of
        None \<Rightarrow> asg
      | Some subscribed \<Rightarrow>
          (case choose_assignment_owner tp subscribed prev_owner asg of
             None \<Rightarrow> asg
           | Some chosen \<Rightarrow> btree_entry chosen [] (\<lambda>ps. ps @ [tp]) asg))"

definition max_balance_iters :: "nat \<Rightarrow> nat \<Rightarrow> nat" where
  "max_balance_iters partitions members = sat_mulus partitions members + 16"

text \<open>
  The least loaded subscriber (then the lowest id) among those with more than one partition less
  than the owner: \<open>filter(..).min_by(..)\<close>.
\<close>

definition lighter_subscriber :: "assignment \<Rightarrow> nat \<Rightarrow> string list \<Rightarrow> string option" where
  "lighter_subscriber asg owner_load subscribers =
     (case sort_key (\<lambda>i. (length (slot asg i), i))
             (filter (\<lambda>i. length (slot asg i) + 1 < owner_load) subscribers) of
        [] \<Rightarrow> None
      | i # _ \<Rightarrow> Some i)"

text \<open>The member that takes a partition from its owner in the balance loop, if any.\<close>

definition balance_target ::
  "string list \<Rightarrow> subs_index \<Rightarrow> (topic_partition \<rightharpoonup> string) \<Rightarrow> topic_partition \<Rightarrow> string
     \<Rightarrow> assignment \<Rightarrow> string option" where
  "balance_target member_ids subs prev_owner tp owner asg =
     (let owner_load = length (slot asg owner);
          subscribers = filter (\<lambda>i. in_subs subs i (fst tp)) member_ids
      in if length subscribers \<le> 1 then None
         else case prev_owner tp of
           Some previous \<Rightarrow>
             (if previous \<noteq> owner \<and> previous \<in> set subscribers
                 \<and> length (slot asg previous) + 1 < owner_load
              then Some previous else lighter_subscriber asg owner_load subscribers)
         | None \<Rightarrow> lighter_subscriber asg owner_load subscribers)"

definition move_partition :: "topic_partition \<Rightarrow> string \<Rightarrow> string \<Rightarrow> assignment \<Rightarrow> assignment" where
  "move_partition tp owner target asg =
     btree_entry target [] (\<lambda>ps. ps @ [tp]) (AList.map_entry owner (remove1 tp) asg)"

text \<open>
  One pass of the loop over the sorted partitions: whether it returned at the move limit, the
  number of moves, whether the pass moved a partition, and the assignment.
\<close>

fun balance_pass ::
  "string list \<Rightarrow> subs_index \<Rightarrow> (topic_partition \<rightharpoonup> string) \<Rightarrow> nat
     \<Rightarrow> (topic_partition \<times> string) list \<Rightarrow> nat \<Rightarrow> bool \<Rightarrow> assignment
     \<Rightarrow> bool \<times> nat \<times> bool \<times> assignment" where
  "balance_pass member_ids subs prev_owner max_iters [] moves modified asg =
     (False, moves, modified, asg)"
| "balance_pass member_ids subs prev_owner max_iters ((tp, owner) # rest) moves modified asg =
     (if max_iters \<le> moves then (True, moves, modified, asg)
      else case balance_target member_ids subs prev_owner tp owner asg of
        None \<Rightarrow> balance_pass member_ids subs prev_owner max_iters rest moves modified asg
      | Some target \<Rightarrow>
          balance_pass member_ids subs prev_owner max_iters rest (moves + 1) True
            (move_partition tp owner target asg))"

definition owned_pairs :: "assignment \<Rightarrow> (topic_partition \<times> string) list" where
  "owned_pairs asg = sort (concat (map (\<lambda>(i, parts). map (\<lambda>tp. (tp, i)) parts) asg))"

lemma balance_pass_moves:
  "balance_pass member_ids subs prev_owner max_iters ps moves modified asg
      = (returned, moves', modified', asg') \<Longrightarrow>
     moves \<le> moves' \<and> (modified' \<and> \<not> modified \<longrightarrow> moves < moves' \<and> moves < max_iters)"
  by (induction member_ids subs prev_owner max_iters ps moves modified asg
      rule: balance_pass.induct) (auto split: if_splits option.splits)

function balance_loop ::
  "string list \<Rightarrow> subs_index \<Rightarrow> (topic_partition \<rightharpoonup> string) \<Rightarrow> nat \<Rightarrow> nat \<Rightarrow> assignment \<Rightarrow> assignment"
  where
  "balance_loop member_ids subs prev_owner max_iters moves asg =
     (case balance_pass member_ids subs prev_owner max_iters (owned_pairs asg) moves False asg of
        (returned, moves', modified, asg') \<Rightarrow>
          (if returned \<or> \<not> modified then asg'
           else balance_loop member_ids subs prev_owner max_iters moves' asg'))"
  by pat_completeness auto
termination
  by (relation "measure (\<lambda>(_, _, _, max_iters, moves, _). max_iters - moves)")
    (auto dest: sym [THEN balance_pass_moves])

declare balance_loop.simps [simp del]

definition balance_assignment ::
  "string list \<Rightarrow> subs_index \<Rightarrow> (topic_partition \<rightharpoonup> string) \<Rightarrow> assignment \<Rightarrow> nat \<Rightarrow> assignment" where
  "balance_assignment member_ids subs prev_owner new_assignment max_iters =
     balance_loop member_ids subs prev_owner max_iters 0 new_assignment"

text \<open>Steps 1 and 2: the partitions of the topics with a subscriber, rarest topic first.\<close>

definition sorted_partitions :: "subs_index \<Rightarrow> topic_counts \<Rightarrow> topic_partition list" where
  "sorted_partitions subs topic_partitions =
     (let subscribers = subscribers_per_topic subs topic_partitions
      in sort_key (\<lambda>(t, p). (case map_of subscribers t of None \<Rightarrow> 0 | Some s \<Rightarrow> length s, t, p))
           (partitions_of topic_partitions (map fst subscribers)))"

text \<open>Step 3: every partition with a least loaded subscriber.\<close>

definition place_all ::
  "string list \<Rightarrow> subs_index \<Rightarrow> (topic_partition \<rightharpoonup> string) \<Rightarrow> topic_counts \<Rightarrow> assignment" where
  "place_all member_ids subs prev_owner topic_partitions =
     fold (place_partition (subscribers_per_topic subs topic_partitions) prev_owner)
       (sorted_partitions subs topic_partitions)
       (fold (\<lambda>i asg. btree_insert i [] asg) member_ids [])"

definition general_assign ::
  "string list \<Rightarrow> subs_index \<Rightarrow> assignment \<Rightarrow> topic_counts \<Rightarrow> assignment" where
  "general_assign member_ids subs current topic_partitions =
     (let prev_owner = previous_owner current;
          new_assignment = place_all member_ids subs prev_owner topic_partitions;
          new_assignment = balance_assignment member_ids subs prev_owner new_assignment
            (max_balance_iters (length (sorted_partitions subs topic_partitions)) (length member_ids))
      in map (\<lambda>(k, v). (k, sort v)) new_assignment)"

section \<open>The sticky assignment\<close>

definition subs_of :: "member_input list \<Rightarrow> subs_index" where
  "subs_of members = btree_collect (map (\<lambda>(mid, subs, _, _). (mid, btree_set subs)) members)"

definition all_equal :: "'a list \<Rightarrow> bool" where
  "all_equal xs = (case xs of [] \<Rightarrow> True | first # rest \<Rightarrow> list_all (\<lambda>s. s = first) rest)"

definition sticky_assignment ::
  "member_input list \<Rightarrow> topic_counts \<Rightarrow> string list \<times> (topic_partition \<rightharpoonup> string) \<times> assignment" where
  "sticky_assignment members topic_partitions =
     (let member_ids = sort (map fst members);
          subs = subs_of members;
          current = prepopulate_current_assignments members subs topic_partitions;
          raw = (if all_equal (map snd subs)
                 then constrained_assign member_ids subs current topic_partitions
                 else general_assign member_ids subs current topic_partitions)
      in (member_ids, previous_owner current, raw))"

definition assign_eager :: "member_input list \<Rightarrow> topic_counts \<Rightarrow> assignment" where
  "assign_eager members topic_partitions =
     (if members = [] then []
      else let (member_ids, _, raw) = sticky_assignment members topic_partitions
           in map (\<lambda>i. (i, sort (slot raw i))) member_ids)"

definition cooperative_assign :: "member_input list \<Rightarrow> topic_counts \<Rightarrow> assignment" where
  "cooperative_assign members topic_partitions =
     (if members = [] then []
      else let (member_ids, prev, raw) = sticky_assignment members topic_partitions
           in map (\<lambda>i. (i, sort (filter (\<lambda>tp. \<not> (case prev tp of None \<Rightarrow> False | Some q \<Rightarrow> q \<noteq> i))
                                   (slot raw i)))) member_ids)"

section \<open>Dispatch\<close>

record decoded_subscription =
  ds_topics :: "string list"
  ds_owned :: "topic_partition list"
  ds_generation_id :: int
  ds_rack_id :: "string option"
  ds_user_data :: "u8 list option"

record group_member =
  gm_key :: member_key
  gm_subscription :: decoded_subscription

definition sticky_input :: "group_member \<Rightarrow> member_input" where
  "sticky_input m =
     (let (owned, generation) = decode_sticky_user_data (ds_user_data (gm_subscription m))
      in (mk_member_id (gm_key m), ds_topics (gm_subscription m), owned, generation))"

definition cooperative_input :: "group_member \<Rightarrow> member_input" where
  "cooperative_input m =
     (mk_member_id (gm_key m), ds_topics (gm_subscription m), ds_owned (gm_subscription m),
      ds_generation_id (gm_subscription m))"

definition assign :: "assignor \<Rightarrow> group_member list \<Rightarrow> topic_counts \<Rightarrow> assignment" where
  "assign assignor members topic_partitions =
     (case assignor of
        Range \<Rightarrow> assign_members (map (\<lambda>m. (gm_key m, ds_topics (gm_subscription m))) members)
                   topic_partitions
      | RoundRobin \<Rightarrow> round_robin_assign (map (\<lambda>m. (gm_key m, ds_topics (gm_subscription m))) members)
                        topic_partitions
      | Sticky \<Rightarrow> assign_eager (map sticky_input members) topic_partitions
      | CooperativeSticky \<Rightarrow> cooperative_assign (map cooperative_input members) topic_partitions)"

end
