(* ===== verification/Assignor_Sticky_Props.thy ===== *)
theory Assignor_Sticky_Props
  imports Assignor_Sticky
begin

text \<open>
  The correctness of the sticky assignors: the previous owner of a partition is the claimant with
  the strictly highest generation, the constrained algorithm never runs out of members and ends
  with every member between the quotas, the general algorithm places every partition and its
  balance loop only moves partitions between subscribers.  Both meet the assignor contract.
\<close>

section \<open>Previous owners\<close>

lemma slot_btree_push:
  "btree_wf out \<Longrightarrow>
     slot (btree_entry k [] (\<lambda>ps. ps @ [tp]) out) i
       = (if i = k then slot out k @ [tp] else slot out i)"
  by (auto simp: slot_def map_of_btree_entry split: option.splits)

text \<open>The claims on partitions, as (partition, generation, member) in the order of the loop.\<close>

definition live_claims ::
  "subs_index \<Rightarrow> topic_counts \<Rightarrow> member_input list \<Rightarrow> (topic_partition \<times> int \<times> string) list" where
  "live_claims subs tps members =
     concat (map (\<lambda>(mid, _, owned, g). map (\<lambda>tp. (tp, g, mid)) (filter (live_claim subs tps mid) owned))
       members)"

definition claims_on ::
  "(topic_partition \<times> int \<times> string) list \<Rightarrow> topic_partition \<Rightarrow> (int \<times> string) list" where
  "claims_on C tp = map snd (filter (\<lambda>c. fst c = tp) C)"

lemma claims_flat:
  "fold (claim_member subs tps) members best
     = fold (\<lambda>(tp, g, mid). claim mid g tp) (live_claims subs tps members) best"
proof (induction members arbitrary: best)
  case (Cons m members)
  obtain mid ts owned g where m: "m = (mid, ts, owned, g)" by (cases m)
  have "fold (\<lambda>tp best. if live_claim subs tps mid tp then claim mid g tp best else best) owned best
      = fold (\<lambda>(tp, g, mid). claim mid g tp)
          (map (\<lambda>tp. (tp, g, mid)) (filter (live_claim subs tps mid) owned)) best"
    by (induction owned arbitrary: best) simp_all
  then show ?case
    using Cons by (simp add: m live_claims_def claim_member_def)
qed (simp add: live_claims_def)

text \<open>What the entry of a partition says about its claims.\<close>

definition best_entry :: "(int \<times> string) list \<Rightarrow> (int \<times> string \<times> bool) option \<Rightarrow> bool" where
  "best_entry cs e \<longleftrightarrow>
     (case e of
        None \<Rightarrow> cs = []
      | Some (g, owner, tied) \<Rightarrow>
          (g, owner) \<in> set cs \<and> (\<forall>(g', _)\<in>set cs. g' \<le> g)
          \<and> (tied \<longleftrightarrow> 1 < length (filter (\<lambda>c. fst c = g) cs)))"

lemma filter_none: "\<forall>x\<in>set xs. \<not> P x \<Longrightarrow> filter P xs = []"
  by simp

lemma claims_on_snoc:
  "claims_on (C @ [(key, g, mid)]) tp = claims_on C tp @ (if key = tp then [(g, mid)] else [])"
  by (simp add: claims_on_def)

lemma claim_best_entry:
  assumes "best_entry (claims_on C tp) (map_of best tp)"
  shows "best_entry (claims_on (C @ [(key, g, mid)]) tp) (map_of (claim mid g key best) tp)"
proof (cases "tp = key")
  case False
  then show ?thesis
    using assms
    by (auto simp: claims_on_snoc claim_def update_conv' split: option.splits)
next
  case True
  let ?cs = "claims_on C tp"
  show ?thesis
  proof (cases "map_of best tp")
    case None
    then show ?thesis
      using assms True by (simp add: claims_on_snoc best_entry_def claim_def update_conv')
  next
    case (Some e)
    obtain g0 owner tied where e: "e = (g0, owner, tied)" by (cases e)
    have old: "(g0, owner) \<in> set ?cs" "\<forall>(g', _)\<in>set ?cs. g' \<le> g0"
      "tied \<longleftrightarrow> 1 < length (filter (\<lambda>c. fst c = g0) ?cs)"
      using assms Some e by (simp_all add: best_entry_def)
    consider "g0 < g" | "g = g0" | "g < g0" by linarith
    then show ?thesis
    proof cases
      case 1
      then have "filter (\<lambda>c. fst c = g) ?cs = []" using old(2) by (intro filter_none) auto
      then show ?thesis
        using 1 old(2) True Some e by (auto simp: claims_on_snoc best_entry_def claim_def update_conv')
    next
      case 2
      have "0 < length (filter (\<lambda>c. fst c = g0) ?cs)"
        using old(1) by (force simp: filter_empty_conv)
      then show ?thesis
        using 2 old True Some e by (auto simp: claims_on_snoc best_entry_def claim_def update_conv')
    next
      case 3
      then show ?thesis
        using old True Some e by (auto simp: claims_on_snoc best_entry_def claim_def)
    qed
  qed
qed

lemma best_entry_fold:
  "best_entry (claims_on C tp) (map_of (fold (\<lambda>(tp, g, mid). claim mid g tp) C []) tp)"
proof (induction C rule: rev_induct)
  case Nil
  then show ?case by (simp add: claims_on_def best_entry_def)
next
  case (snoc c C)
  then show ?case by (cases c) (simp add: claim_best_entry)
qed

lemma distinct_best:
  "distinct (map fst (fold (\<lambda>(tp, g, mid). claim mid g tp) C []))"
  by (induction C rule: rev_induct)
    (auto simp: claim_def distinct_update split: option.splits)

text \<open>
  Exactly one claim of the highest generation: the list of the claims at or above some generation
  is the claim of the member alone.
\<close>

definition sole_highest :: "(int \<times> string) list \<Rightarrow> string \<Rightarrow> bool" where
  "sole_highest cs m \<longleftrightarrow> (\<exists>(g, _)\<in>set cs. filter (\<lambda>c. g \<le> fst c) cs = [(g, m)])"

lemma best_entry_sole:
  assumes "best_entry cs e"
  shows "(\<exists>g. e = Some (g, m, False)) \<longleftrightarrow> sole_highest cs m"
proof
  assume "\<exists>g. e = Some (g, m, False)"
  then obtain g where e: "e = Some (g, m, False)" by blast
  then have g: "(g, m) \<in> set cs" "\<forall>(g', _)\<in>set cs. g' \<le> g" "length (filter (\<lambda>c. fst c = g) cs) \<le> 1"
    using assms by (auto simp: best_entry_def)
  have "filter (\<lambda>c. g \<le> fst c) cs = filter (\<lambda>c. fst c = g) cs"
    using g(2) by (intro filter_cong) auto
  moreover have "(g, m) \<in> set (filter (\<lambda>c. fst c = g) cs)" using g(1) by simp
  ultimately have "filter (\<lambda>c. g \<le> fst c) cs = [(g, m)]"
    using g(3) by (cases "filter (\<lambda>c. fst c = g) cs") auto
  then show "sole_highest cs m" using g(1) by (auto simp: sole_highest_def)
next
  assume "sole_highest cs m"
  then obtain g where g: "filter (\<lambda>c. g \<le> fst c) cs = [(g, m)]"
    by (auto simp: sole_highest_def)
  then have "set (filter (\<lambda>c. g \<le> fst c) cs) = {(g, m)}" by simp
  then have in_cs: "(g, m) \<in> set cs" and uniq: "\<And>c. c \<in> set cs \<Longrightarrow> g \<le> fst c \<Longrightarrow> c = (g, m)"
    by auto
  obtain g0 owner tied where e: "e = Some (g0, owner, tied)"
    using assms in_cs by (cases e) (auto simp: best_entry_def)
  then have old: "(g0, owner) \<in> set cs" "\<forall>(g', _)\<in>set cs. g' \<le> g0"
    "tied \<longleftrightarrow> 1 < length (filter (\<lambda>c. fst c = g0) cs)"
    using assms by (simp_all add: best_entry_def)
  have "g \<le> g0" using old(2) in_cs by auto
  then have eq: "g0 = g" "owner = m" using uniq [OF old(1)] by auto
  have "filter (\<lambda>c. fst c = g) cs = filter (\<lambda>c. g \<le> fst c) cs"
    using uniq by (intro filter_cong) auto
  then show "\<exists>g. e = Some (g, m, False)" using e eq old(3) g by simp
qed

text \<open>The members' slots before the placement: an ordered map of empty lists.\<close>

lemma empty_slots:
  "btree_wf (fold (\<lambda>i asg. btree_insert i [] asg) ids [] :: assignment)"
  "fst ` set (fold (\<lambda>i asg. btree_insert i [] asg) ids [] :: assignment) = set ids"
  "slot (fold (\<lambda>i asg. btree_insert i [] asg) ids []) k = []"
proof -
  have *: "btree_wf (fold (\<lambda>i asg. btree_insert i [] asg) ids [] :: assignment)
    \<and> fst ` set (fold (\<lambda>i asg. btree_insert i [] asg) ids [] :: assignment) = set ids
    \<and> slot (fold (\<lambda>i asg. btree_insert i [] asg) ids []) k = []"
  proof (induction ids rule: rev_induct)
    case (snoc i ids)
    then show ?case
      by (simp add: btree_insert_wf btree_insert_keys slot_def map_of_btree_insert)
  qed (simp add: slot_def)
  then show "btree_wf (fold (\<lambda>i asg. btree_insert i [] asg) ids [] :: assignment)"
    "fst ` set (fold (\<lambda>i asg. btree_insert i [] asg) ids [] :: assignment) = set ids"
    "slot (fold (\<lambda>i asg. btree_insert i [] asg) ids []) k = []"
    by blast+
qed

lemma spread_best:
  assumes "btree_wf out"
  shows "btree_wf (fold (\<lambda>(tp, _, owner, tied) out.
            if tied then out else btree_entry owner [] (\<lambda>ps. ps @ [tp]) out) best out)
    \<and> fst ` set (fold (\<lambda>(tp, _, owner, tied) out.
            if tied then out else btree_entry owner [] (\<lambda>ps. ps @ [tp]) out) best out)
        = fst ` set out \<union> {owner. \<exists>tp g. (tp, g, owner, False) \<in> set best}
    \<and> slot (fold (\<lambda>(tp, _, owner, tied) out.
            if tied then out else btree_entry owner [] (\<lambda>ps. ps @ [tp]) out) best out) m
        = slot out m @ map fst (filter (\<lambda>(_, _, owner, tied). owner = m \<and> \<not> tied) best)"
  using assms
proof (induction best arbitrary: out)
  case (Cons b best)
  obtain t p g owner tied where b: "b = ((t, p), g, owner, tied)" by (cases b) auto
  show ?case
  proof (cases tied)
    case True
    then show ?thesis using Cons.IH [OF Cons.prems] by (auto simp: b)
  next
    case False
    show ?thesis
      using Cons.IH [OF btree_entry_wf [OF Cons.prems], of owner "[]" "\<lambda>ps. ps @ [(t, p)]"] Cons.prems False
      by (auto simp: b slot_btree_push btree_entry_keys)
  qed
qed simp

lemma map_of_map_values: "map_of (map (\<lambda>(k, v). (k, f v)) xs) k = map_option f (map_of xs k)"
  by (induction xs) auto

lemma slot_sorted: "slot (map (\<lambda>(k, v). (k, sort v)) out) m = sort (slot out m)"
  by (simp add: slot_def map_of_map_values split: option.splits)

lemma map_fst_values: "map fst (map (\<lambda>(k, v). (k, f v)) out) = map fst out"
  by auto

lemma fst_set_values: "fst ` set (map (\<lambda>(k, v). (k, f v)) out) = fst ` set out"
  by force

lemma btree_wf_values: "btree_wf (map (\<lambda>(k, v). (k, f v)) out) \<longleftrightarrow> btree_wf out"
  by (simp only: btree_wf_def map_fst_values)

lemma prepopulate_facts:
  fixes members subs tps
  defines "cur \<equiv> prepopulate_current_assignments members subs tps"
  defines "C \<equiv> live_claims subs tps members"
  shows "btree_wf cur" "fst ` set cur = fst ` set members"
    "tp \<in> set (slot cur m) \<longleftrightarrow> sole_highest (claims_on C tp) m" "distinct (slot cur m)"
proof -
  let ?best = "fold (\<lambda>(tp, g, mid). claim mid g tp) C []"
  let ?ids = "map fst members"
  let ?spread = "\<lambda>out. fold (\<lambda>(tp, _, owner, tied) out.
            if tied then out else btree_entry owner [] (\<lambda>ps. ps @ [tp]) out) ?best out"
  let ?o = "fold (\<lambda>i asg. btree_insert i [] asg) ?ids [] :: assignment"
  have "fold (\<lambda>(mid, _) out. btree_insert mid [] out) members [] = ?o"
    by (simp add: fold_map comp_def case_prod_unfold)
  then have cur: "cur = map (\<lambda>(k, v). (k, sort v)) (?spread ?o)"
    by (simp add: cur_def prepopulate_current_assignments_def claims_flat C_def Let_def)
  note sp = spread_best [OF empty_slots(1) [of ?ids], of ?best m]
  have best_iff: "(tp, g, m, False) \<in> set ?best \<longleftrightarrow> map_of ?best tp = Some (g, m, False)" for tp g m
    using distinct_best [of C] by simp
  have sole: "(\<exists>g. (tp, g, m, False) \<in> set ?best) \<longleftrightarrow> sole_highest (claims_on C tp) m" for tp m
    unfolding best_iff by (rule best_entry_sole) (rule best_entry_fold)
  show "btree_wf cur" using sp by (simp only: cur btree_wf_values)
  have "m \<in> fst ` set members" if "(tp, g, m, False) \<in> set ?best" for tp g m
  proof -
    have "sole_highest (claims_on C tp) m" using sole that by blast
    then obtain g' where "filter (\<lambda>c. g' \<le> fst c) (claims_on C tp) = [(g', m)]"
      by (auto simp: sole_highest_def)
    then have "(g', m) \<in> set (claims_on C tp)" by (metis filter_is_subset list.set_intros(1) subsetD)
    then show ?thesis
      by (force simp: claims_on_def C_def live_claims_def)
  qed
  then show "fst ` set cur = fst ` set members"
    using sp empty_slots(2) [of ?ids] unfolding cur fst_set_values by auto
  have sl: "slot cur m = sort (map fst (filter (\<lambda>(_, _, owner, tied). owner = m \<and> \<not> tied) ?best))"
    using sp by (simp add: cur slot_sorted empty_slots(3))
  show "distinct (slot cur m)"
    using distinct_map_filter [OF distinct_best [of C]] by (simp add: sl)
  show "tp \<in> set (slot cur m) \<longleftrightarrow> sole_highest (claims_on C tp) m"
    unfolding sl sole [symmetric] by force
qed

section \<open>The constrained algorithm\<close>

lemma slot_entry_extend:
  "m \<in> fst ` set out \<Longrightarrow>
     slot (entry_extend m ps out) k = (if k = m then slot out m @ ps else slot out k)"
  by (auto simp: slot_def entry_extend_def map_of_map_default split: option.splits)

lemma map_fst_entry_extend: "m \<in> fst ` set out \<Longrightarrow> map fst (entry_extend m ps out) = map fst out"
  by (simp add: entry_extend_def map_default_entry)

text \<open>
  The owned pass after the members \<open>done\<close>.  \<open>q\<close> is the minimum quota and \<open>r\<close> the number of members
  that may hold one partition more; \<open>deficit\<close> is what the members below the quota still miss.
\<close>

abbreviation load :: "assignment \<Rightarrow> string \<Rightarrow> nat" where
  "load out m \<equiv> length (slot out m)"

definition deficit :: "nat \<Rightarrow> assignment \<Rightarrow> string list \<Rightarrow> nat" where
  "deficit q out ms = sum_list (map (\<lambda>m. q - load out m) ms)"

definition by_index :: "assignment \<Rightarrow> string \<Rightarrow> topic_partition list" where
  "by_index current m = sort_key (\<lambda>(t, p). (p, t)) (slot current m)"

definition pass_slots :: "nat \<Rightarrow> assignment \<Rightarrow> string list \<Rightarrow> string list \<Rightarrow> constrained \<Rightarrow> bool" where
  "pass_slots q current ids done s \<longleftrightarrow>
     map fst (cs_assignment s) = ids
     \<and> (\<forall>m\<in>set done. \<exists>k. slot (cs_assignment s) m = take k (by_index current m)
          \<and> min q (load current m) \<le> load (cs_assignment s) m)
     \<and> (\<forall>m. m \<notin> set done \<longrightarrow> slot (cs_assignment s) m = [])
     \<and> cs_assigned s = (\<Union>m\<in>set done. set (slot (cs_assignment s) m))"

definition pass_lists :: "nat \<Rightarrow> nat \<Rightarrow> string list \<Rightarrow> constrained \<Rightarrow> bool" where
  "pass_lists q r done s \<longleftrightarrow>
     distinct (cs_under s) \<and> distinct (cs_exact s)
     \<and> set (cs_under s) \<subseteq> set done \<and> set (cs_exact s) \<subseteq> set done
     \<and> (\<forall>m\<in>set (cs_under s). load (cs_assignment s) m < q)
     \<and> (\<forall>m\<in>set (cs_exact s). load (cs_assignment s) m = q)
     \<and> (\<forall>m\<in>set done - set (cs_under s). q \<le> load (cs_assignment s) m
          \<and> load (cs_assignment s) m \<le> q + (if 0 < r then 1 else 0))"

definition pass_count :: "nat \<Rightarrow> nat \<Rightarrow> string list \<Rightarrow> constrained \<Rightarrow> bool" where
  "pass_count q r done s \<longleftrightarrow>
     sum_list (map (load (cs_assignment s)) done) + deficit q (cs_assignment s) (cs_under s)
       = length done * q + cs_over s
     \<and> cs_over s \<le> r
     \<and> (cs_over s < r \<longrightarrow> length (cs_exact s) + length (cs_under s) + cs_over s = length done)"

lemma deficit_cong:
  "(\<And>m. m \<in> set ms \<Longrightarrow> slot out m = slot out' m) \<Longrightarrow> deficit q out ms = deficit q out' ms"
  unfolding deficit_def by (intro arg_cong [where f = sum_list] map_cong) simp_all

lemma deficit_append [simp]: "deficit q out (ms @ ns) = deficit q out ms + deficit q out ns"
  by (simp add: deficit_def)

lemma deficit_simps [simp]:
  "deficit q out [] = 0" "deficit q out (m # ms) = (q - load out m) + deficit q out ms"
  by (simp_all add: deficit_def)

text \<open>What one round of the owned pass does, in the same words for its three branches.\<close>

definition owned_effect ::
  "nat \<Rightarrow> nat \<Rightarrow> string \<Rightarrow> topic_partition list \<Rightarrow> constrained \<Rightarrow> constrained \<Rightarrow> bool" where
  "owned_effect q r m ps s s' \<longleftrightarrow>
     cs_assignment s' = entry_extend m ps (cs_assignment s)
     \<and> cs_assigned s' = cs_assigned s \<union> set ps
     \<and> cs_under s' = cs_under s @ (if length ps < q then [m] else [])
     \<and> cs_over s' = cs_over s + (if q < length ps then 1 else 0)
     \<and> cs_exact s' = (if cs_over s' = r \<and> cs_over s < r then []
                      else if length ps = q \<and> cs_over s < r then cs_exact s @ [m] else cs_exact s)
     \<and> cs_over s' \<le> r \<and> length ps \<le> q + (if 0 < r then 1 else 0)"

lemma assign_owned_effect:
  assumes "mq = q + (if 0 < r then 1 else 0)" "cs_over s \<le> r"
  shows "\<exists>k. owned_effect q r m (take k (by_index current m)) s (assign_owned q mq r current m s)
    \<and> min q (load current m) \<le> length (take k (by_index current m))"
proof -
  let ?owned = "by_index current m"
  have len: "length ?owned = load current m" by (simp add: by_index_def)
  consider (under) "length ?owned < q"
    | (over) "q \<le> length ?owned" "mq \<le> length ?owned \<and> cs_over s < r"
    | (exact) "q \<le> length ?owned" "\<not> (mq \<le> length ?owned \<and> cs_over s < r)"
    by linarith
  then show ?thesis
  proof cases
    case under
    then have "owned_effect q r m (take q ?owned) s (assign_owned q mq r current m s)"
      using assms by (auto simp: owned_effect_def assign_owned_def by_index_def Let_def)
    then show ?thesis using len by auto
  next
    case over
    then have "owned_effect q r m (take mq ?owned) s (assign_owned q mq r current m s)"
      using assms by (auto simp: owned_effect_def assign_owned_def by_index_def Let_def)
    then show ?thesis using len over(2) assms(1) by auto
  next
    case exact
    then have "owned_effect q r m (take q ?owned) s (assign_owned q mq r current m s)"
      using assms by (auto simp: owned_effect_def assign_owned_def by_index_def Let_def)
    then show ?thesis using len by auto
  qed
qed

lemma owned_effect_slot:
  assumes "owned_effect q r m ps s s'" "pass_slots q current ids done s" "m \<in> set ids" "m \<notin> set done"
  shows "slot (cs_assignment s') k = (if k = m then ps else slot (cs_assignment s) k)"
    and "map fst (cs_assignment s') = ids"
proof -
  have k: "m \<in> fst ` set (cs_assignment s)" "slot (cs_assignment s) m = []"
    "map fst (cs_assignment s) = ids"
    using assms(2-4) unfolding pass_slots_def by (metis list.set_map, blast, blast)
  then show "slot (cs_assignment s') k = (if k = m then ps else slot (cs_assignment s) k)"
    "map fst (cs_assignment s') = ids"
    using assms(1) by (simp_all add: owned_effect_def slot_entry_extend map_fst_entry_extend)
qed

lemma pass_slots_step:
  assumes "owned_effect q r m (take k (by_index current m)) s s'" "pass_slots q current ids done s"
    and "m \<in> set ids" "m \<notin> set done" "min q (load current m) \<le> length (take k (by_index current m))"
  shows "pass_slots q current ids (done @ [m]) s'"
proof -
  note sl = owned_effect_slot [OF assms(1-4)]
  have "cs_assigned s' = cs_assigned s \<union> set (take k (by_index current m))"
    using assms(1) by (simp add: owned_effect_def)
  moreover have "cs_assigned s = (\<Union>n\<in>set done. set (slot (cs_assignment s) n))"
    using assms(2) by (simp add: pass_slots_def)
  moreover have "(\<Union>n\<in>set done. set (slot (cs_assignment s') n))
      = (\<Union>n\<in>set done. set (slot (cs_assignment s) n))"
    using assms(4) by (intro SUP_cong) (auto simp: sl(1))
  ultimately show ?thesis
    using assms(2,4,5) unfolding pass_slots_def sl by (auto simp: sl(1))
qed

lemma pass_lists_step:
  assumes eff: "owned_effect q r m ps s s'" and sl: "pass_slots q current ids done s"
    and m: "m \<in> set ids" "m \<notin> set done" and inv: "pass_lists q r done s"
  shows "pass_lists q r (done @ [m]) s'"
proof -
  have ld: "load (cs_assignment s') k = (if k = m then length ps else load (cs_assignment s) k)" for k
    by (simp add: owned_effect_slot(1) [OF eff sl m])
  have nin: "m \<notin> set (cs_under s)" "m \<notin> set (cs_exact s)"
    using inv m(2) by (auto simp: pass_lists_def)
  have under: "cs_under s' = cs_under s @ (if length ps < q then [m] else [])"
    and exact: "set (cs_exact s') \<subseteq> set (cs_exact s) \<union> (if length ps = q then {m} else {})"
      "distinct (cs_exact s) \<longrightarrow> distinct (cs_exact s')"
    and ps: "length ps \<le> q + (if 0 < r then 1 else 0)"
    using eff nin(2) by (auto simp: owned_effect_def)
  have "load (cs_assignment s') k = q" if "k \<in> set (cs_exact s')" for k
    using that exact(1) inv nin(2) by (auto simp: pass_lists_def ld split: if_splits)
  moreover have "set (cs_exact s') \<subseteq> set (done @ [m])"
    using exact(1) inv by (auto simp: pass_lists_def split: if_splits)
  ultimately show ?thesis
    using inv exact(2) nin ps m(2) unfolding pass_lists_def under ld by auto
qed

lemma pass_count_step:
  assumes eff: "owned_effect q r m ps s s'" and sl: "pass_slots q current ids done s"
    and m: "m \<in> set ids" "m \<notin> set done" and inv: "pass_lists q r done s" "pass_count q r done s"
  shows "pass_count q r (done @ [m]) s'"
proof -
  have slot: "slot (cs_assignment s') k = (if k = m then ps else slot (cs_assignment s) k)" for k
    by (rule owned_effect_slot(1) [OF eff sl m])
  have nin: "m \<notin> set (cs_under s)"
    using inv m(2) by (auto simp: pass_lists_def)
  have "map (load (cs_assignment s')) done = map (load (cs_assignment s)) done"
    using m(2) by (intro map_cong) (auto simp: slot)
  then have "sum_list (map (load (cs_assignment s')) done)
      = sum_list (map (load (cs_assignment s)) done)" by presburger
  moreover have "slot (cs_assignment s') m = ps" by (simp add: slot)
  moreover have "deficit q (cs_assignment s') (cs_under s) = deficit q (cs_assignment s) (cs_under s)"
    using nin by (intro deficit_cong) (auto simp: slot)
  moreover have under: "cs_under s' = cs_under s @ (if length ps < q then [m] else [])"
    and over: "cs_over s' = cs_over s + (if q < length ps then 1 else 0)" "cs_over s' \<le> r"
    and exact: "cs_over s' < r \<Longrightarrow> length (cs_exact s') = length (cs_exact s) + (if length ps = q then 1 else 0)"
    and ps: "length ps \<le> q + 1"
    using eff by (auto simp: owned_effect_def split: if_splits)
  ultimately show ?thesis
    using inv(2) unfolding pass_count_def under over(1)
    by (auto split: if_splits)
qed

lemma owned_pass_inv:
  assumes "distinct ids" "mq = q + (if 0 < r then 1 else 0)"
  shows "pass_slots q current ids ids (owned_pass q mq r current ids)"
    "pass_lists q r ids (owned_pass q mq r current ids)"
    "pass_count q r ids (owned_pass q mq r current ids)"
proof -
  let ?s0 = "\<lparr>cs_over = 0, cs_assignment = map (\<lambda>i. (i, [])) ids, cs_assigned = {},
        cs_under = [], cs_exact = []\<rparr>"
  have "pass_slots q current ids (done @ rest) (fold (assign_owned q mq r current) rest s)
      \<and> pass_lists q r (done @ rest) (fold (assign_owned q mq r current) rest s)
      \<and> pass_count q r (done @ rest) (fold (assign_owned q mq r current) rest s)"
    if "pass_slots q current ids done s" "pass_lists q r done s" "pass_count q r done s"
      "distinct (done @ rest)" "set rest \<subseteq> set ids" for "done" rest s
    using that
  proof (induction rest arbitrary: "done" s)
    case (Cons m rest)
    have over: "cs_over s \<le> r" using Cons.prems(3) by (simp add: pass_count_def)
    obtain k where k: "owned_effect q r m (take k (by_index current m)) s (assign_owned q mq r current m s)"
      "min q (load current m) \<le> length (take k (by_index current m))"
      using assign_owned_effect [OF assms(2) over] by blast
    have m: "m \<in> set ids" "m \<notin> set done" using Cons.prems by auto
    show ?case
      using Cons.IH [of "done @ [m]", OF pass_slots_step [OF k(1) Cons.prems(1) m k(2)]
          pass_lists_step [OF k(1) Cons.prems(1) m Cons.prems(2)]
          pass_count_step [OF k(1) Cons.prems(1) m Cons.prems(2,3)]] Cons.prems(4,5)
      by simp
  qed simp
  moreover have "slot (map (\<lambda>i. (i, [])) ids) m = []" for m
    by (auto simp: slot_def split: option.splits dest!: map_of_SomeD)
  then have "pass_slots q current ids [] ?s0" "pass_lists q r [] ?s0" "pass_count q r [] ?s0"
    by (simp_all add: pass_slots_def pass_lists_def pass_count_def comp_def)
  ultimately show "pass_slots q current ids ids (owned_pass q mq r current ids)"
    "pass_lists q r ids (owned_pass q mq r current ids)"
    "pass_count q r ids (owned_pass q mq r current ids)"
    using assms(1) unfolding owned_pass_def by (metis append_Nil order_refl)+
qed

text \<open>
  The round robin phase with the partitions \<open>L\<close> left and room for \<open>e\<close> members above the minimum:
  the partitions left are exactly what is missing, and there are members for all of them.
\<close>

definition rr_inv :: "nat \<Rightarrow> nat \<Rightarrow> string list \<Rightarrow> nat \<Rightarrow> nat \<Rightarrow> round_robin_state \<Rightarrow> bool" where
  "rr_inv q r ids left e s \<longleftrightarrow>
     map fst (rr_assignment s) = ids
     \<and> distinct (rr_under s) \<and> distinct (rr_exact s)
     \<and> set (rr_under s) \<subseteq> set ids \<and> set (rr_exact s) \<subseteq> set ids
     \<and> (\<forall>m\<in>set (rr_under s). load (rr_assignment s) m < q)
     \<and> (\<forall>m\<in>set (rr_exact s). load (rr_assignment s) m = q)
     \<and> (\<forall>m\<in>set ids - set (rr_under s). q \<le> load (rr_assignment s) m
          \<and> load (rr_assignment s) m \<le> q + (if 0 < r then 1 else 0))
     \<and> left = deficit q (rr_assignment s) (rr_under s) + e
     \<and> e \<le> length (rr_exact s) + length (rr_under s) \<and> e \<le> r"

text \<open>The queue of members at the minimum serves once nobody is below it.\<close>

lemma rr_step_exact:
  assumes inv: "rr_inv q r ids (Suc left) e s" and under: "rr_under s = []"
  shows "\<exists>m e' s'. round_robin_step q tp s = Some s' \<and> m \<in> set ids
    \<and> rr_assignment s' = slot_push m tp (rr_assignment s) \<and> rr_inv q r ids left e' s'"
proof -
  have e: "e = Suc left" using inv under by (simp add: rr_inv_def)
  then obtain m rest where x: "rr_exact s = m # rest"
    using inv under by (cases "rr_exact s") (auto simp: rr_inv_def)
  have m: "m \<in> set ids" "m \<in> fst ` set (rr_assignment s)" "load (rr_assignment s) m = q"
    using inv x unfolding rr_inv_def by (auto simp flip: list.set_map)
  let ?s' = "s\<lparr>rr_exact := rest, rr_assignment := slot_push m tp (rr_assignment s)\<rparr>"
  have "round_robin_step q tp s = Some ?s'"
    using m(2) by (simp add: round_robin_step_def pick_member_def under x Let_def entry_push_slot)
  moreover have "rr_inv q r ids left left ?s'"
    using inv m e under x unfolding rr_inv_def by (auto simp: slot_slot_push)
  ultimately show ?thesis using m(1) by auto
qed

text \<open>A member below the minimum takes the partition, at whatever position the cursor is.\<close>

lemma rr_step_under:
  assumes inv: "rr_inv q r ids (Suc left) e s" and c: "rr_under s = xs @ m # ys"
    and pick: "pick_member s = Some (m, s\<lparr>rr_cursor := length xs\<rparr>)"
  shows "\<exists>m e' s'. round_robin_step q tp s = Some s' \<and> m \<in> set ids
    \<and> rr_assignment s' = slot_push m tp (rr_assignment s) \<and> rr_inv q r ids left e' s'"
proof -
  let ?out = "slot_push m tp (rr_assignment s)"
  have m: "m \<in> set ids" "m \<in> fst ` set (rr_assignment s)" "load (rr_assignment s) m < q"
    "m \<notin> set xs" "m \<notin> set ys"
    using inv c unfolding rr_inv_def by (auto simp flip: list.set_map)
  have ld: "load ?out k = (if k = m then Suc (load (rr_assignment s) m) else load (rr_assignment s) k)"
    for k using m(2) by (simp add: slot_slot_push)
  have "deficit q ?out xs = deficit q (rr_assignment s) xs"
    "deficit q ?out ys = deficit q (rr_assignment s) ys"
    using m(4,5) by (auto intro!: deficit_cong simp: slot_slot_push)
  note same = this
  have nex: "m \<notin> set (rr_exact s)" using inv m(3) by (auto simp: rr_inv_def)
  show ?thesis
  proof (cases "Suc (load (rr_assignment s) m) = q")
    case True
    let ?s' = "s\<lparr>rr_cursor := length xs, rr_assignment := ?out, rr_under := xs @ ys,
      rr_exact := rr_exact s @ [m]\<rparr>"
    have "round_robin_step q tp s = Some ?s'"
      using m(2) True ld [of m]
      by (simp add: round_robin_step_def pick Let_def entry_push_slot c)
    moreover have "rr_inv q r ids left e ?s'"
      using inv c m nex True same unfolding rr_inv_def by (auto simp: ld)
    ultimately show ?thesis using m(1) by auto
  next
    case False
    let ?s' = "s\<lparr>rr_cursor := Suc (length xs), rr_assignment := ?out\<rparr>"
    have "round_robin_step q tp s = Some ?s'"
      using m(2) False ld [of m]
      by (simp add: round_robin_step_def pick Let_def entry_push_slot c)
    moreover have "rr_inv q r ids left e ?s'"
      using inv c m nex False same unfolding rr_inv_def by (auto simp: ld)
    ultimately show ?thesis using m(1) by auto
  qed
qed

lemma rr_step:
  assumes inv: "rr_inv q r ids (Suc left) e s"
  shows "\<exists>m e' s'. round_robin_step q tp s = Some s' \<and> m \<in> set ids
    \<and> rr_assignment s' = slot_push m tp (rr_assignment s) \<and> rr_inv q r ids left e' s'"
proof (cases "rr_under s")
  case Nil
  then show ?thesis using rr_step_exact [OF inv] by simp
next
  case (Cons first rest)
  show ?thesis
  proof (cases "rr_cursor s < length (rr_under s)")
    case True
    let ?xs = "take (rr_cursor s) (rr_under s)" and ?ys = "drop (Suc (rr_cursor s)) (rr_under s)"
    have "length ?xs = rr_cursor s" using True by simp
    then have "pick_member s = Some (rr_under s ! rr_cursor s, s\<lparr>rr_cursor := length ?xs\<rparr>)"
      using True by (simp add: pick_member_def)
    moreover have "rr_under s = ?xs @ rr_under s ! rr_cursor s # ?ys"
      using True by (rule id_take_nth_drop)
    ultimately show ?thesis using rr_step_under [OF inv] by blast
  next
    case False
    then have "pick_member s = Some (first, s\<lparr>rr_cursor := length ([] :: string list)\<rparr>)"
      using Cons by (simp add: pick_member_def)
    then show ?thesis using rr_step_under [OF inv, of "[]" first rest] Cons by auto
  qed
qed

text \<open>The \<open>break\<close> is never taken: every partition is placed.\<close>

lemma assign_round_robin_correct:
  assumes "rr_inv q r ids (length L) e s" "placed subs M (rr_assignment s)"
    and "\<And>m tp. m \<in> set ids \<Longrightarrow> tp \<in> set L \<Longrightarrow> subscribes subs m (fst tp)"
  shows "\<exists>e'. rr_inv q r ids 0 e' (assign_round_robin q L s)
    \<and> placed subs (M + mset L) (rr_assignment (assign_round_robin q L s))
    \<and> (\<forall>m. set (slot (rr_assignment s) m) \<subseteq> set (slot (rr_assignment (assign_round_robin q L s)) m))"
  using assms
proof (induction L arbitrary: e s M)
  case (Cons tp L)
  obtain m e' s' where s': "round_robin_step q tp s = Some s'" "m \<in> set ids"
    "rr_assignment s' = slot_push m tp (rr_assignment s)" "rr_inv q r ids (length L) e' s'"
    using rr_step [of q r ids "length L" e s tp] Cons.prems(1) by auto
  have "placed subs (add_mset tp M) (rr_assignment s')"
    unfolding s'(3) using Cons.prems s'(2) by (intro placed_push) simp_all
  from Cons.IH [OF s'(4) this] Cons.prems(3)
  obtain e'' where IH: "rr_inv q r ids 0 e'' (assign_round_robin q L s')"
    "placed subs (add_mset tp M + mset L) (rr_assignment (assign_round_robin q L s'))"
    "\<And>k. set (slot (rr_assignment s') k) \<subseteq> set (slot (rr_assignment (assign_round_robin q L s')) k)"
    by auto
  have "set (slot (rr_assignment s) k) \<subseteq> set (slot (rr_assignment s') k)" for k
    by (auto simp: s'(3) slot_slot_push)
  then show ?case using IH s'(1) by (auto intro: order_trans)
qed auto

lemma placed_sorted:
  assumes "placed subs M out"
  shows "placed subs M (map (\<lambda>(k, v). (k, sort v)) out)"
proof -
  have "mset (held (map (\<lambda>(k, v). (k, sort v)) out)) = mset (held out)" for out
    by (induction out) (auto simp: held_def)
  then show ?thesis
    using assms unfolding placed_def map_fst_values fst_set_values by fastforce
qed

lemma distinct_held:
  assumes "distinct (map fst out)" "\<And>m. distinct (slot out m)"
    and "\<And>m m' tp. tp \<in> set (slot out m) \<Longrightarrow> tp \<in> set (slot out m') \<Longrightarrow> m = m'"
  shows "distinct (held out)"
  using assms
proof (induction out)
  case (Cons e out)
  obtain k ps where e: "e = (k, ps)" by force
  have k: "slot out k = []" using Cons.prems(1) by (simp add: e slot_not_member)
  have sl: "slot (e # out) m = (if m = k then ps else slot out m)" for m
    by (simp add: e slot_def)
  have "distinct (slot out m)" for m using Cons.prems(2) [of m] k by (auto simp: sl split: if_splits)
  moreover have "m = m'" if "tp \<in> set (slot out m)" "tp \<in> set (slot out m')" for m m' tp
  proof -
    have "m \<noteq> k" "m' \<noteq> k" using that k by auto
    then show ?thesis using Cons.prems(3) [of tp m m'] that by (simp add: sl)
  qed
  ultimately have "distinct (held out)" using Cons.IH Cons.prems(1) by (simp add: e)
  moreover have "set ps \<inter> set (held out) = {}"
  proof -
    have "tp \<notin> set (held out)" if "tp \<in> set ps" for tp
    proof
      assume "tp \<in> set (held out)"
      then obtain m where m: "tp \<in> set (slot out m)" using Cons.prems(1) by (auto simp: in_held e)
      then have "m \<noteq> k" using k by auto
      then show False using Cons.prems(3) [of tp k m] that m by (simp add: sl)
    qed
    then show ?thesis by blast
  qed
  moreover have "distinct ps" using Cons.prems(2) [of k] by (simp add: sl)
  ultimately show ?case by (simp add: held_def e)
qed (simp add: held_def)

lemma length_held:
  "distinct (map fst out) \<Longrightarrow> length (held out) = sum_list (map (load out) (map fst out))"
proof (induction out)
  case (Cons e out)
  obtain k ps where e: "e = (k, ps)" by force
  have "map (load (e # out)) (map fst out) = map (load out) (map fst out)"
    using Cons.prems by (intro map_cong) (auto simp: slot_def e)
  then have "sum_list (map (load (e # out)) (map fst out)) = sum_list (map (load out) (map fst out))"
    by presburger
  then show ?case using Cons by (simp add: held_def e slot_def)
qed (simp add: held_def)

lemma deficit_sort [simp]: "deficit q out (sort ms) = deficit q out ms"
proof -
  have "mset (map (\<lambda>m. q - load out m) (sort ms)) = mset (map (\<lambda>m. q - load out m) ms)" by simp
  then show ?thesis unfolding deficit_def by (metis sum_mset_sum_list)
qed

text \<open>
  What the constrained algorithm relies on: the previous owners as the first pass leaves them, and
  one subscription \<open>shared\<close> of all members.
\<close>

definition owners_ok :: "assignment \<Rightarrow> topic_partition list \<Rightarrow> bool" where
  "owners_ok current all \<longleftrightarrow>
     (\<forall>m. distinct (slot current m) \<and> set (slot current m) \<subseteq> set all)
     \<and> (\<forall>m m' tp. tp \<in> set (slot current m) \<longrightarrow> tp \<in> set (slot current m') \<longrightarrow> m = m')"

lemma owned_pass_placed:
  assumes ids: "distinct ids" "fst ` set view = set ids" and cur: "owners_ok current all"
    and sub: "\<And>m tp. m \<in> set ids \<Longrightarrow> tp \<in> set all \<Longrightarrow> subscribes view m (fst tp)"
    and inv: "pass_slots q current ids ids c" and "distinct all"
  shows "placed view (mset (held (cs_assignment c))) (cs_assignment c)"
    "mset (held (cs_assignment c)) + mset (filter (\<lambda>tp. tp \<notin> cs_assigned c) all) = mset all"
    "length (held (cs_assignment c)) = sum_list (map (load (cs_assignment c)) ids)"
proof -
  let ?a = "cs_assignment c"
  have keys: "map fst ?a = ids" using inv by (simp add: pass_slots_def)
  then have d: "distinct (map fst ?a)" using ids by simp
  have pre: "\<exists>k. slot ?a m = take k (by_index current m)" for m
    using inv unfolding pass_slots_def by (metis take0)
  have sub_cur: "set (slot ?a m) \<subseteq> set (slot current m)" "distinct (slot ?a m)" for m
  proof -
    obtain k where "slot ?a m = take k (by_index current m)" using pre by blast
    moreover have "set (by_index current m) = set (slot current m)" "distinct (by_index current m)"
      using cur by (simp_all add: by_index_def owners_ok_def)
    ultimately show "set (slot ?a m) \<subseteq> set (slot current m)" "distinct (slot ?a m)"
      using set_take_subset by (fastforce, simp)
  qed
  have dh: "distinct (held ?a)"
    using cur sub_cur by (intro distinct_held [OF d]) (auto simp: owners_ok_def subset_iff, blast)
  have sh: "set (held ?a) = cs_assigned c" "cs_assigned c \<subseteq> set all"
  proof -
    have "slot ?a m = [] \<or> m \<in> set ids" for m using inv by (auto simp: pass_slots_def)
    then show "set (held ?a) = cs_assigned c"
      using inv in_held [OF d] unfolding pass_slots_def by fastforce
    then show "cs_assigned c \<subseteq> set all"
      using sub_cur(1) cur in_held [OF d] by (fastforce simp: owners_ok_def)
  qed
  have "mset (held ?a) = mset (filter (\<lambda>tp. tp \<in> cs_assigned c) all)"
    using dh assms(6) sh by (intro set_eq_iff_mset_eq_distinct [THEN iffD1]) auto
  then show "mset (held ?a) + mset (filter (\<lambda>tp. tp \<notin> cs_assigned c) all) = mset all"
    by (simp add: multiset_partition [symmetric])
  have "subscribes view m (fst tp)" if "(m, ps) \<in> set ?a" "tp \<in> set ps" for m ps tp
  proof (rule sub)
    show "m \<in> set ids" using that(1) keys by force
    have "tp \<in> set (held ?a)" using that by (force simp: held_def)
    then show "tp \<in> set all" using sh by blast
  qed
  then show "placed view (mset (held ?a)) ?a"
    using d keys ids(2) by (auto simp: placed_def) (metis image_iff keys list.set_map fst_conv)+
  show "length (held ?a) = sum_list (map (load ?a) ids)"
    using length_held [OF d] keys by simp
qed

text \<open>The quotas of a group of \<open>n\<close> members with \<open>c\<close> partitions.\<close>

lemma rr_inv_start:
  assumes lists: "pass_lists q r ids c" and cnt: "pass_count q r ids c"
    and keys: "map fst (cs_assignment c) = ids"
    and n: "r < length ids" "sum_list (map (load (cs_assignment c)) ids) + left = length ids * q + r"
  shows "rr_inv q r ids left (r - cs_over c)
    \<lparr>rr_cursor = 0, rr_under = sort (cs_under c), rr_exact = sort (cs_exact c),
     rr_assignment = cs_assignment c\<rparr>"
proof -
  have "left = deficit q (cs_assignment c) (cs_under c) + (r - cs_over c)"
    using cnt n(2) unfolding pass_count_def by linarith
  moreover have "r - cs_over c \<le> length (cs_exact c) + length (cs_under c)"
    using cnt n(1) unfolding pass_count_def by linarith
  ultimately show ?thesis
    using lists keys by (auto simp: rr_inv_def pass_lists_def)
qed

lemma rr_inv_end:
  assumes "rr_inv q r ids 0 e s" "m \<in> set ids"
  shows "q \<le> load (rr_assignment s) m" "load (rr_assignment s) m \<le> q + (if 0 < r then 1 else 0)"
proof -
  have "m \<notin> set (rr_under s)"
  proof
    assume "m \<in> set (rr_under s)"
    then have "q - load (rr_assignment s) m \<le> deficit q (rr_assignment s) (rr_under s)"
      unfolding deficit_def by (intro member_le_sum_list) auto
    then show False using assms \<open>m \<in> set (rr_under s)\<close> by (auto simp: rr_inv_def)
  qed
  then show "q \<le> load (rr_assignment s) m" "load (rr_assignment s) m \<le> q + (if 0 < r then 1 else 0)"
    using assms by (simp_all add: rr_inv_def)
qed

lemma constrained_phases:
  fixes ids subs current tps view
  defines "shared \<equiv> (case map_of subs (hd ids) of None \<Rightarrow> [] | Some ts \<Rightarrow> ts)"
  defines "all \<equiv> partitions_of tps shared"
  assumes ids: "ids \<noteq> []" "distinct ids" "fst ` set view = set ids" and "distinct shared"
    and cur: "owners_ok current all"
    and sub: "\<And>m t. m \<in> set ids \<Longrightarrow> t \<in> set shared \<Longrightarrow> subscribes view m t"
  obtains c s e where
    "constrained_assign ids subs current tps = map (\<lambda>(k, v). (k, sort v)) (rr_assignment s)"
    "rr_inv (length all div length ids) (length all mod length ids) ids 0 e s"
    "placed view (mset all) (rr_assignment s)"
    "c = owned_pass (length all div length ids) (div_ceil (length all) (length ids))
           (length all mod length ids) current ids"
    "pass_slots (length all div length ids) current ids ids c"
    "\<And>m. set (slot (cs_assignment c) m) \<subseteq> set (slot (rr_assignment s) m)"
proof -
  let ?q = "length all div length ids" and ?r = "length all mod length ids"
  let ?mq = "div_ceil (length all) (length ids)"
  have mq: "?mq = ?q + (if 0 < ?r then 1 else 0)" by (simp add: div_ceil_def)
  define c where "c = owned_pass ?q ?mq ?r current ids"
  define U where "U = filter (\<lambda>tp. tp \<notin> cs_assigned c) all"
  define s where "s = \<lparr>rr_cursor = 0, rr_under = sort (cs_under c), rr_exact = sort (cs_exact c),
     rr_assignment = cs_assignment c\<rparr>"
  note pass = owned_pass_inv [OF ids(2) mq, of current, folded c_def]
  have in_all: "subscribes view m (fst tp)" if "m \<in> set ids" "tp \<in> set all" for m tp
    using that sub by (cases tp) (simp add: all_def in_partitions_of)
  have "distinct all" unfolding all_def by (rule distinct_partitions_of) fact
  note pl = owned_pass_placed [OF ids(2,3) cur in_all pass(1) this, folded U_def]
  have "length (held (cs_assignment c)) + length U = length all"
    using arg_cong [OF pl(2), of size] by simp
  then have sum: "sum_list (map (load (cs_assignment c)) ids) + length U = length ids * ?q + ?r"
    using pl(3) by simp
  have keys: "map fst (cs_assignment c) = ids" using pass(1) by (simp add: pass_slots_def)
  have "?r < length ids" using ids(1) by simp
  from rr_inv_start [OF pass(2,3) keys this sum]
  have start: "rr_inv ?q ?r ids (length U) (?r - cs_over c) s" by (simp add: s_def)
  have s0: "rr_assignment s = cs_assignment c" by (simp add: s_def)
  then have "placed view (mset (held (cs_assignment c))) (rr_assignment s)" using pl(1) by simp
  from assign_round_robin_correct [OF start this]
  obtain e where e: "rr_inv ?q ?r ids 0 e (assign_round_robin ?q U s)"
    "placed view (mset all) (rr_assignment (assign_round_robin ?q U s))"
    "\<And>m. set (slot (cs_assignment c) m) \<subseteq> set (slot (rr_assignment (assign_round_robin ?q U s)) m)"
    using in_all pl(2) unfolding s0 U_def by auto
  have "constrained_assign ids subs current tps
      = map (\<lambda>(k, v). (k, sort v)) (rr_assignment (assign_round_robin ?q U s))"
    using ids(1)
    by (simp add: constrained_assign_def Let_def shared_def [symmetric] all_def [symmetric]
        c_def [symmetric] U_def [symmetric] s_def [symmetric])
  from that [OF this e(1,2) c_def pass(1) e(3)] show thesis .
qed

lemma take_of_prefix:
  assumes "xs = take k ys" "min q n \<le> length xs" "length ys = n"
  shows "take q ys = take q xs"
proof (cases "q \<le> k")
  case True
  then show ?thesis by (simp add: assms(1) min_def)
next
  case False
  then have "n \<le> k" using assms by (simp add: min_def split: if_splits)
  then show ?thesis using assms by simp
qed

lemma constrained_assign_correct:
  fixes ids subs current tps view
  defines "shared \<equiv> (case map_of subs (hd ids) of None \<Rightarrow> [] | Some ts \<Rightarrow> ts)"
  defines "all \<equiv> partitions_of tps shared"
  defines "out \<equiv> constrained_assign ids subs current tps"
  assumes ids: "ids \<noteq> []" "distinct ids" "fst ` set view = set ids" and sh: "distinct shared"
    and cur: "owners_ok current all"
    and sub: "\<And>m t. m \<in> set ids \<Longrightarrow> t \<in> set shared \<Longrightarrow> subscribes view m t"
  shows "placed view (mset all) out"
    "m \<in> set ids \<Longrightarrow> length all div length ids \<le> load out m"
    "m \<in> set ids \<Longrightarrow> load out m \<le> div_ceil (length all) (length ids)"
    "m \<in> set ids \<Longrightarrow> set (take (length all div length ids) (by_index current m)) \<subseteq> set (slot out m)"
    "set (slot (cs_assignment (owned_pass (length all div length ids)
         (div_ceil (length all) (length ids)) (length all mod length ids) current ids)) m)
       \<subseteq> set (slot out m)"
proof -
  let ?q = "length all div length ids"
  obtain c s e where out: "out = map (\<lambda>(k, v). (k, sort v)) (rr_assignment s)"
    and e: "rr_inv ?q (length all mod length ids) ids 0 e s"
    and pl: "placed view (mset all) (rr_assignment s)"
    and c: "c = owned_pass ?q (div_ceil (length all) (length ids)) (length all mod length ids) current ids"
    and pass: "pass_slots ?q current ids ids c"
    and ext: "\<And>m. set (slot (cs_assignment c) m) \<subseteq> set (slot (rr_assignment s) m)"
    by (rule constrained_phases [OF ids sh [unfolded shared_def] cur [unfolded all_def shared_def]
        sub [unfolded shared_def], folded shared_def, folded all_def, folded out_def])
      (assumption, assumption, rule that)
  show "set (slot (cs_assignment (owned_pass ?q (div_ceil (length all) (length ids))
      (length all mod length ids) current ids)) m) \<subseteq> set (slot out m)"
    using ext [of m] unfolding c by (simp add: out slot_sorted)
  show "placed view (mset all) out" using placed_sorted [OF pl] by (simp add: out)
  have ld: "load out m = load (rr_assignment s) m" for m
    by (simp add: out slot_sorted)
  show "m \<in> set ids \<Longrightarrow> ?q \<le> load out m"
    "m \<in> set ids \<Longrightarrow> load out m \<le> div_ceil (length all) (length ids)"
    using rr_inv_end [OF e, of m] by (simp_all only: ld div_ceil_def)
  assume "m \<in> set ids"
  then obtain k where k: "slot (cs_assignment c) m = take k (by_index current m)"
    "min ?q (load current m) \<le> load (cs_assignment c) m"
    using pass unfolding pass_slots_def by blast
  have "length (by_index current m) = load current m" by (simp add: by_index_def)
  then have "take ?q (by_index current m) = take ?q (slot (cs_assignment c) m)"
    by (rule take_of_prefix [OF k(1) k(2)])
  then have "set (take ?q (by_index current m)) \<subseteq> set (slot (cs_assignment c) m)"
    using set_take_subset by metis
  then show "set (take ?q (by_index current m)) \<subseteq> set (slot out m)"
    using ext [of m] by (simp add: out slot_sorted)
qed

end
