(* ===== verification/Assignor_General.thy ===== *)
theory Assignor_General
  imports Assignor_Sticky_Props
begin

text \<open>
  The general sticky algorithm (\<open>general_assign\<close> and \<open>balance_assignment\<close> of
  \<open>cooperative_sticky.rs\<close>): every partition is placed with a subscriber, the balance loop is a
  sequence of moves that each lower the sum of the squared loads, and it ends in a state in which
  no move helps unless it reaches its move limit.
\<close>

section \<open>The subscriber index\<close>

definition topic_pairs :: "subs_index \<Rightarrow> topic_counts \<Rightarrow> (string \<times> string) list" where
  "topic_pairs subs tps =
     concat (map (\<lambda>(mid, s). map (Pair mid) (filter (\<lambda>t. map_of tps t \<noteq> None) s)) subs)"

lemma subscribers_flat:
  "subscribers_per_topic subs tps
     = fold (\<lambda>(mid, t) idx. btree_entry t [] (insort_insert mid) idx) (topic_pairs subs tps) []"
proof -
  have inner: "fold (\<lambda>t idx. if map_of tps t \<noteq> None then btree_entry t [] (insort_insert mid) idx
        else idx) s idx
      = fold (\<lambda>(mid, t) idx. btree_entry t [] (insort_insert mid) idx)
          (map (Pair mid) (filter (\<lambda>t. map_of tps t \<noteq> None) s)) idx" for mid s idx
    by (induction s arbitrary: idx) simp_all
  have "fold (\<lambda>(mid, s) idx. fold (\<lambda>t idx. if map_of tps t \<noteq> None
        then btree_entry t [] (insort_insert mid) idx else idx) s idx) subs idx
      = fold (\<lambda>(mid, t) idx. btree_entry t [] (insort_insert mid) idx) (topic_pairs subs tps) idx"
    for idx
    by (induction subs arbitrary: idx) (auto simp: topic_pairs_def inner simp del: not_None_eq)
  then show ?thesis by (simp add: subscribers_per_topic_def)
qed

definition index_of :: "(string \<times> string) list \<Rightarrow> (string \<times> string list) list \<Rightarrow> bool" where
  "index_of P idx \<longleftrightarrow> btree_wf idx \<and>
     (\<forall>t. case map_of idx t of
            None \<Rightarrow> t \<notin> snd ` set P
          | Some S \<Rightarrow> t \<in> snd ` set P \<and> set S = {m. (m, t) \<in> set P})"

lemma index_of_step:
  assumes "index_of P idx"
  shows "index_of (P @ [(mid, t)]) (btree_entry t [] (insort_insert mid) idx)"
proof -
  have wf: "btree_wf idx" using assms by (simp add: index_of_def)
  have old: "case map_of idx u of None \<Rightarrow> u \<notin> snd ` set P
      | Some S \<Rightarrow> u \<in> snd ` set P \<and> set S = {m. (m, u) \<in> set P}" for u
    using assms by (simp add: index_of_def)
  have "case (if u = t then Some (insort_insert mid (case map_of idx t of None \<Rightarrow> [] | Some v \<Rightarrow> v))
          else map_of idx u) of
        None \<Rightarrow> u \<notin> snd ` set (P @ [(mid, t)])
      | Some S \<Rightarrow> u \<in> snd ` set (P @ [(mid, t)]) \<and> set S = {m. (m, u) \<in> set (P @ [(mid, t)])}" for u
    using old [of u]
    by (cases "u = t"; cases "map_of idx u") (auto simp: set_insort_insert image_iff)
  then show ?thesis
    using wf by (simp add: index_of_def btree_entry_wf map_of_btree_entry)
qed

lemma subscribers_index: "index_of (topic_pairs subs tps) (subscribers_per_topic subs tps)"
proof -
  have "index_of P (fold (\<lambda>(mid, t) idx. btree_entry t [] (insort_insert mid) idx) P [])" for P
  proof (induction P rule: rev_induct)
    case Nil
    then show ?case by (simp add: index_of_def)
  next
    case (snoc x P)
    then show ?case by (cases x) (simp add: index_of_step)
  qed
  then show ?thesis by (simp add: subscribers_flat)
qed

section \<open>Placing the partitions\<close>

text \<open>\<open>least_loaded\<close> finds a member with the least load, the first of them.\<close>

lemma least_loaded_correct:
  assumes "ms \<noteq> []"
  shows "\<exists>l m. least_loaded ms asg = Some (l, m) \<and> m \<in> set ms \<and> l = load asg m
    \<and> (\<forall>k\<in>set ms. l \<le> load asg k)"
  using assms
proof (induction ms rule: rev_nonempty_induct)
  case (single m)
  then show ?case by (simp add: least_loaded_def Let_def)
next
  case (snoc m ms)
  then obtain l k where k: "least_loaded ms asg = Some (l, k)" "k \<in> set ms" "l = load asg k"
    "\<forall>k\<in>set ms. l \<le> load asg k"
    by blast
  have step: "least_loaded (ms @ [m]) asg
      = (if load asg m < l then Some (load asg m, m) else Some (l, k))"
    using k(1) by (simp add: least_loaded_def Let_def)
  show ?case
  proof (cases "load asg m < l")
    case True
    then have "\<forall>k\<in>set ms. load asg m \<le> load asg k" using k(4) by (meson less_imp_le order_trans)
    then show ?thesis using step True by simp
  next
    case False
    then show ?thesis using step k by simp
  qed
qed

lemma choose_owner_correct:
  assumes "ms \<noteq> []"
  shows "\<exists>m. choose_assignment_owner tp ms prev asg = Some m \<and> m \<in> set ms
    \<and> (\<forall>k\<in>set ms. load asg m \<le> load asg k)"
proof -
  obtain l m where l: "least_loaded ms asg = Some (l, m)" "m \<in> set ms" "l = load asg m"
    "\<forall>k\<in>set ms. l \<le> load asg k"
    using least_loaded_correct [OF assms] by blast
  show ?thesis
  proof (cases "prev tp")
    case None
    then show ?thesis using l by (simp add: choose_assignment_owner_def pick_least_loaded_def)
  next
    case (Some p)
    then show ?thesis
      using l by (auto simp: choose_assignment_owner_def pick_least_loaded_def)
  qed
qed

lemma btree_entry_map_entry:
  "btree_wf m \<Longrightarrow> k \<in> fst ` set m \<Longrightarrow> btree_entry k d f m = AList.map_entry k f m"
  unfolding btree_wf_def by (induction k d f m rule: btree_entry.induct) auto

lemma btree_push_slot_push:
  "btree_wf out \<Longrightarrow> m \<in> fst ` set out \<Longrightarrow> btree_entry m [] (\<lambda>ps. ps @ [tp]) out = slot_push m tp out"
  by (simp add: btree_entry_map_entry slot_push_def)

lemma btree_wf_slot_push: "btree_wf out \<Longrightarrow> btree_wf (slot_push m tp out)"
  by (simp add: btree_wf_def)

lemma place_partition_placed:
  assumes "btree_wf asg" "placed view M asg" "map_of idx (fst tp) = Some S" "S \<noteq> []"
    and "\<And>m. m \<in> set S \<Longrightarrow> subscribes view m (fst tp)"
  shows "btree_wf (place_partition idx prev tp asg)
    \<and> placed view (add_mset tp M) (place_partition idx prev tp asg)"
proof -
  obtain m where m: "choose_assignment_owner tp S prev asg = Some m" "m \<in> set S"
    using choose_owner_correct [OF assms(4)] by blast
  then have sub: "subscribes view m (fst tp)" using assms(5) by blast
  then have "m \<in> fst ` set asg"
    using assms(2) subscribes_member by (force simp: placed_def)
  then have "place_partition idx prev tp asg = slot_push m tp asg"
    using assms(1,3) m(1) by (simp add: place_partition_def btree_push_slot_push)
  then show ?thesis
    using placed_push [OF assms(2) sub] btree_wf_slot_push [OF assms(1)] by simp
qed

lemma place_partitions_placed:
  assumes "btree_wf asg" "placed view M asg"
    and "\<And>tp. tp \<in> set L \<Longrightarrow> \<exists>S. map_of idx (fst tp) = Some S \<and> S \<noteq> []
      \<and> (\<forall>m\<in>set S. subscribes view m (fst tp))"
  shows "btree_wf (fold (place_partition idx prev) L asg)
    \<and> placed view (M + mset L) (fold (place_partition idx prev) L asg)"
  using assms
proof (induction L arbitrary: M asg)
  case (Cons tp L)
  obtain S where "map_of idx (fst tp) = Some S" "S \<noteq> []" "\<forall>m\<in>set S. subscribes view m (fst tp)"
    using Cons.prems(3) [of tp] by auto
  then have "btree_wf (place_partition idx prev tp asg)"
    "placed view (add_mset tp M) (place_partition idx prev tp asg)"
    using place_partition_placed [OF Cons.prems(1,2)] by blast+
  from Cons.IH [OF this] Cons.prems(3) show ?case by simp
qed simp

section \<open>The balance loop\<close>

text \<open>
  One move: a partition goes from its owner to the target that the loop chooses for it.  \<open>stable\<close>
  means that no move is left, and the potential is the sum of the squared loads.
\<close>

definition owner_pairs :: "assignment \<Rightarrow> (topic_partition \<times> string) set" where
  "owner_pairs asg = {(tp, o'). tp \<in> set (slot asg o')}"

inductive balance_move ::
  "string list \<Rightarrow> subs_index \<Rightarrow> (topic_partition \<rightharpoonup> string) \<Rightarrow> assignment \<Rightarrow> assignment \<Rightarrow> bool"
  for ids subs prev where
  "(tp, owner) \<in> owner_pairs asg \<Longrightarrow> balance_target ids subs prev tp owner asg = Some target \<Longrightarrow>
     balance_move ids subs prev asg (move_partition tp owner target asg)"

definition stable ::
  "string list \<Rightarrow> subs_index \<Rightarrow> (topic_partition \<rightharpoonup> string) \<Rightarrow> assignment \<Rightarrow> bool" where
  "stable ids subs prev asg \<longleftrightarrow>
     (\<forall>(tp, owner)\<in>owner_pairs asg. balance_target ids subs prev tp owner asg = None)"

definition potential :: "assignment \<Rightarrow> nat" where
  "potential asg = sum_list (map (\<lambda>(_, ps). length ps * length ps) asg)"

lemma sort_key_head: "sort_key f xs = x # rest \<Longrightarrow> x \<in> set xs"
  by (metis list.set_intros(1) set_sort)

lemma sort_key_Nil: "sort_key f xs = [] \<longleftrightarrow> xs = []"
  by (metis length_0_conv length_sort)

lemma lighter_subscriber_Some:
  assumes "lighter_subscriber asg l S = Some i"
  shows "i \<in> set S \<and> load asg i + 1 < l"
proof (cases "sort_key (\<lambda>i. (load asg i, i)) (filter (\<lambda>i. load asg i + 1 < l) S)")
  case Nil
  then show ?thesis using assms by (simp only: lighter_subscriber_def) simp
next
  case (Cons j rest)
  then have "i = j" using assms by (simp only: lighter_subscriber_def list.case option.inject)
  then show ?thesis using sort_key_head [OF Cons] by simp
qed

lemma lighter_subscriber_None:
  assumes "lighter_subscriber asg l S = None" "i \<in> set S"
  shows "l \<le> load asg i + 1"
proof (cases "sort_key (\<lambda>i. (load asg i, i)) (filter (\<lambda>i. load asg i + 1 < l) S)")
  case Nil
  then have "filter (\<lambda>i. load asg i + 1 < l) S = []" by (simp only: sort_key_Nil)
  then show ?thesis using assms(2) by (simp add: filter_empty_conv not_less)
next
  case (Cons j rest)
  then show ?thesis using assms(1) by (simp only: lighter_subscriber_def) simp
qed

lemma balance_target_Some:
  assumes "balance_target ids subs prev tp owner asg = Some target"
  shows "target \<in> set ids" "in_subs subs target (fst tp)" "load asg target + 1 < load asg owner"
proof -
  let ?S = "filter (\<lambda>i. in_subs subs i (fst tp)) ids"
  have "target \<in> set ?S \<and> load asg target + 1 < load asg owner"
    using assms lighter_subscriber_Some [of asg "load asg owner" ?S target]
    unfolding balance_target_def Let_def by (simp split: if_split_asm option.split_asm)
  then show "target \<in> set ids" "in_subs subs target (fst tp)" "load asg target + 1 < load asg owner"
    by auto
qed

text \<open>Without a target, no subscriber is more than one partition below the owner.\<close>

lemma balance_target_None:
  assumes "balance_target ids subs prev tp owner asg = None"
    and "m \<in> set ids" "in_subs subs m (fst tp)" "owner \<in> set ids" "in_subs subs owner (fst tp)"
  shows "load asg owner \<le> load asg m + 1"
proof (cases "m = owner")
  case False
  let ?S = "filter (\<lambda>i. in_subs subs i (fst tp)) ids"
  have "{m, owner} \<subseteq> set ?S" using assms by simp
  then have "card {m, owner} \<le> length ?S" by (meson List.finite_set card_length card_mono le_trans)
  then have "\<not> length ?S \<le> 1" using False by simp
  then have "lighter_subscriber asg (load asg owner) ?S = None"
    using assms(1) unfolding balance_target_def Let_def by (simp split: if_split_asm option.split_asm)
  then show ?thesis using assms(2,3) by (intro lighter_subscriber_None [of _ _ ?S]) simp_all
qed simp

lemma slot_map_entry:
  "owner \<in> fst ` set asg \<Longrightarrow>
     slot (AList.map_entry owner f asg) k = (if k = owner then f (slot asg owner) else slot asg k)"
proof -
  assume "owner \<in> fst ` set asg"
  then have "map_of asg owner \<noteq> None" by (simp add: map_of_eq_None_iff)
  then show ?thesis by (auto simp: slot_def map_of_map_entry)
qed

lemma held_remove:
  "tp \<in> set (slot asg owner) \<Longrightarrow>
     add_mset tp (mset (held (AList.map_entry owner (remove1 tp) asg))) = mset (held asg)"
proof (induction asg)
  case (Cons e asg)
  obtain k ps where e: "e = (k, ps)" by force
  show ?case
  proof (cases "k = owner")
    case True
    then have "tp \<in># mset ps" using Cons.prems by (simp add: e slot_def)
    then show ?thesis using True by (simp add: e held_def)
  next
    case False
    then have "tp \<in> set (slot asg owner)" using Cons.prems by (simp add: e slot_def)
    then show ?thesis using Cons.IH False by (simp add: e held_def add.left_commute flip: add_mset_add_single)
  qed
qed (simp add: slot_def)

lemma move_partition_effect:
  assumes wf: "btree_wf asg" and o': "tp \<in> set (slot asg owner)" and t: "target \<in> fst ` set asg"
  shows "btree_wf (move_partition tp owner target asg)"
    "map fst (move_partition tp owner target asg) = map fst asg"
    "target \<noteq> owner \<Longrightarrow> slot (move_partition tp owner target asg) k =
       (if k = owner then remove1 tp (slot asg owner)
        else if k = target then slot asg target @ [tp] else slot asg k)"
    "mset (held (move_partition tp owner target asg)) = mset (held asg)"
proof -
  let ?a = "AList.map_entry owner (remove1 tp) asg"
  have own: "owner \<in> fst ` set asg" using o' slot_not_member [of owner asg] by fastforce
  have wf': "btree_wf ?a" using wf by (simp add: btree_wf_def)
  have t': "target \<in> fst ` set ?a" using t by (simp add: dom_map_entry)
  have move: "move_partition tp owner target asg = slot_push target tp ?a"
    using btree_push_slot_push [OF wf' t'] by (simp add: move_partition_def)
  show "btree_wf (move_partition tp owner target asg)"
    unfolding move by (rule btree_wf_slot_push [OF wf'])
  show "map fst (move_partition tp owner target asg) = map fst asg" by (simp add: move)
  show "target \<noteq> owner \<Longrightarrow> slot (move_partition tp owner target asg) k =
       (if k = owner then remove1 tp (slot asg owner)
        else if k = target then slot asg target @ [tp] else slot asg k)"
    using t' by (simp add: move slot_slot_push slot_map_entry own)
  have "add_mset tp (mset (held ?a)) = mset (held asg)"
    using o' by (rule held_remove)
  moreover have "distinct (map fst ?a)" using wf' by (simp add: btree_wf_def)
  ultimately show "mset (held (move_partition tp owner target asg)) = mset (held asg)"
    using mset_held_push [OF _ t', of tp] by (simp add: move)
qed

lemma potential_loads:
  "distinct (map fst asg) \<Longrightarrow> potential asg = sum_list (map (\<lambda>m. load asg m * load asg m) (map fst asg))"
proof (induction asg)
  case (Cons e asg)
  obtain k ps where e: "e = (k, ps)" by force
  have "map (\<lambda>m. load (e # asg) m * load (e # asg) m) (map fst asg)
      = map (\<lambda>m. load asg m * load asg m) (map fst asg)"
    using Cons.prems by (intro map_cong) (auto simp: slot_def e)
  then have "sum_list (map (\<lambda>m. load (e # asg) m * load (e # asg) m) (map fst asg))
      = sum_list (map (\<lambda>m. load asg m * load asg m) (map fst asg))" by presburger
  then show ?case using Cons by (simp add: potential_def e slot_def)
qed (simp add: potential_def)

lemma sum_list_two:
  assumes "distinct xs" "a \<in> set xs" "b \<in> set xs" "a \<noteq> b"
  shows "sum_list (map (f :: string \<Rightarrow> nat) xs)
    = f a + f b + sum_list (map f (filter (\<lambda>x. x \<noteq> a \<and> x \<noteq> b) xs))"
proof -
  have "sum_list (map f xs) = sum f (set xs)" using assms(1) by (rule sum_list_distinct_conv_sum_set)
  also have "set xs = insert a (insert b {x \<in> set xs. x \<noteq> a \<and> x \<noteq> b})" using assms by auto
  also have "sum f \<dots> = f a + f b + sum f {x \<in> set xs. x \<noteq> a \<and> x \<noteq> b}"
    using assms(4) by simp
  also have "sum f {x \<in> set xs. x \<noteq> a \<and> x \<noteq> b}
      = sum_list (map f (filter (\<lambda>x. x \<noteq> a \<and> x \<noteq> b) xs))"
    using assms(1) sum_list_distinct_conv_sum_set [of "filter (\<lambda>x. x \<noteq> a \<and> x \<noteq> b) xs" f] by simp
  finally show ?thesis .
qed

text \<open>Every move lowers the potential, so the loop cannot cycle.\<close>

lemma move_lowers_potential:
  assumes wf: "btree_wf asg" and o': "tp \<in> set (slot asg owner)" and t: "target \<in> fst ` set asg"
    and lt: "load asg target + 1 < load asg owner"
  shows "potential (move_partition tp owner target asg) + 2 \<le> potential asg"
proof -
  let ?a = "move_partition tp owner target asg"
  have ne: "target \<noteq> owner" using lt by auto
  note eff = move_partition_effect [OF wf o' t]
  have own: "owner \<in> fst ` set asg" using o' slot_not_member [of owner asg] by fastforce
  have d: "distinct (map fst asg)" "distinct (map fst ?a)" using wf eff(1) by (simp_all add: btree_wf_def)
  let ?sq = "\<lambda>a m. load a m * load a m"
  let ?rest = "filter (\<lambda>x. x \<noteq> owner \<and> x \<noteq> target) (map fst asg)"
  have two: "sum_list (map f (map fst asg)) = f owner + f target + sum_list (map f ?rest)"
    for f :: "string \<Rightarrow> nat"
    using own t ne by (intro sum_list_two [OF d(1)]) auto
  have "map (?sq ?a) ?rest = map (?sq asg) ?rest"
    by (intro map_cong) (auto simp: eff(3) [OF ne])
  then have same: "sum_list (map (?sq ?a) ?rest) = sum_list (map (?sq asg) ?rest)" by presburger
  obtain x where x: "load asg owner = Suc x" using lt by (cases "load asg owner") auto
  have lo: "load ?a owner = x" "load ?a target = Suc (load asg target)"
    using o' ne x by (simp_all add: eff(3) [OF ne] length_remove1)
  have "potential ?a = ?sq ?a owner + ?sq ?a target + sum_list (map (?sq asg) ?rest)"
    unfolding potential_loads [OF d(2)] eff(2) two same ..
  moreover have "potential asg = ?sq asg owner + ?sq asg target + sum_list (map (?sq asg) ?rest)"
    unfolding potential_loads [OF d(1)] two ..
  moreover have "x * x + Suc b * Suc b + 2 \<le> Suc x * Suc x + b * b" if "b < x" for b
    using that by simp
  from this [of "load asg target"] lt x
  have "x * x + Suc (load asg target) * Suc (load asg target) + 2
      \<le> Suc x * Suc x + load asg target * load asg target" by simp
  ultimately show ?thesis unfolding lo x by linarith
qed

text \<open>What every state of the loop satisfies, and that a move keeps it.\<close>

definition balance_ok ::
  "group_view \<Rightarrow> string list \<Rightarrow> subs_index \<Rightarrow> topic_partition multiset \<Rightarrow> assignment \<Rightarrow> bool" where
  "balance_ok view ids subs M asg \<longleftrightarrow>
     btree_wf asg \<and> placed view M asg \<and> fst ` set asg = set ids
     \<and> (\<forall>tp. count M tp \<le> 1)
     \<and> (\<forall>m t. in_subs subs m t \<longrightarrow> subscribes view m t)"

lemma placed_by_slots:
  assumes "placed view M asg" "distinct (map fst asg')" "fst ` set asg' = fst ` set asg"
    and "mset (held asg') = M" "\<And>m tp. tp \<in> set (slot asg' m) \<Longrightarrow> subscribes view m (fst tp)"
  shows "placed view M asg'"
proof -
  have "subscribes view m (fst tp)" if "(m, ps) \<in> set asg'" "tp \<in> set ps" for m ps tp
    using assms(5) [of tp m] in_slot [OF assms(2)] that by blast
  then show ?thesis using assms(1-4) by (auto simp: placed_def)
qed

lemma placed_slot:
  "placed view M asg \<Longrightarrow> tp \<in> set (slot asg m) \<Longrightarrow> subscribes view m (fst tp)"
  unfolding placed_def using in_slot by fast

lemma balance_ok_move:
  assumes ok: "balance_ok view ids subs M asg" and o': "tp \<in> set (slot asg owner)"
    and t: "balance_target ids subs prev tp owner asg = Some target"
  shows "balance_ok view ids subs M (move_partition tp owner target asg)"
    "potential (move_partition tp owner target asg) + 2 \<le> potential asg"
    "tp' \<noteq> tp \<Longrightarrow> tp' \<in> set (slot asg k) \<Longrightarrow> tp' \<in> set (slot (move_partition tp owner target asg) k)"
proof -
  let ?a = "move_partition tp owner target asg"
  have wf: "btree_wf asg" and pl: "placed view M asg" and keys: "fst ` set asg = set ids"
    using ok by (simp_all add: balance_ok_def)
  note tgt = balance_target_Some [OF t]
  have ne: "target \<noteq> owner" using tgt(3) by auto
  have mem: "target \<in> fst ` set asg" using tgt(1) keys by simp
  note eff = move_partition_effect [OF wf o' mem]
  have keys': "fst ` set ?a = fst ` set asg" using eff(2) by (metis list.set_map)
  have "placed view M ?a"
  proof (rule placed_by_slots [OF pl _ keys'])
    show "distinct (map fst ?a)" using eff(1) by (simp add: btree_wf_def)
    show "mset (held ?a) = M" using eff(4) pl by (simp add: placed_def)
    fix m x assume "x \<in> set (slot ?a m)"
    then have "x \<in> set (slot asg m) \<or> (m = target \<and> x = tp)"
      unfolding eff(3) [OF ne] by (auto split: if_splits dest: notin_set_remove1)
    moreover have "subscribes view target (fst tp)" using ok tgt(2) by (simp add: balance_ok_def)
    ultimately show "subscribes view m (fst x)" using placed_slot [OF pl] by blast
  qed
  then show "balance_ok view ids subs M ?a"
    using ok eff(1) keys keys' by (simp add: balance_ok_def)
  show "potential ?a + 2 \<le> potential asg"
    by (rule move_lowers_potential [OF wf o' mem tgt(3)])
  show "tp' \<noteq> tp \<Longrightarrow> tp' \<in> set (slot asg k) \<Longrightarrow> tp' \<in> set (slot ?a k)"
    unfolding eff(3) [OF ne] by auto
qed

lemma balance_moves_ok:
  assumes "(balance_move ids subs prev ^^ n) asg asg'" "balance_ok view ids subs M asg"
  shows "balance_ok view ids subs M asg' \<and> potential asg' + 2 * n \<le> potential asg"
  using assms
proof (induction n arbitrary: asg')
  case (Suc n)
  obtain b where b: "(balance_move ids subs prev ^^ n) asg b" "balance_move ids subs prev b asg'"
    using Suc.prems(1) by auto
  then have ok: "balance_ok view ids subs M b" "potential b + 2 * n \<le> potential asg"
    using Suc.IH Suc.prems(2) by blast+
  from b(2) show ?case
  proof cases
    case (1 tp owner target)
    have "tp \<in> set (slot b owner)" using 1 by (simp add: owner_pairs_def)
    from balance_ok_move(1,2) [OF ok(1) this 1(3)] show ?thesis
      using ok(2) 1(1) by auto
  qed
qed simp

text \<open>A pass is a sequence of moves, as many as it counts.\<close>

lemma balance_pass_moves_rel:
  assumes "balance_pass ids subs prev max_iters ps moves modified asg
      = (returned, moves', modified', asg')"
    and "balance_ok view ids subs M asg" "distinct (map fst ps)"
    and "\<forall>(tp, owner)\<in>set ps. tp \<in> set (slot asg owner)" "moves \<le> max_iters"
  shows "\<exists>n. moves' = moves + n \<and> moves' \<le> max_iters
    \<and> (balance_move ids subs prev ^^ n) asg asg' \<and> (returned \<longrightarrow> moves' = max_iters)
    \<and> (modified' \<longleftrightarrow> modified \<or> 0 < n)
    \<and> (\<not> returned \<and> n = 0 \<longrightarrow>
         (\<forall>(tp, owner)\<in>set ps. balance_target ids subs prev tp owner asg = None))"
  using assms
proof (induction ps arbitrary: moves modified asg)
  case (Cons x ps)
  obtain tp owner where x: "x = (tp, owner)" by (cases x)
  have o': "tp \<in> set (slot asg owner)" using Cons.prems(4) by (simp add: x)
  consider (limit) "max_iters \<le> moves"
    | (stay) "moves < max_iters" "balance_target ids subs prev tp owner asg = None"
    | (move) target where "moves < max_iters" "balance_target ids subs prev tp owner asg = Some target"
    by (metis not_le option.exhaust)
  then show ?case
  proof cases
    case limit
    then show ?thesis using Cons.prems(1,5) by (auto simp: x)
  next
    case stay
    then have "balance_pass ids subs prev max_iters ps moves modified asg
        = (returned, moves', modified', asg')"
      using Cons.prems(1) by (simp add: x)
    from Cons.IH [OF this Cons.prems(2)] Cons.prems(3-5) stay(2) show ?thesis
      by (simp add: x)
  next
    case move
    let ?b = "move_partition tp owner target asg"
    have run: "balance_pass ids subs prev max_iters ps (moves + 1) True ?b
        = (returned, moves', modified', asg')"
      using Cons.prems(1) move by (simp add: x)
    note ok = balance_ok_move [OF Cons.prems(2) o' move(2)]
    have others: "\<forall>(tp', owner')\<in>set ps. tp' \<in> set (slot ?b owner')"
      using Cons.prems(3,4) ok(3) by (fastforce simp: x)
    have "distinct (map fst ps)" "moves + 1 \<le> max_iters" using Cons.prems(3) move(1) by simp_all
    from Cons.IH [OF run ok(1) this(1) others this(2)]
    obtain n where n: "moves' = moves + 1 + n" "moves' \<le> max_iters"
      "(balance_move ids subs prev ^^ n) ?b asg'" "returned \<longrightarrow> moves' = max_iters" "modified'"
      by auto
    have "balance_move ids subs prev asg ?b"
      using o' move(2) by (intro balance_move.intros) (simp_all add: owner_pairs_def)
    then have "(balance_move ids subs prev ^^ Suc n) asg asg'"
      using n(3) by (rule relpowp_Suc_I2)
    then show ?thesis using n by (intro exI [of _ "Suc n"]) simp
  qed
qed simp

lemma set_owned_pairs:
  "distinct (map fst asg) \<Longrightarrow> set (owned_pairs asg) = owner_pairs asg"
proof -
  assume d: "distinct (map fst asg)"
  have "set (owned_pairs asg) = {(tp, i). \<exists>ps. (i, ps) \<in> set asg \<and> tp \<in> set ps}"
    by (auto simp: owned_pairs_def)
  then show ?thesis by (simp only: owner_pairs_def in_slot [OF d])
qed

lemma distinct_owned_pairs:
  assumes "distinct (held asg)"
  shows "distinct (map fst (owned_pairs asg))"
proof -
  have "map fst (concat (map (\<lambda>(i, parts). map (\<lambda>tp. (tp, i)) parts) asg)) = held asg" for asg :: assignment
    by (induction asg) (auto simp: held_def comp_def)
  moreover have "mset (map fst (sort xs)) = mset (map fst xs)" for xs :: "(topic_partition \<times> string) list"
    by simp
  ultimately have "mset (map fst (owned_pairs asg)) = mset (held asg)"
    by (simp only: owned_pairs_def)
  from mset_eq_imp_distinct_iff [OF this] show ?thesis using assms by (rule iffD2)
qed

lemma balance_loop_moves:
  assumes "balance_ok view ids subs M asg" "moves \<le> max_iters"
  shows "\<exists>n. moves + n \<le> max_iters
    \<and> (balance_move ids subs prev ^^ n) asg (balance_loop ids subs prev max_iters moves asg)
    \<and> (moves + n < max_iters \<longrightarrow> stable ids subs prev (balance_loop ids subs prev max_iters moves asg))"
  using assms
proof (induction ids subs prev max_iters moves asg rule: balance_loop.induct)
  case (1 ids subs prev max_iters moves asg)
  obtain returned moves' modified asg' where pass:
    "balance_pass ids subs prev max_iters (owned_pairs asg) moves False asg
      = (returned, moves', modified, asg')" by (metis prod_cases4)
  have d: "distinct (map fst asg)" and M: "mset (held asg) = M" "\<forall>tp. count M tp \<le> 1"
    using 1(2) unfolding balance_ok_def placed_def btree_wf_def by blast+
  have "distinct (map fst (owned_pairs asg))"
    using M by (intro distinct_owned_pairs count_le_one_distinct) blast
  moreover have "\<forall>(tp, owner)\<in>set (owned_pairs asg). tp \<in> set (slot asg owner)"
    using set_owned_pairs [OF d] by (auto simp: owner_pairs_def)
  ultimately obtain n where n: "moves' = moves + n" "moves' \<le> max_iters"
    "(balance_move ids subs prev ^^ n) asg asg'" "returned \<longrightarrow> moves' = max_iters"
    "modified \<longleftrightarrow> 0 < n"
    "\<not> returned \<and> n = 0 \<longrightarrow>
       (\<forall>(tp, owner)\<in>set (owned_pairs asg). balance_target ids subs prev tp owner asg = None)"
    using balance_pass_moves_rel [OF pass 1(2) _ _ 1(3)] by auto
  show ?case
  proof (cases "returned \<or> \<not> modified")
    case True
    then have loop: "balance_loop ids subs prev max_iters moves asg = asg'"
      by (subst balance_loop.simps) (simp add: pass)
    have "stable ids subs prev asg'" if "moves + n < max_iters"
    proof -
      have "\<not> returned" "n = 0" using that n(1,4,5) True by auto
      then show ?thesis using n(3,6) set_owned_pairs [OF d] by (auto simp: stable_def)
    qed
    then show ?thesis using n(1-3) unfolding loop by auto
  next
    case False
    then have loop: "balance_loop ids subs prev max_iters moves asg
        = balance_loop ids subs prev max_iters moves' asg'"
      by (subst balance_loop.simps) (simp add: pass)
    have "balance_ok view ids subs M asg'" using balance_moves_ok [OF n(3) 1(2)] by blast
    then obtain k where k: "moves' + k \<le> max_iters"
      "(balance_move ids subs prev ^^ k) asg' (balance_loop ids subs prev max_iters moves' asg')"
      "moves' + k < max_iters \<longrightarrow> stable ids subs prev (balance_loop ids subs prev max_iters moves' asg')"
      using 1(1) [OF pass [symmetric] refl refl] False n(2) by blast
    have "(balance_move ids subs prev ^^ (n + k)) asg (balance_loop ids subs prev max_iters moves' asg')"
      using n(3) k(2) by (auto simp: relpowp_add)
    then show ?thesis using k n(1) unfolding loop by (intro exI [of _ "n + k"]) simp
  qed
qed

end
