(* ===== verification/Assignor_Group.thy ===== *)
theory Assignor_Group
  imports Assignor_General
begin

text \<open>
  The sticky assignors on a whole group: \<open>sticky_assignment\<close> places every wanted partition, so the
  eager result meets the assignor contract, and the cooperative result is the part of it that does
  not take a partition from a live owner.
\<close>

definition sticky_view :: "member_input list \<Rightarrow> group_view" where
  "sticky_view members = map (\<lambda>(mid, ts, _, _). (mid, ts)) members"

section \<open>The indexes of a group\<close>

lemma sticky_view_ids: "map fst (sticky_view members) = map fst members"
  by (auto simp: sticky_view_def)

lemma fst_set_sticky_view: "fst ` set (sticky_view members) = fst ` set members"
  by (metis list.set_map sticky_view_ids)

lemma subs_of_facts:
  assumes "distinct (map fst members)"
  shows "distinct (map fst (subs_of members))"
    "set (subs_of members) = (\<lambda>(mid, ts, _, _). (mid, btree_set ts)) ` set members"
    "in_subs (subs_of members) m t \<longleftrightarrow> subscribes (sticky_view members) m t"
proof -
  let ?kvs = "map (\<lambda>(mid, ts, _, _). (mid, btree_set ts)) members"
  have "map fst ?kvs = map fst members" by auto
  then have d: "distinct (map fst ?kvs)" using assms by (simp only:)
  show ds: "distinct (map fst (subs_of members))"
    using btree_collect_wf [of ?kvs] by (simp add: subs_of_def btree_wf_def)
  show set: "set (subs_of members) = (\<lambda>(mid, ts, _, _). (mid, btree_set ts)) ` set members"
    using btree_collect_eq_set [OF d] by (simp add: subs_of_def)
  have "in_subs (subs_of members) m t \<longleftrightarrow> (\<exists>ts. (m, ts) \<in> set (subs_of members) \<and> t \<in> set ts)"
    using ds by (auto simp: in_subs_def split: option.splits dest: eq_key_imp_eq_value)
  also have "\<dots> \<longleftrightarrow> subscribes (sticky_view members) m t"
    unfolding set subscribes_iff sticky_view_def by force
  finally show "in_subs (subs_of members) m t \<longleftrightarrow> subscribes (sticky_view members) m t" .
qed

text \<open>The previous owners: at most one per partition, a subscriber of a partition that exists.\<close>

lemma sole_highest_unique: "sole_highest cs m \<Longrightarrow> sole_highest cs m' \<Longrightarrow> m = m'"
proof -
  assume "sole_highest cs m" "sole_highest cs m'"
  then obtain g g' where g: "filter (\<lambda>c. g \<le> fst c) cs = [(g, m)]" "filter (\<lambda>c. g' \<le> fst c) cs = [(g', m')]"
    by (auto simp: sole_highest_def)
  then have s: "set (filter (\<lambda>c. g \<le> fst c) cs) = {(g, m)}" "set (filter (\<lambda>c. g' \<le> fst c) cs) = {(g', m')}"
    by simp_all
  show "m = m'"
  proof (cases "g \<le> g'")
    case True
    then have "(g', m') \<in> set (filter (\<lambda>c. g \<le> fst c) cs)" using s by auto
    then show ?thesis unfolding s by simp
  next
    case False
    then have "(g, m) \<in> set (filter (\<lambda>c. g' \<le> fst c) cs)" using s by auto
    then show ?thesis unfolding s by simp
  qed
qed

lemma sole_highest_in:
  assumes "sole_highest cs m"
  obtains g where "(g, m) \<in> set cs"
proof -
  obtain g where "filter (\<lambda>c. g \<le> fst c) cs = [(g, m)]"
    using assms by (auto simp: sole_highest_def)
  then have "(g, m) \<in> set (filter (\<lambda>c. g \<le> fst c) cs)" by simp
  then show thesis using that by simp
qed

lemma current_owner_live:
  assumes "tp \<in> set (slot (prepopulate_current_assignments members subs tps) m)"
  shows "live_claim subs tps m tp"
    "\<exists>ts owned g. (m, ts, owned, g) \<in> set members \<and> tp \<in> set owned"
proof -
  have "sole_highest (claims_on (live_claims subs tps members) tp) m"
    using assms by (simp add: prepopulate_facts(3))
  then obtain g where "(g, m) \<in> set (claims_on (live_claims subs tps members) tp)"
    by (rule sole_highest_in)
  then have "(tp, g, m) \<in> set (live_claims subs tps members)"
    by (auto simp: claims_on_def)
  then show "live_claim subs tps m tp"
    "\<exists>ts owned g. (m, ts, owned, g) \<in> set members \<and> tp \<in> set owned"
    by (auto simp: live_claims_def)
qed

lemma current_owner_unique:
  assumes "tp \<in> set (slot (prepopulate_current_assignments members subs tps) m)"
    and "tp \<in> set (slot (prepopulate_current_assignments members subs tps) m')"
  shows "m = m'"
  using assms sole_highest_unique by (simp add: prepopulate_facts(3))

lemma live_claim_iff:
  "live_claim subs tps m (t, p) \<longleftrightarrow>
     in_subs subs m t \<and> (\<exists>c. map_of tps t = Some c \<and> 0 \<le> p \<and> p < c)"
  by (auto simp: live_claim_def split: option.splits)

lemma fold_upd_map_of: "fold (\<lambda>(k, v) f. f(k \<mapsto> v)) kvs f = f ++ map_of (rev kvs)"
  by (induction kvs arbitrary: f rule: rev_induct) (auto simp: map_add_def fun_eq_iff)

lemma map_of_functional:
  "(\<And>v v'. (k, v) \<in> set kvs \<Longrightarrow> (k, v') \<in> set kvs \<Longrightarrow> v = v') \<Longrightarrow>
     map_of kvs k = Some v \<longleftrightarrow> (k, v) \<in> set kvs"
  by (metis map_of_SomeD weak_map_of_SomeI)

lemma previous_owner_iff:
  assumes "distinct (map fst cur)"
    and "\<And>m m' tp. tp \<in> set (slot cur m) \<Longrightarrow> tp \<in> set (slot cur m') \<Longrightarrow> m = m'"
  shows "previous_owner cur tp = Some m \<longleftrightarrow> tp \<in> set (slot cur m)"
proof -
  let ?kvs = "concat (map (\<lambda>(m, ps). map (\<lambda>tp. (tp, m)) ps) cur)"
  have "fold (\<lambda>(m, parts) po. fold (\<lambda>tp po. po(tp \<mapsto> m)) parts po) xs po
      = fold (\<lambda>(k, v) f. f(k \<mapsto> v)) (concat (map (\<lambda>(m, ps). map (\<lambda>tp. (tp, m)) ps) xs)) po"
    for xs :: assignment and po
    by (induction xs arbitrary: po) (auto simp: fold_map comp_def)
  then have "previous_owner cur = map_of (rev ?kvs)"
    by (simp only: previous_owner_def fold_upd_map_of map_add_empty empty_map_add)
  moreover have kvs: "(tp, m) \<in> set (rev ?kvs) \<longleftrightarrow> tp \<in> set (slot cur m)" for tp m
    unfolding in_slot [OF assms(1)] by auto
  moreover have "map_of (rev ?kvs) tp = Some m \<longleftrightarrow> (tp, m) \<in> set (rev ?kvs)"
    by (rule map_of_functional) (use assms(2) in \<open>simp only: kvs\<close>)
  ultimately show ?thesis by simp
qed

section \<open>The general algorithm on a group\<close>

text \<open>The member ids and the subscription index that the group's view describes.\<close>

definition index_ok :: "group_view \<Rightarrow> string list \<Rightarrow> subs_index \<Rightarrow> bool" where
  "index_ok view ids subs \<longleftrightarrow>
     distinct ids \<and> fst ` set view = set ids \<and> distinct (map fst subs)
     \<and> (\<forall>m t. in_subs subs m t \<longleftrightarrow> subscribes view m t)"

lemma in_subs_entry:
  "distinct (map fst subs) \<Longrightarrow> in_subs subs m t \<longleftrightarrow> (\<exists>ts. (m, ts) \<in> set subs \<and> t \<in> set ts)"
  by (auto simp: in_subs_def split: option.splits dest: eq_key_imp_eq_value)

lemma in_topic_pairs:
  "distinct (map fst subs) \<Longrightarrow>
     (m, t) \<in> set (topic_pairs subs tps) \<longleftrightarrow> in_subs subs m t \<and> map_of tps t \<noteq> None"
proof -
  assume d: "distinct (map fst subs)"
  have "(m, t) \<in> set (topic_pairs subs tps) \<longleftrightarrow>
      (\<exists>ts. (m, ts) \<in> set subs \<and> t \<in> set ts \<and> map_of tps t \<noteq> None)"
    by (induction subs) (auto simp: topic_pairs_def)
  then show ?thesis unfolding in_subs_entry [OF d] by blast
qed

lemma subscriber_topics:
  assumes "index_ok view ids subs"
  shows "distinct (map fst (subscribers_per_topic subs tps))"
    "t \<in> set (map fst (subscribers_per_topic subs tps)) \<longleftrightarrow>
       (\<exists>m. subscribes view m t) \<and> map_of tps t \<noteq> None"
    "t \<in> set (map fst (subscribers_per_topic subs tps)) \<Longrightarrow>
       \<exists>S. map_of (subscribers_per_topic subs tps) t = Some S \<and> S \<noteq> []
         \<and> (\<forall>m\<in>set S. subscribes view m t)"
proof -
  let ?idx = "subscribers_per_topic subs tps" and ?P = "topic_pairs subs tps"
  have idx: "index_of ?P ?idx" by (rule subscribers_index)
  have P: "(m, t) \<in> set ?P \<longleftrightarrow> subscribes view m t \<and> map_of tps t \<noteq> None" for m t
    using assms in_topic_pairs [of subs m t tps] by (simp add: index_ok_def)
  show d: "distinct (map fst ?idx)" using idx by (simp add: index_of_def btree_wf_def)
  have key: "t \<in> set (map fst ?idx) \<longleftrightarrow> map_of ?idx t \<noteq> None"
    by (simp add: map_of_eq_None_iff)
  have at: "case map_of ?idx t of None \<Rightarrow> t \<notin> snd ` set ?P
      | Some S \<Rightarrow> t \<in> snd ` set ?P \<and> set S = {m. (m, t) \<in> set ?P}"
    using idx by (simp add: index_of_def)
  then have "t \<in> set (map fst ?idx) \<longleftrightarrow> t \<in> snd ` set ?P"
    unfolding key by (simp split: option.splits)
  also have "\<dots> \<longleftrightarrow> (\<exists>m. (m, t) \<in> set ?P)" by force
  finally show iff: "t \<in> set (map fst ?idx) \<longleftrightarrow> (\<exists>m. subscribes view m t) \<and> map_of tps t \<noteq> None"
    by (simp add: P)
  assume "t \<in> set (map fst ?idx)"
  then obtain S where S: "map_of ?idx t = Some S" "\<exists>m. subscribes view m t" "map_of tps t \<noteq> None"
    using key iff by auto
  then have "set S = {m. subscribes view m t}" using at P by simp
  then show "\<exists>S. map_of ?idx t = Some S \<and> S \<noteq> [] \<and> (\<forall>m\<in>set S. subscribes view m t)"
    using S by (intro exI [of _ S]) auto
qed

lemma mset_sorted_partitions:
  "mset (sorted_partitions subs tps)
     = mset (partitions_of tps (map fst (subscribers_per_topic subs tps)))"
  by (simp add: sorted_partitions_def Let_def)

lemma place_all_ok:
  assumes ok: "index_ok view ids subs"
  shows "balance_ok view ids subs (mset (sorted_partitions subs tps)) (place_all ids subs prev tps)"
proof -
  let ?idx = "subscribers_per_topic subs tps" and ?L = "sorted_partitions subs tps"
  let ?e = "fold (\<lambda>i asg. btree_insert i [] asg) ids [] :: assignment"
  have d: "distinct (map fst ?e)" using empty_slots(1) [of ids] by (simp add: btree_wf_def)
  have keys: "fst ` set ?e = fst ` set view" using ok empty_slots(2) by (simp add: index_ok_def)
  have empty: "ps = []" if "(m, ps) \<in> set ?e" for m ps
    using that d empty_slots(3) [of ids m] by (simp add: slot_def)
  then have "held ?e = []" by (auto simp: held_def)
  moreover have "\<forall>(m, ps)\<in>set ?e. \<forall>tp\<in>set ps. subscribes view m (fst tp)" using empty by fastforce
  ultimately have start: "placed view {#} ?e" using d keys unfolding placed_def by simp
  have "\<exists>S. map_of ?idx (fst tp) = Some S \<and> S \<noteq> [] \<and> (\<forall>m\<in>set S. subscribes view m (fst tp))"
    if "tp \<in> set ?L" for tp
  proof -
    have "tp \<in> set (partitions_of tps (map fst ?idx))"
      using that mset_sorted_partitions mset_eq_setD by metis
    then have "(fst tp, snd tp) \<in> set (partitions_of tps (map fst ?idx))" by simp
    then have "fst tp \<in> set (map fst ?idx)" unfolding in_partitions_of by blast
    then show ?thesis by (rule subscriber_topics(3) [OF ok])
  qed
  from place_partitions_placed [OF empty_slots(1) start this]
  have "btree_wf (place_all ids subs prev tps)" "placed view (mset ?L) (place_all ids subs prev tps)"
    by (simp_all add: place_all_def)
  moreover have "count (mset ?L) tp \<le> 1" for tp
    unfolding mset_sorted_partitions
    by (intro distinct_count_le_one distinct_partitions_of subscriber_topics(1) [OF ok])
  ultimately show ?thesis
    using ok by (simp add: balance_ok_def index_ok_def placed_def)
qed

lemma general_assign_correct:
  fixes ids subs current tps view
  defines "prev \<equiv> previous_owner current"
  defines "limit \<equiv> max_balance_iters (length (sorted_partitions subs tps)) (length ids)"
  defines "out \<equiv> general_assign ids subs current tps"
  assumes ok: "index_ok view ids subs"
  shows "placed view (mset (sorted_partitions subs tps)) out"
    "\<exists>n asg. n \<le> limit \<and> (balance_move ids subs prev ^^ n) (place_all ids subs prev tps) asg
       \<and> out = map (\<lambda>(k, v). (k, sort v)) asg \<and> (n < limit \<longrightarrow> stable ids subs prev asg)
       \<and> balance_ok view ids subs (mset (sorted_partitions subs tps)) asg"
proof -
  let ?start = "place_all ids subs prev tps" and ?M = "mset (sorted_partitions subs tps)"
  let ?asg = "balance_loop ids subs prev limit 0 ?start"
  have start: "balance_ok view ids subs ?M ?start" by (rule place_all_ok [OF ok])
  obtain n where n: "n \<le> limit" "(balance_move ids subs prev ^^ n) ?start ?asg"
    "n < limit \<longrightarrow> stable ids subs prev ?asg"
    using balance_loop_moves [OF start, of 0 limit prev] by auto
  have fin: "balance_ok view ids subs ?M ?asg" using balance_moves_ok [OF n(2) start] by blast
  have out: "out = map (\<lambda>(k, v). (k, sort v)) ?asg"
    by (simp add: out_def general_assign_def balance_assignment_def prev_def limit_def Let_def)
  show "placed view ?M out"
    using placed_sorted [of view ?M ?asg] fin by (simp add: out balance_ok_def)
  show "\<exists>n asg. n \<le> limit \<and> (balance_move ids subs prev ^^ n) ?start asg
       \<and> out = map (\<lambda>(k, v). (k, sort v)) asg \<and> (n < limit \<longrightarrow> stable ids subs prev asg)
       \<and> balance_ok view ids subs ?M asg"
    using n fin out by blast
qed

section \<open>The sticky assignment of a group\<close>

lemma mset_held_slots:
  "distinct (map fst out) \<Longrightarrow> mset (held out) = (\<Sum>k\<in>fst ` set out. mset (slot out k))"
proof (induction out)
  case (Cons e out)
  obtain k ps where e: "e = (k, ps)" by (cases e)
  have k: "k \<notin> fst ` set out" using Cons.prems by (simp add: e)
  have "(\<Sum>i\<in>fst ` set out. mset (slot (e # out) i)) = (\<Sum>i\<in>fst ` set out. mset (slot out i))"
    using k by (intro sum.cong) (auto simp: slot_def e)
  moreover have "slot (e # out) k = ps" by (simp add: slot_def e)
  ultimately show ?case using Cons k by (simp add: held_def e)
qed (simp add: held_def)

lemma slot_of_ids: "i \<in> set ids \<Longrightarrow> slot (map (\<lambda>i. (i, f i)) ids) i = f i"
  by (simp add: slot_def map_of_map_restrict)

lemma placed_reslot:
  assumes "placed view M raw" "distinct ids" "set ids = fst ` set raw"
  shows "placed view M (map (\<lambda>i. (i, sort (slot raw i))) ids)"
proof (rule placed_by_slots [OF assms(1)])
  let ?out = "map (\<lambda>i. (i, sort (slot raw i))) ids"
  show d: "distinct (map fst ?out)" using assms(2) by (simp add: comp_def)
  show keys: "fst ` set ?out = fst ` set raw" using assms(3) by (simp add: image_image)
  have "mset (held ?out) = (\<Sum>k\<in>set ids. mset (slot ?out k))"
    using mset_held_slots [OF d] keys assms(3) by simp
  also have "\<dots> = (\<Sum>k\<in>set ids. mset (slot raw k))"
    by (intro sum.cong) (simp_all add: slot_of_ids)
  also have "\<dots> = mset (held raw)"
    using assms(1,3) mset_held_slots [of raw] by (simp add: placed_def)
  finally show "mset (held ?out) = M" using assms(1) by (simp add: placed_def)
  fix m tp assume tp: "tp \<in> set (slot ?out m)"
  have "m \<in> set ids"
  proof (rule ccontr)
    assume "m \<notin> set ids"
    then have "slot ?out m = []" using keys assms(3) by (intro slot_not_member) simp
    then show False using tp by simp
  qed
  then have "tp \<in> set (slot raw m)" using tp by (simp add: slot_of_ids)
  then show "subscribes view m (fst tp)" by (rule placed_slot [OF assms(1)])
qed

lemma group_index_ok:
  assumes "distinct (map fst members)"
  shows "index_ok (sticky_view members) (sort (map fst members)) (subs_of members)"
  using assms subs_of_facts [OF assms] by (simp add: index_ok_def fst_set_sticky_view)

text \<open>In a uniform group every member has the subscription that the algorithm takes from the first.\<close>

definition shared_topics :: "member_input list \<Rightarrow> string list" where
  "shared_topics members =
     (case map_of (subs_of members) (hd (sort (map fst members))) of None \<Rightarrow> [] | Some ts \<Rightarrow> ts)"

lemma all_equal_iff: "all_equal xs \<longleftrightarrow> (\<forall>x\<in>set xs. \<forall>y\<in>set xs. x = y)"
  by (cases xs) (simp_all add: all_equal_def list_all_iff, metis)

lemma hd_sort_in: "xs \<noteq> [] \<Longrightarrow> hd (sort xs) \<in> set xs"
  using hd_in_set [of "sort xs"] by (simp add: sort_key_Nil)

lemma key_map_of: "k \<in> fst ` set m \<Longrightarrow> \<exists>v. map_of m k = Some v"
  by (cases "map_of m k") (simp_all add: map_of_eq_None_iff)

lemma shared_subscription:
  assumes "distinct (map fst members)" "members \<noteq> []" "all_equal (map snd (subs_of members))"
    and "m \<in> fst ` set members"
  shows "map_of (subs_of members) m = Some (shared_topics members)" "distinct (shared_topics members)"
    "subscribes (sticky_view members) m t \<longleftrightarrow> t \<in> set (shared_topics members)"
proof -
  note facts = subs_of_facts [OF assms(1)]
  have keys: "fst ` set (subs_of members) = fst ` set members" unfolding facts(2) by force
  have "hd (sort (map fst members)) \<in> fst ` set members"
    using hd_sort_in [of "map fst members"] assms(2) by simp
  then obtain ts where ts: "map_of (subs_of members) (hd (sort (map fst members))) = Some ts"
    using keys key_map_of by metis
  then have sh: "shared_topics members = ts" by (simp add: shared_topics_def)
  obtain us where us: "map_of (subs_of members) m = Some us"
    using keys assms(4) key_map_of by metis
  have in_snd: "v \<in> set (map snd kvs)" if "map_of kvs k = Some v" for k v and kvs :: subs_index
    using map_of_SomeD [OF that] by force
  have "us = ts" using assms(3) in_snd [OF ts] in_snd [OF us] unfolding all_equal_iff by blast
  then show m: "map_of (subs_of members) m = Some (shared_topics members)" using us sh by simp
  show "distinct (shared_topics members)"
    using map_of_SomeD [OF us] facts(2) \<open>us = ts\<close> sh by auto
  show "subscribes (sticky_view members) m t \<longleftrightarrow> t \<in> set (shared_topics members)"
    using facts(3) [of m t] m by (simp add: in_subs_def)
qed

lemma current_owners_ok:
  assumes "distinct (map fst members)" "members \<noteq> []" "all_equal (map snd (subs_of members))"
  shows "owners_ok (prepopulate_current_assignments members (subs_of members) tps)
    (partitions_of tps (shared_topics members))"
proof -
  let ?cur = "prepopulate_current_assignments members (subs_of members) tps"
  have "tp \<in> set (partitions_of tps (shared_topics members))" if "tp \<in> set (slot ?cur m)" for tp m
  proof -
    obtain t p where tp: "tp = (t, p)" by (cases tp)
    have m: "m \<in> fst ` set members" using current_owner_live(2) [OF that] by force
    have "in_subs (subs_of members) m t" "\<exists>c. map_of tps t = Some c \<and> 0 \<le> p \<and> p < c"
      using current_owner_live(1) [OF that] by (simp_all add: tp live_claim_iff)
    then show ?thesis
      using shared_subscription(1) [OF assms m] by (simp add: tp in_partitions_of in_subs_def)
  qed
  then show ?thesis
    unfolding owners_ok_def using prepopulate_facts(4) current_owner_unique by blast
qed

lemma raw_uniform:
  fixes members tps
  assumes "distinct (map fst members)" "members \<noteq> []" "all_equal (map snd (subs_of members))"
  defines "cur \<equiv> prepopulate_current_assignments members (subs_of members) tps"
  defines "out \<equiv> constrained_assign (sort (map fst members)) (subs_of members) cur tps"
  defines "all \<equiv> partitions_of tps (shared_topics members)"
  shows "placed (sticky_view members) (mset all) out"
    "m \<in> fst ` set members \<Longrightarrow> length all div length members \<le> load out m"
    "m \<in> fst ` set members \<Longrightarrow> load out m \<le> div_ceil (length all) (length members)"
    "m \<in> fst ` set members \<Longrightarrow>
       set (take (length all div length members) (by_index cur m)) \<subseteq> set (slot out m)"
    "set (slot (cs_assignment (owned_pass (length all div length members)
         (div_ceil (length all) (length members)) (length all mod length members) cur
         (sort (map fst members)))) m) \<subseteq> set (slot out m)"
proof -
  let ?ids = "sort (map fst members)"
  have hd: "hd ?ids \<in> fst ` set members"
    using hd_sort_in [of "map fst members"] assms(2) by simp
  have sh: "(case map_of (subs_of members) (hd ?ids) of None \<Rightarrow> [] | Some ts \<Rightarrow> ts)
      = shared_topics members" by (simp add: shared_topics_def)
  have ids: "?ids \<noteq> []" "distinct ?ids" "fst ` set (sticky_view members) = set ?ids"
    using assms(1,2) by (simp_all add: sort_key_Nil fst_set_sticky_view)
  note own = current_owners_ok [OF assms(1-3), of tps]
  have "subscribes (sticky_view members) m t" if "m \<in> set ?ids" "t \<in> set (shared_topics members)" for m t
    using that shared_subscription(3) [OF assms(1-3)] by simp
  note main = constrained_assign_correct [OF ids, of "subs_of members", unfolded sh,
      OF shared_subscription(2) [OF assms(1-3) hd] own this, folded cur_def, folded out_def all_def]
  show "placed (sticky_view members) (mset all) out" by (rule main(1))
  show "m \<in> fst ` set members \<Longrightarrow> length all div length members \<le> load out m"
    "m \<in> fst ` set members \<Longrightarrow> load out m \<le> div_ceil (length all) (length members)"
    "m \<in> fst ` set members \<Longrightarrow>
       set (take (length all div length members) (by_index cur m)) \<subseteq> set (slot out m)"
    using main(2-4) [of m] by simp_all
  show "set (slot (cs_assignment (owned_pass (length all div length members)
         (div_ceil (length all) (length members)) (length all mod length members) cur ?ids)) m)
       \<subseteq> set (slot out m)"
    using main(5) [of m] by simp
qed

text \<open>Either algorithm places the partitions of the topics that have a subscriber.\<close>

definition raw_assignment :: "member_input list \<Rightarrow> topic_counts \<Rightarrow> assignment" where
  "raw_assignment members tps = snd (snd (sticky_assignment members tps))"

definition current_of :: "member_input list \<Rightarrow> topic_counts \<Rightarrow> assignment" where
  "current_of members tps = prepopulate_current_assignments members (subs_of members) tps"

lemma sticky_assignment_parts:
  "sticky_assignment members tps
     = (sort (map fst members), previous_owner (current_of members tps), raw_assignment members tps)"
  by (simp add: sticky_assignment_def raw_assignment_def current_of_def Let_def)

lemma raw_assignment_cases:
  "raw_assignment members tps =
     (if all_equal (map snd (subs_of members))
      then constrained_assign (sort (map fst members)) (subs_of members) (current_of members tps) tps
      else general_assign (sort (map fst members)) (subs_of members) (current_of members tps) tps)"
  by (simp add: sticky_assignment_def raw_assignment_def current_of_def Let_def)

lemma raw_placed:
  assumes "distinct (map fst members)" "members \<noteq> []"
  obtains ts where "distinct ts"
    "placed (sticky_view members) (mset (partitions_of tps ts)) (raw_assignment members tps)"
    "\<And>t c. map_of tps t = Some c \<Longrightarrow> t \<in> set ts \<longleftrightarrow> (\<exists>m. subscribes (sticky_view members) m t)"
proof (cases "all_equal (map snd (subs_of members))")
  case True
  obtain m0 where m0: "m0 \<in> fst ` set members" using assms(2) by (cases members) auto
  have "t \<in> set (shared_topics members) \<longleftrightarrow> (\<exists>m. subscribes (sticky_view members) m t)" for t
    using shared_subscription(3) [OF assms True] m0 subscribes_member fst_set_sticky_view by metis
  moreover have "placed (sticky_view members) (mset (partitions_of tps (shared_topics members)))
      (raw_assignment members tps)"
    using raw_uniform(1) [OF assms True, of tps] True by (simp add: raw_assignment_cases current_of_def)
  ultimately show thesis
    using that [OF shared_subscription(2) [OF assms True m0]] by blast
next
  case False
  note ok = group_index_ok [OF assms(1)]
  note st = subscriber_topics [OF ok, where tps = tps]
  have "placed (sticky_view members)
      (mset (partitions_of tps (map fst (subscribers_per_topic (subs_of members) tps))))
      (raw_assignment members tps)"
    using general_assign_correct(1) [OF ok, where tps = tps] False
    by (simp add: raw_assignment_cases mset_sorted_partitions)
  then show thesis
    using that [OF st(1)] st(2) by blast
qed

lemma raw_members:
  assumes "distinct (map fst members)" "members \<noteq> []"
  shows "distinct (map fst (raw_assignment members tps))"
    "fst ` set (raw_assignment members tps) = fst ` set members"
  using raw_placed [OF assms, of tps] fst_set_sticky_view unfolding placed_def by (metis, metis)

lemma assign_eager_slots:
  assumes "members \<noteq> []"
  shows "assign_eager members tps
    = map (\<lambda>i. (i, sort (slot (raw_assignment members tps) i))) (sort (map fst members))"
  using assms by (simp add: assign_eager_def sticky_assignment_parts)

lemma assign_eager_valid:
  assumes "distinct (map fst members)"
  shows "valid_assignment (sticky_view members) tps (assign_eager members tps)"
proof (cases "members = []")
  case True
  then show ?thesis
    by (simp add: valid_assignment_def assign_eager_def sticky_view_def held_def wanted_def)
next
  case False
  obtain ts where ts: "distinct ts"
    "placed (sticky_view members) (mset (partitions_of tps ts)) (raw_assignment members tps)"
    "\<And>t c. map_of tps t = Some c \<Longrightarrow> t \<in> set ts \<longleftrightarrow> (\<exists>m. subscribes (sticky_view members) m t)"
    using raw_placed [OF assms False] by blast
  have "placed (sticky_view members) (mset (partitions_of tps ts)) (assign_eager members tps)"
    unfolding assign_eager_slots [OF False] using assms raw_members(2) [OF assms False]
    by (intro placed_reslot [OF ts(2)]) simp_all
  then show ?thesis by (rule valid_of_partitions [OF _ ts(1) ts(3)])
qed

interpretation sticky_assignor: eager_assignor sticky_view assign_eager
  by unfold_locales (simp add: assign_eager_valid group_ok_def sticky_view_ids)

section \<open>The cooperative result\<close>

lemma previous_owner_current:
  "previous_owner (current_of members tps) tp = Some m \<longleftrightarrow> tp \<in> set (slot (current_of members tps) m)"
  unfolding current_of_def
  by (rule previous_owner_iff) (use prepopulate_facts(1) current_owner_unique in \<open>auto simp: btree_wf_def\<close>)

lemma slot_eager:
  assumes "m \<in> fst ` set members"
  shows "slot (assign_eager members tps) m = sort (slot (raw_assignment members tps) m)"
  using assms by (subst assign_eager_slots) (auto simp: slot_of_ids)

text \<open>The partitions of a slot that no other live member owned.\<close>

definition released :: "member_input list \<Rightarrow> topic_counts \<Rightarrow> string \<Rightarrow> topic_partition \<Rightarrow> bool" where
  "released members tps m tp \<longleftrightarrow>
     \<not> (case previous_owner (current_of members tps) tp of None \<Rightarrow> False | Some q \<Rightarrow> q \<noteq> m)"

lemma released_iff:
  "released members tps m tp \<longleftrightarrow> (\<forall>m'. tp \<in> set (slot (current_of members tps) m') \<longrightarrow> m' = m)"
  unfolding released_def previous_owner_current [symmetric] by (auto split: option.splits)

lemma cooperative_slots:
  assumes "members \<noteq> []"
  shows "cooperative_assign members tps
    = map (\<lambda>i. (i, sort (filter (released members tps i) (slot (raw_assignment members tps) i))))
        (sort (map fst members))"
  using assms by (simp add: cooperative_assign_def sticky_assignment_parts released_def [abs_def])

lemma slot_cooperative_filter:
  assumes "m \<in> fst ` set members"
  shows "slot (cooperative_assign members tps) m
    = sort (filter (released members tps m) (slot (raw_assignment members tps) m))"
  using assms by (subst cooperative_slots) (auto simp: slot_of_ids)

lemma slot_cooperative:
  assumes "m \<in> fst ` set members"
  shows "tp \<in> set (slot (cooperative_assign members tps) m) \<longleftrightarrow>
    tp \<in> set (slot (assign_eager members tps) m) \<and> released members tps m tp"
  using assms by (simp add: slot_cooperative_filter slot_eager)

lemma slot_cooperative_members:
  "m \<notin> fst ` set members \<Longrightarrow> slot (cooperative_assign members tps) m = []"
  by (cases "members = []")
    (auto simp: cooperative_assign_def sticky_assignment_parts slot_def
      split: option.splits dest!: map_of_SomeD)

section \<open>The second cooperative round\<close>

text \<open>
  When no member owns more than the maximum quota and no more members than allowed own it, the owned
  pass takes nothing away.
\<close>

lemma assign_owned_keeps:
  assumes "mq = q + (if 0 < r then 1 else 0)" "load current m \<le> mq" "q < load current m \<Longrightarrow> cs_over s < r"
  shows "owned_effect q r m (by_index current m) s (assign_owned q mq r current m s)
    \<or> \<not> cs_over s \<le> r"
proof -
  have len: "length (by_index current m) = load current m" by (simp add: by_index_def)
  consider "load current m < q" | "load current m = q" | "q < load current m" by linarith
  then show ?thesis
  proof cases
    case 1
    then show ?thesis
      using assms by (auto simp: owned_effect_def assign_owned_def by_index_def [symmetric] len Let_def)
  next
    case 2
    then show ?thesis
      using assms len by (auto simp: owned_effect_def assign_owned_def by_index_def [symmetric] Let_def)
  next
    case 3
    then show ?thesis
      using assms len by (auto simp: owned_effect_def assign_owned_def by_index_def [symmetric] Let_def)
  qed
qed

definition big :: "nat \<Rightarrow> assignment \<Rightarrow> string list \<Rightarrow> nat" where
  "big q current ms = length (filter (\<lambda>m. q < load current m) ms)"

lemma owned_pass_keeps:
  assumes "distinct ids" and mq: "mq = q + (if 0 < r then 1 else 0)"
    and le: "\<And>m. m \<in> set ids \<Longrightarrow> load current m \<le> mq" and few: "big q current ids \<le> r"
    and "m \<in> set ids"
  shows "slot (cs_assignment (owned_pass q mq r current ids)) m = by_index current m"
proof -
  have "pass_slots q current ids (done @ rest) (fold (assign_owned q mq r current) rest s)
      \<and> (\<forall>m\<in>set (done @ rest). slot (cs_assignment (fold (assign_owned q mq r current) rest s)) m
           = by_index current m)"
    if "pass_slots q current ids done s" "cs_over s = big q current done"
      "\<forall>m\<in>set done. slot (cs_assignment s) m = by_index current m"
      "distinct (done @ rest)" "set (done @ rest) \<subseteq> set ids" "big q current (done @ rest) \<le> r" for "done" rest s
    using that
  proof (induction rest arbitrary: "done" s)
    case (Cons m rest)
    let ?s' = "assign_owned q mq r current m s"
    have m: "m \<in> set ids" "m \<notin> set done" using Cons.prems(4,5) by auto
    have over: "q < load current m \<Longrightarrow> cs_over s < r" "cs_over s \<le> r"
      using Cons.prems(2,6) by (auto simp: big_def)
    have eff: "owned_effect q r m (by_index current m) s ?s'"
      using assign_owned_keeps [OF mq le [OF m(1)] over(1)] over(2) by blast
    have k: "by_index current m = take (load current m) (by_index current m)" by (simp add: by_index_def)
    have "pass_slots q current ids (done @ [m]) ?s'"
      using pass_slots_step [of q r m "load current m" current s ?s' ids "done"] eff k m Cons.prems(1)
      by (simp add: by_index_def)
    moreover have "cs_over ?s' = big q current (done @ [m])"
      using eff Cons.prems(2) by (simp add: owned_effect_def big_def by_index_def)
    moreover have "\<forall>n\<in>set (done @ [m]). slot (cs_assignment ?s') n = by_index current n"
      using owned_effect_slot(1) [OF eff Cons.prems(1) m] Cons.prems(3) by simp
    ultimately show ?case
      using Cons.IH [of "done @ [m]" ?s'] Cons.prems(4-6) by simp
  qed simp
  moreover have "slot (map (\<lambda>i. (i, [])) ids) m = []" for m
    by (auto simp: slot_def split: option.splits dest!: map_of_SomeD)
  then have "pass_slots q current ids [] \<lparr>cs_over = 0, cs_assignment = map (\<lambda>i. (i, [])) ids,
      cs_assigned = {}, cs_under = [], cs_exact = []\<rparr>"
    by (simp add: pass_slots_def comp_def)
  ultimately show ?thesis
    using assms(1,4,5) unfolding owned_pass_def by (metis append_Nil big_def constrained.select_convs(1)
        empty_iff filter.simps(1) list.set(1) list.size(3) order_refl)
qed

text \<open>Between the quotas, exactly \<open>c mod n\<close> members hold one partition more than the minimum.\<close>

lemma big_of_quotas:
  assumes "distinct ms" "\<And>m. m \<in> set ms \<Longrightarrow> q \<le> load out m \<and> load out m \<le> q + 1"
    and "sum_list (map (load out) ms) = length ms * q + r"
  shows "big q out ms = r"
proof -
  have "sum_list (map (load out) ms) = length ms * q + big q out ms"
    using assms(2)
  proof (induction ms)
    case (Cons m ms)
    have m: "q \<le> load out m" "load out m \<le> q + 1" using Cons.prems by simp_all
    have IH: "sum_list (map (load out) ms) = length ms * q + big q out ms"
      using Cons.prems by (intro Cons.IH) simp
    show ?case
    proof (cases "q < load out m")
      case True
      then have "load out m = q + 1" using m by simp
      then show ?thesis using IH by (simp add: big_def)
    next
      case False
      then have "load out m = q" using m by simp
      then show ?thesis using IH by (simp add: big_def)
    qed
  qed (simp add: big_def)
  then show ?thesis using assms(3) by simp
qed

lemma big_mono: "(\<And>m. m \<in> set ms \<Longrightarrow> load a m \<le> load b m) \<Longrightarrow> big q a ms \<le> big q b ms"
  unfolding big_def
proof (induction ms)
  case (Cons m ms)
  then have "load a m \<le> load b m" "length (filter (\<lambda>m. q < load a m) ms) \<le> length (filter (\<lambda>m. q < load b m) ms)"
    by auto
  then show ?case by auto
qed simp

text \<open>
  The next join after a cooperative round: every member kept what it was assigned and reports it
  with the new generation.
\<close>

definition next_round :: "assignment \<Rightarrow> int \<Rightarrow> member_input list \<Rightarrow> member_input list" where
  "next_round out g members = map (\<lambda>(mid, ts, _, _). (mid, ts, slot out mid, g)) members"

lemma next_round_same:
  "map fst (next_round out g members) = map fst members"
  "sticky_view (next_round out g members) = sticky_view members"
  "subs_of (next_round out g members) = subs_of members"
  "length (next_round out g members) = length members"
  by (auto simp: next_round_def sticky_view_def subs_of_def comp_def case_prod_unfold)

lemma shared_next_round: "shared_topics (next_round out g members) = shared_topics members"
  by (simp only: shared_topics_def next_round_same)

lemma concat_if_filter: "concat (map (\<lambda>x. if P x then [h x] else []) xs) = map h (filter P xs)"
  by (induction xs) simp_all

lemma filter_unique:
  assumes "distinct xs" "x \<in> set xs" "P x" "\<forall>y\<in>set xs. P y \<longrightarrow> y = x"
  shows "filter P xs = [x]"
proof -
  obtain ys zs where xs: "xs = ys @ x # zs" using split_list [OF assms(2)] by blast
  have "x \<notin> set ys" "x \<notin> set zs" using assms(1) by (simp_all add: xs)
  then have "filter P ys = []" "filter P zs = []"
    using assms(4) unfolding xs filter_empty_conv by fastforce+
  then show ?thesis using assms(3) by (simp add: xs)
qed

lemma filter_eq_one: "distinct xs \<Longrightarrow> filter (\<lambda>y. y = x) xs = (if x \<in> set xs then [x] else [])"
  by (induction xs) auto

text \<open>The claims of a next round on one partition: those of its members, in order.\<close>

lemma claims_next_round:
  assumes "\<And>m. distinct (slot out m)"
  shows "claims_on (live_claims subs tps (next_round out g members)) tp
    = map (\<lambda>m. (g, m)) (filter (\<lambda>m. tp \<in> set (slot out m) \<and> live_claim subs tps m tp) (map fst members))"
proof (induction members)
  case (Cons e members)
  obtain mid ts ow g0 where e: "e = (mid, ts, ow, g0)" by (cases e)
  have "filter (\<lambda>c. fst c = tp) (map (\<lambda>tp. (tp, g, mid)) (filter (live_claim subs tps mid) (slot out mid)))
      = map (\<lambda>tp. (tp, g, mid)) (filter (\<lambda>y. y = tp) (filter (live_claim subs tps mid) (slot out mid)))"
    by (simp add: filter_map comp_def)
  also have "\<dots> = (if tp \<in> set (slot out mid) \<and> live_claim subs tps mid tp then [(tp, g, mid)] else [])"
    using filter_eq_one [of "filter (live_claim subs tps mid) (slot out mid)" tp] assms by simp
  finally show ?case
    using Cons by (simp add: e next_round_def live_claims_def claims_on_def)
qed (simp add: next_round_def live_claims_def claims_on_def)

lemma current_next_round:
  assumes d: "distinct (map fst members)" and ds: "\<And>m. distinct (slot out m)"
    and uniq: "\<And>m m' tp. tp \<in> set (slot out m) \<Longrightarrow> tp \<in> set (slot out m') \<Longrightarrow> m = m'"
    and live: "\<And>m tp. tp \<in> set (slot out m) \<Longrightarrow> m \<in> fst ` set members \<and> live_claim (subs_of members) tps m tp"
  shows "tp \<in> set (slot (current_of (next_round out g members) tps) m) \<longleftrightarrow> tp \<in> set (slot out m)"
proof -
  let ?cs = "claims_on (live_claims (subs_of members) tps (next_round out g members)) tp"
  let ?F = "filter (\<lambda>m. tp \<in> set (slot out m) \<and> live_claim (subs_of members) tps m tp) (map fst members)"
  have cs: "?cs = map (\<lambda>m. (g, m)) ?F" by (rule claims_next_round [OF ds])
  have "sole_highest ?cs m \<longleftrightarrow> tp \<in> set (slot out m)"
  proof
    assume "sole_highest ?cs m"
    then obtain g' where "(g', m) \<in> set ?cs" by (rule sole_highest_in)
    then show "tp \<in> set (slot out m)" unfolding cs by auto
  next
    assume tp: "tp \<in> set (slot out m)"
    have "m \<in> set (map fst members)" "tp \<in> set (slot out m) \<and> live_claim (subs_of members) tps m tp"
      using live [OF tp] tp by simp_all
    moreover have "\<forall>y\<in>set (map fst members).
        tp \<in> set (slot out y) \<and> live_claim (subs_of members) tps y tp \<longrightarrow> y = m"
      using uniq [OF _ tp] by blast
    ultimately have "?F = [m]" by (rule filter_unique [OF d])
    then show "sole_highest ?cs m" by (simp add: cs sole_highest_def)
  qed
  then show ?thesis
    unfolding current_of_def next_round_same(3) by (simp only: prepopulate_facts(3))
qed

lemma distinct_slot: "distinct (held out) \<Longrightarrow> distinct (slot out m)"
  by (induction out) (auto simp: held_def slot_def)

text \<open>What a cooperative round leaves: part of the eager assignment.\<close>

lemma cooperative_slot_facts:
  fixes members tps
  assumes d: "distinct (map fst members)"
  defines "out \<equiv> cooperative_assign members tps"
  shows "distinct (slot out m)"
    "tp \<in> set (slot out m) \<Longrightarrow> tp \<in> set (slot out m') \<Longrightarrow> m = m'"
    "tp \<in> set (slot out m) \<Longrightarrow> m \<in> fst ` set members \<and> live_claim (subs_of members) tps m tp"
    "m \<in> fst ` set members \<Longrightarrow> load out m \<le> load (raw_assignment members tps) m"
proof -
  let ?e = "assign_eager members tps"
  have v: "distinct (map fst ?e)" "distinct (held ?e)" "\<And>tp. tp \<in> set (held ?e) \<longleftrightarrow> wanted (sticky_view members) tps tp"
    "\<forall>(m, ps)\<in>set ?e. \<forall>tp\<in>set ps. subscribes (sticky_view members) m (fst tp)"
    using assign_eager_valid [OF d, of tps] unfolding valid_assignment_def by blast+
  have mem: "m \<in> fst ` set members" if "tp \<in> set (slot out m)" for m tp
    using that slot_cooperative_members [of m members tps] unfolding out_def by (metis empty_iff list.set(1))
  have sub: "tp \<in> set (slot ?e m)" if "tp \<in> set (slot out m)" for m tp
    using that slot_cooperative [OF mem [OF that]] unfolding out_def by blast
  show "tp \<in> set (slot out m) \<Longrightarrow> tp \<in> set (slot out m') \<Longrightarrow> m = m'"
    using sub slot_unique [OF v(1,2)] by blast
  show "tp \<in> set (slot out m) \<Longrightarrow> m \<in> fst ` set members \<and> live_claim (subs_of members) tps m tp"
  proof -
    assume tp: "tp \<in> set (slot out m)"
    obtain t p where eq: "tp = (t, p)" by (cases tp)
    obtain ps where "(m, ps) \<in> set ?e" "tp \<in> set ps" using sub [OF tp] in_slot [OF v(1)] by blast
    then have "subscribes (sticky_view members) m t" using v(4) eq by fastforce
    moreover have "wanted (sticky_view members) tps tp" using v(3) in_held [OF v(1)] sub [OF tp] by blast
    ultimately show ?thesis
      using mem [OF tp] subs_of_facts(3) [OF d] by (simp add: eq live_claim_iff wanted_iff)
  qed
  have eq: "slot out m = sort (filter (released members tps m) (slot (raw_assignment members tps) m))"
    if "m \<in> fst ` set members" for m
    unfolding out_def by (rule slot_cooperative_filter [OF that])
  show "m \<in> fst ` set members \<Longrightarrow> load out m \<le> load (raw_assignment members tps) m"
    by (simp add: eq)
  have raw: "distinct (slot (raw_assignment members tps) m)" if "m \<in> fst ` set members" for m
    using distinct_slot [OF v(2), of m] slot_eager [OF that, of tps] by simp
  show "distinct (slot out m)"
    using raw [of m] eq [of m] slot_cooperative_members [of m members tps] unfolding out_def
    by (cases "m \<in> fst ` set members") simp_all
qed

lemma raw_loads:
  assumes "distinct (map fst members)" "members \<noteq> []" "all_equal (map snd (subs_of members))"
  shows "big (length (partitions_of tps (shared_topics members)) div length members)
      (raw_assignment members tps) (sort (map fst members))
    = length (partitions_of tps (shared_topics members)) mod length members"
proof -
  let ?all = "partitions_of tps (shared_topics members)" and ?raw = "raw_assignment members tps"
  let ?ids = "sort (map fst members)" and ?n = "length members"
  have raw: "?raw = constrained_assign ?ids (subs_of members) (current_of members tps) tps"
    using assms(3) by (simp add: raw_assignment_cases)
  note u = raw_uniform [OF assms, where tps = tps, folded current_of_def, folded raw]
  have d: "distinct (map fst ?raw)" "fst ` set ?raw = set ?ids"
    using raw_members [OF assms(1,2), of tps] by simp_all
  have "mset (held ?raw) = mset ?all" using u(1) by (simp add: placed_def)
  then have "length (held ?raw) = length ?all" by (metis size_mset)
  moreover have "sum_list (map (load ?raw) (map fst ?raw)) = sum_list (map (load ?raw) ?ids)"
  proof -
    have "mset (map fst ?raw) = mset ?ids"
      using d assms(1) by (intro set_eq_iff_mset_eq_distinct [THEN iffD1]) simp_all
    then have "mset (map (load ?raw) (map fst ?raw)) = mset (map (load ?raw) ?ids)"
      by (simp only: mset_map)
    then show ?thesis by (metis sum_mset_sum_list)
  qed
  ultimately have sum: "sum_list (map (load ?raw) ?ids) = length ?ids * (length ?all div ?n) + length ?all mod ?n"
    using length_held [OF d(1)] by simp
  show ?thesis
  proof (rule big_of_quotas [OF _ _ sum])
    show "distinct ?ids" using assms(1) by simp
    show "length ?all div ?n \<le> load ?raw m \<and> load ?raw m \<le> length ?all div ?n + 1" if "m \<in> set ?ids" for m
      using u(2,3) [of m] that by (auto simp: div_ceil_def split: if_splits)
  qed
qed

lemma same_load:
  "distinct xs \<Longrightarrow> distinct ys \<Longrightarrow> (\<And>x. x \<in> set xs \<longleftrightarrow> x \<in> set ys) \<Longrightarrow> length xs = length ys"
  by (metis distinct_card set_eqI)

lemma second_round_keeps:
  fixes members tps g
  assumes d: "distinct (map fst members)" and ne: "members \<noteq> []"
    and eq: "all_equal (map snd (subs_of members))"
  defines "out \<equiv> cooperative_assign members tps"
  defines "again \<equiv> next_round out g members"
  assumes m: "m \<in> fst ` set members"
  shows "set (slot out m) \<subseteq> set (slot (raw_assignment again tps) m)"
proof -
  let ?all = "partitions_of tps (shared_topics members)" and ?n = "length members"
  let ?q = "length ?all div ?n" and ?r = "length ?all mod ?n" and ?mq = "div_ceil (length ?all) ?n"
  let ?ids = "sort (map fst members)" and ?cur = "current_of again tps"
  note out = cooperative_slot_facts [OF d, where tps = tps, folded out_def]
  have cur: "tp \<in> set (slot ?cur k) \<longleftrightarrow> tp \<in> set (slot out k)" for tp k
    unfolding again_def by (rule current_next_round [OF d out(1) out(2) out(3)])
  have "distinct (slot ?cur k)" for k unfolding current_of_def by (rule prepopulate_facts(4))
  then have ld: "load ?cur k = load out k" for k by (rule same_load [OF _ out(1) cur])
  note u = raw_uniform(3) [OF d ne eq, where tps = tps, folded current_of_def]
  have raw: "raw_assignment members tps
      = constrained_assign ?ids (subs_of members) (current_of members tps) tps"
    using eq by (simp add: raw_assignment_cases)
  have le: "load ?cur k \<le> ?mq" if "k \<in> set ?ids" for k
    using out(4) [of k] u [of k] that unfolding raw [symmetric] by (simp add: ld)
  have "big ?q ?cur ?ids \<le> big ?q (raw_assignment members tps) ?ids"
    using out(4) by (intro big_mono) (simp add: ld)
  then have few: "big ?q ?cur ?ids \<le> ?r" using raw_loads [OF d ne eq, where tps = tps] by simp
  have mq: "?mq = ?q + (if 0 < ?r then 1 else 0)" by (simp add: div_ceil_def)
  have "slot (cs_assignment (owned_pass ?q ?mq ?r ?cur ?ids)) m = by_index ?cur m"
    using d m by (intro owned_pass_keeps [OF _ mq le few]) simp_all
  moreover have "set (slot (cs_assignment (owned_pass ?q ?mq ?r ?cur ?ids)) m)
      \<subseteq> set (slot (raw_assignment again tps) m)"
  proof -
    have same: "map fst again = map fst members" "subs_of again = subs_of members"
      "length again = ?n" "shared_topics again = shared_topics members"
      by (simp_all only: again_def next_round_same shared_next_round)
    have "again \<noteq> []" using ne same(3) by auto
    moreover have "raw_assignment again tps = constrained_assign ?ids (subs_of members) ?cur tps"
      using eq by (simp add: raw_assignment_cases same)
    ultimately show ?thesis
      using raw_uniform(5) [where members = again and tps = tps and m = m, folded current_of_def] d eq by (simp only: same) simp
  qed
  ultimately have "set (by_index ?cur m) \<subseteq> set (slot (raw_assignment again tps) m)" by simp
  then show ?thesis using cur by (auto simp: by_index_def)
qed

lemma second_round_complete:
  fixes members tps g
  assumes d: "distinct (map fst members)" and eq: "all_equal (map snd (subs_of members))"
  defines "out \<equiv> cooperative_assign members tps"
  defines "again \<equiv> next_round out g members"
  shows "valid_assignment (sticky_view members) tps (cooperative_assign again tps)"
    "set (slot out m) \<subseteq> set (slot (cooperative_assign again tps) m)"
proof -
  have same: "map fst again = map fst members" "sticky_view again = sticky_view members"
    by (simp_all only: again_def next_round_same)
  have d': "distinct (map fst again)" using d same by simp
  have fst_again: "fst ` set again = fst ` set members" using same(1) by (metis list.set_map)
  note outf = cooperative_slot_facts [OF d, where tps = tps, folded out_def]
  have cur: "tp \<in> set (slot (current_of again tps) k) \<longleftrightarrow> tp \<in> set (slot out k)" for tp k
    unfolding again_def by (rule current_next_round [OF d outf(1) outf(2) outf(3)])
  have mem: "k \<in> fst ` set again" if "tp \<in> set (slot out k)" for tp k
    using outf(3) [OF that] fst_again by simp
  have keep: "tp \<in> set (slot (assign_eager again tps) k)" if "tp \<in> set (slot out k)" for tp k
  proof -
    have k: "k \<in> fst ` set members" "members \<noteq> []" using mem [OF that] fst_again by auto
    have "tp \<in> set (slot (raw_assignment again tps) k)"
      using second_round_keeps [OF d k(2) eq k(1), where tps = tps and g = g] that unfolding out_def again_def by blast
    then show ?thesis using slot_eager [OF mem [OF that], of tps] by simp
  qed
  have v: "valid_assignment (sticky_view members) tps (assign_eager again tps)"
    using assign_eager_valid [OF d', of tps] by (simp only: same)
  have slots: "tp \<in> set (slot (cooperative_assign again tps) k) \<longleftrightarrow> tp \<in> set (slot (assign_eager again tps) k)"
    if "k \<in> fst ` set again" for tp k
    unfolding slot_cooperative [OF that] released_iff cur
    using keep v slot_unique unfolding valid_assignment_def by metis
  show "set (slot out m) \<subseteq> set (slot (cooperative_assign again tps) m)"
    using keep mem slots by blast
  have "cooperative_assign again tps = assign_eager again tps"
  proof (cases "again = []")
    case False
    have "filter (released again tps i) (slot (raw_assignment again tps) i) = slot (raw_assignment again tps) i"
      if "i \<in> set (sort (map fst again))" for i
    proof (rule filter_True, rule ballI)
      fix tp assume "tp \<in> set (slot (raw_assignment again tps) i)"
      moreover have i: "i \<in> fst ` set again" using that by simp
      ultimately have "tp \<in> set (slot (cooperative_assign again tps) i)"
        unfolding slots [OF i] by (simp add: slot_eager [OF i])
      then show "released again tps i tp" unfolding slot_cooperative [OF i] by blast
    qed
    then show ?thesis
      unfolding cooperative_slots [OF False] assign_eager_slots [OF False] by (intro map_cong) simp_all
  qed (simp add: cooperative_assign_def assign_eager_def)
  then show "valid_assignment (sticky_view members) tps (cooperative_assign again tps)" using v by simp
qed

end
