(* ===== verification/Assignor_Claims.thy ===== *)
theory Assignor_Claims
  imports Assignor_Group
begin

text \<open>
  The properties of the partition assignors, from the contract of the eager ones to the two rounds
  of the cooperative one.
\<close>

definition members_of :: "group_member list \<Rightarrow> group_view" where
  "members_of members = map (\<lambda>m. (mk_member_id (gm_key m), ds_topics (gm_subscription m))) members"

lemma members_of_views:
  "member_view (map (\<lambda>m. (gm_key m, ds_topics (gm_subscription m))) members) = members_of members"
  "sticky_view (map sticky_input members) = members_of members"
  by (simp_all add: member_view_def sticky_view_def members_of_def sticky_input_def Let_def
      case_prod_unfold)

text \<open>
  C5. The eager assignors of \<open>assignor::assign\<close> (range, round robin and sticky) hand out every
  partition exactly once: a partition has one owner exactly when some member subscribes to its topic
  and the cluster has it, nothing else is assigned, and every owner subscribes to the topic.
\<close>

theorem eager_assignment_exactly_once:
  assumes "group_ok (members_of members) tps" "assignor \<noteq> CooperativeSticky"
  shows "((\<exists>!m. tp \<in> set (slot (assign assignor members tps) m)) \<longleftrightarrow> wanted (members_of members) tps tp)
    \<and> ((\<exists>m. tp \<in> set (slot (assign assignor members tps) m)) \<longleftrightarrow> wanted (members_of members) tps tp)
    \<and> (tp \<in> set (slot (assign assignor members tps) m) \<longrightarrow> subscribes (members_of members) m (fst tp))"
proof (cases assignor)
  case Range
  let ?ms = "map (\<lambda>m. (gm_key m, ds_topics (gm_subscription m))) members"
  have ok: "group_ok (member_view ?ms) tps" using assms(1) by (simp only: members_of_views)
  show ?thesis
    using range_assignor.owner_iff [OF ok, of tp] range_assignor.exactly_one_owner [OF ok, of tp]
      range_assignor.owner_subscribes [OF ok, of tp m]
    unfolding members_of_views by (auto simp: Range assign_def)
next
  case RoundRobin
  let ?ms = "map (\<lambda>m. (gm_key m, ds_topics (gm_subscription m))) members"
  have ok: "group_ok (member_view ?ms) tps" using assms(1) by (simp only: members_of_views)
  show ?thesis
    using round_robin_assignor.owner_iff [OF ok, of tp] round_robin_assignor.exactly_one_owner [OF ok, of tp]
      round_robin_assignor.owner_subscribes [OF ok, of tp m]
    unfolding members_of_views by (auto simp: RoundRobin assign_def)
next
  case Sticky
  have ok: "group_ok (sticky_view (map sticky_input members)) tps"
    using assms(1) by (simp only: members_of_views)
  show ?thesis
    using sticky_assignor.owner_iff [OF ok, of tp] sticky_assignor.exactly_one_owner [OF ok, of tp]
      sticky_assignor.owner_subscribes [OF ok, of tp m]
    unfolding members_of_views by (auto simp: Sticky assign_def)
next
  case CooperativeSticky
  then show ?thesis using assms(2) by simp
qed

text \<open>Two members with one topic, the second of them static.\<close>

definition group_example :: "group_member list" where
  "group_example =
     [\<lparr>gm_key = \<lparr>mk_member_id = ''a'', mk_group_instance_id = None\<rparr>,
       gm_subscription = \<lparr>ds_topics = [''t''], ds_owned = [], ds_generation_id = 3,
         ds_rack_id = None, ds_user_data = None\<rparr>\<rparr>,
      \<lparr>gm_key = \<lparr>mk_member_id = ''z'', mk_group_instance_id = Some ''i''\<rparr>,
       gm_subscription = \<lparr>ds_topics = [''t''], ds_owned = [(''t'', 0), (''t'', 2)],
         ds_generation_id = 3, ds_rack_id = None, ds_user_data = None\<rparr>\<rparr>]"

theorem eager_assignment_exactly_once_witness:
  "(\<exists>!m. (''t'', 2) \<in> set (slot (assign RoundRobin group_example [(''t'', 3)]) m))"
proof -
  have "group_ok (members_of group_example) [(''t'', 3)]"
    by (simp add: group_ok_def members_of_def group_example_def)
  from eager_assignment_exactly_once [OF this, of RoundRobin "(''t'', 2)" "''a''"] show ?thesis
    by (simp add: wanted_def members_of_def group_example_def)
qed

text \<open>
  C6. In a cooperative round no partition changes hands while a live member still owns it: what the
  round gives to a member is part of the eager sticky assignment, nobody else holds the live claim on
  it, no two members get it, and a partition of the eager assignment is held back only because
  another live member still owns it.
\<close>

theorem cooperative_round_never_double_owns:
  assumes "distinct (map fst members)"
  shows "(tp \<in> set (slot (cooperative_assign members tps) m) \<longrightarrow>
      tp \<in> set (slot (assign_eager members tps) m)
      \<and> (\<forall>m'. tp \<in> set (slot (current_of members tps) m') \<longrightarrow> m' = m)
      \<and> (\<forall>m'. tp \<in> set (slot (cooperative_assign members tps) m') \<longrightarrow> m' = m))
    \<and> (tp \<in> set (slot (assign_eager members tps) m) \<longrightarrow>
      tp \<in> set (slot (cooperative_assign members tps) m)
      \<or> (\<exists>m'. m' \<noteq> m \<and> m' \<in> fst ` set members \<and> tp \<in> set (slot (current_of members tps) m')))"
proof (intro conjI impI)
  note facts = cooperative_slot_facts [OF assms, where tps = tps]
  assume tp: "tp \<in> set (slot (cooperative_assign members tps) m)"
  then have m: "m \<in> fst ` set members" using facts(3) by blast
  show "tp \<in> set (slot (assign_eager members tps) m)"
    "\<forall>m'. tp \<in> set (slot (current_of members tps) m') \<longrightarrow> m' = m"
    using tp unfolding slot_cooperative [OF m] released_iff by blast+
  show "\<forall>m'. tp \<in> set (slot (cooperative_assign members tps) m') \<longrightarrow> m' = m"
    using facts(2) tp by blast
next
  assume tp: "tp \<in> set (slot (assign_eager members tps) m)"
  then have m: "m \<in> fst ` set members"
    using slot_not_member [of m "assign_eager members tps"] assign_eager_valid [OF assms, of tps]
    unfolding valid_assignment_def fst_set_sticky_view by (metis empty_iff list.set(1))
  show "tp \<in> set (slot (cooperative_assign members tps) m)
      \<or> (\<exists>m'. m' \<noteq> m \<and> m' \<in> fst ` set members \<and> tp \<in> set (slot (current_of members tps) m'))"
  proof (cases "released members tps m tp")
    case True
    then show ?thesis using tp slot_cooperative [OF m] by blast
  next
    case False
    then obtain m' where m': "m' \<noteq> m" "tp \<in> set (slot (current_of members tps) m')"
      unfolding released_iff by blast
    moreover have "m' \<in> fst ` set members"
      using current_owner_live(2) [OF m'(2) [unfolded current_of_def]] by force
    ultimately show ?thesis by blast
  qed
qed

text \<open>A group in which \<open>b\<close> joins and \<open>a\<close> owns every partition.\<close>

definition join_example :: "member_input list" where
  "join_example = [(''a'', [''t''], [(''t'', 0), (''t'', 1)], 4), (''b'', [''t''], [], -1)]"

theorem cooperative_round_never_double_owns_witness:
  "distinct (map fst join_example)
   \<and> (''t'', 0) \<in> set (slot (assign_eager join_example [(''t'', 2)]) ''a'')
   \<and> (\<exists>m'. m' \<noteq> ''b'' \<and> (''t'', 1) \<in> set (slot (current_of join_example [(''t'', 2)]) m'))"
proof -
  have d: "distinct (map fst join_example)" by (simp add: join_example_def)
  have a: "(''t'', 0) \<in> set (slot (cooperative_assign join_example [(''t'', 2)]) ''a'')"
    and b: "(''t'', 1) \<in> set (slot (assign_eager join_example [(''t'', 2)]) ''b'')"
    and c: "(''t'', 1) \<notin> set (slot (cooperative_assign join_example [(''t'', 2)]) ''b'')"
    by code_simp+
  show ?thesis
    using d a b c cooperative_round_never_double_owns [OF d, of "(''t'', 0)" "[(''t'', 2)]" "''a''"]
      cooperative_round_never_double_owns [OF d, of "(''t'', 1)" "[(''t'', 2)]" "''b''"] by blast
qed

text \<open>
  C7. In a group with one common subscription the cooperative protocol needs two rounds: when the
  members join again with what the first round gave them, the second round assigns every wanted
  partition exactly once and takes nothing away.
\<close>

theorem cooperative_second_round_completes:
  assumes "distinct (map fst members)" "all_equal (map snd (subs_of members))"
  shows "valid_assignment (sticky_view members) tps
      (cooperative_assign (next_round (cooperative_assign members tps) g members) tps)
    \<and> set (slot (cooperative_assign members tps) m)
        \<subseteq> set (slot (cooperative_assign (next_round (cooperative_assign members tps) g members) tps) m)"
  using second_round_complete [OF assms] by blast

theorem cooperative_second_round_completes_witness:
  "distinct (map fst join_example) \<and> all_equal (map snd (subs_of join_example))
   \<and> valid_assignment (sticky_view join_example) [(''t'', 2)]
      (cooperative_assign (next_round (cooperative_assign join_example [(''t'', 2)]) 5 join_example)
        [(''t'', 2)])"
proof -
  have d: "distinct (map fst join_example)" by (simp add: join_example_def)
  have e: "all_equal (map snd (subs_of join_example))" by code_simp
  from cooperative_second_round_completes [OF d e] d e show ?thesis by blast
qed

text \<open>
  C8. In a group with one common subscription the sticky assignment is balanced: with \<open>c\<close> partitions
  and \<open>n\<close> members everyone gets at least the floor and at most the ceiling of \<open>c / n\<close>.  So the
  branch of \<open>constrained_assign\<close> for an empty queue of members is never taken.
\<close>

theorem sticky_uniform_balanced:
  assumes "distinct (map fst members)" "all_equal (map snd (subs_of members))" "m \<in> fst ` set members"
  shows "length (partitions_of tps (shared_topics members)) div length members
      \<le> length (slot (assign_eager members tps) m)
    \<and> length (slot (assign_eager members tps) m)
      \<le> div_ceil (length (partitions_of tps (shared_topics members))) (length members)"
proof -
  have ne: "members \<noteq> []" using assms(3) by auto
  have "raw_assignment members tps
      = constrained_assign (sort (map fst members)) (subs_of members) (current_of members tps) tps"
    using assms(2) by (simp add: raw_assignment_cases)
  then show ?thesis
    using raw_uniform(2,3) [OF assms(1) ne assms(2,3), where tps = tps]
    unfolding slot_eager [OF assms(3)] current_of_def by simp
qed

theorem sticky_uniform_balanced_witness:
  "all_equal (map snd (subs_of join_example))
   \<and> length (partitions_of [(''t'', 2)] (shared_topics join_example)) div length join_example
      \<le> length (slot (assign_eager join_example [(''t'', 2)]) ''b'')"
proof -
  have e: "all_equal (map snd (subs_of join_example))" by code_simp
  have "distinct (map fst join_example)" "''b'' \<in> fst ` set join_example"
    by (simp_all add: join_example_def)
  from sticky_uniform_balanced [OF this(1) e this(2)] e show ?thesis by blast
qed

text \<open>
  C29. The sticky assignment of such a group is sticky: of the partitions that a member still owns, in
  the order of their partition index, it keeps at least as many as the minimum quota allows.
\<close>

theorem sticky_uniform_keeps_owned:
  assumes "distinct (map fst members)" "all_equal (map snd (subs_of members))" "m \<in> fst ` set members"
  shows "set (take (length (partitions_of tps (shared_topics members)) div length members)
        (by_index (current_of members tps) m))
      \<subseteq> set (slot (assign_eager members tps) m)"
proof -
  have ne: "members \<noteq> []" using assms(3) by auto
  have "raw_assignment members tps
      = constrained_assign (sort (map fst members)) (subs_of members) (current_of members tps) tps"
    using assms(2) by (simp add: raw_assignment_cases)
  then show ?thesis
    using raw_uniform(4) [OF assms(1) ne assms(2,3), where tps = tps]
    unfolding slot_eager [OF assms(3)] current_of_def by simp
qed

theorem sticky_uniform_keeps_owned_witness:
  "all_equal (map snd (subs_of join_example))
   \<and> set (take (length (partitions_of [(''t'', 2)] (shared_topics join_example)) div length join_example)
        (by_index (current_of join_example [(''t'', 2)]) ''a''))
      \<subseteq> set (slot (assign_eager join_example [(''t'', 2)]) ''a'')"
proof -
  have e: "all_equal (map snd (subs_of join_example))" by code_simp
  have "distinct (map fst join_example)" "''a'' \<in> fst ` set join_example"
    by (simp_all add: join_example_def)
  from sticky_uniform_keeps_owned [OF this(1) e this(2)] e show ?thesis by blast
qed

text \<open>
  C30. Conflicting claims are settled by generation: \<open>prepopulate_current_assignments\<close> leaves a
  partition with a member exactly when that member's claim is the only live one of the highest
  generation, so a zombie of an older generation loses and a tie leaves the partition to nobody.
\<close>

theorem highest_generation_owns:
  "tp \<in> set (slot (prepopulate_current_assignments members subs tps) m) \<longleftrightarrow>
     sole_highest (claims_on (live_claims subs tps members) tp) m"
  by (rule prepopulate_facts(3))

text \<open>
  A move that evens out the loads, described by what every member holds before and after it: one
  member gives a partition to a subscriber of its topic that holds at least two partitions less.
\<close>

definition evening_move :: "string list \<Rightarrow> subs_index \<Rightarrow> assignment \<Rightarrow> assignment \<Rightarrow> bool" where
  "evening_move ids subs asg asg' \<longleftrightarrow> map fst asg' = map fst asg
     \<and> (\<exists>tp owner target. tp \<in> set (slot asg owner) \<and> target \<in> set ids \<and> in_subs subs target (fst tp)
          \<and> length (slot asg target) + 2 \<le> length (slot asg owner)
          \<and> (\<forall>m. slot asg' m =
               (if m = owner then remove1 tp (slot asg owner)
                else if m = target then slot asg target @ [tp] else slot asg m)))"

lemma balance_move_evens:
  assumes "balance_move ids subs prev asg asg'" "balance_ok view ids subs M asg"
  shows "evening_move ids subs asg asg'"
  using assms(1)
proof cases
  case (1 tp owner target)
  have o': "tp \<in> set (slot asg owner)" using 1(2) by (simp add: owner_pairs_def)
  note tgt = balance_target_Some [OF 1(3)]
  have ne: "target \<noteq> owner" using tgt(3) by auto
  have mem: "target \<in> fst ` set asg" and wf: "btree_wf asg"
    using tgt(1) assms(2) by (simp_all add: balance_ok_def)
  note eff = move_partition_effect [OF wf o' mem]
  show ?thesis
    unfolding evening_move_def 1(1)
    using eff(2) eff(3) [OF ne] o' tgt ne
    by (intro conjI exI [of _ tp] exI [of _ owner] exI [of _ target]) auto
qed

lemma balance_moves_even:
  assumes "(balance_move ids subs prev ^^ n) asg asg'" "balance_ok view ids subs M asg"
  shows "(evening_move ids subs ^^ n) asg asg'"
  using assms
proof (induction n arbitrary: asg')
  case (Suc n)
  obtain b where b: "(balance_move ids subs prev ^^ n) asg b" "balance_move ids subs prev b asg'"
    using Suc.prems(1) by auto
  have "balance_ok view ids subs M b" using balance_moves_ok [OF b(1) Suc.prems(2)] by blast
  from balance_move_evens [OF b(2) this] show ?case using Suc.IH [OF b(1) Suc.prems(2)] by auto
qed simp

text \<open>
  C28. The balance loop of the general algorithm ends, and its result is the outcome of \<open>n\<close> moves with
  \<open>n\<close> at most \<open>max_iters\<close>, each of which gives a partition to a subscriber that holds at least two
  partitions less.  The moves lower the sum of the squared loads by two each and keep every partition
  with a subscriber.  If the moves were not used up then no member can give a partition to a
  subscriber that holds at least two partitions less.
\<close>

theorem balance_assignment_improves:
  assumes "balance_ok view ids subs M asg"
  shows "\<exists>n. n \<le> max_iters
    \<and> (evening_move ids subs ^^ n) asg (balance_assignment ids subs prev asg max_iters)
    \<and> potential (balance_assignment ids subs prev asg max_iters) + 2 * n \<le> potential asg
    \<and> placed view M (balance_assignment ids subs prev asg max_iters)
    \<and> (n < max_iters \<longrightarrow> (\<forall>owner\<in>set ids. \<forall>m\<in>set ids.
         \<forall>tp\<in>set (slot (balance_assignment ids subs prev asg max_iters) owner).
           in_subs subs owner (fst tp) \<longrightarrow> in_subs subs m (fst tp) \<longrightarrow>
           length (slot (balance_assignment ids subs prev asg max_iters) owner)
             \<le> length (slot (balance_assignment ids subs prev asg max_iters) m) + 1))"
proof -
  let ?out = "balance_assignment ids subs prev asg max_iters"
  obtain n where n: "n \<le> max_iters" "(balance_move ids subs prev ^^ n) asg ?out"
    "n < max_iters \<longrightarrow> stable ids subs prev ?out"
    using balance_loop_moves [OF assms, of 0 max_iters prev] by (auto simp: balance_assignment_def)
  have ok: "balance_ok view ids subs M ?out" "potential ?out + 2 * n \<le> potential asg"
    using balance_moves_ok [OF n(2) assms] by blast+
  have even: "(evening_move ids subs ^^ n) asg ?out" by (rule balance_moves_even [OF n(2) assms])
  have "length (slot ?out owner) \<le> length (slot ?out m) + 1"
    if "n < max_iters" "owner \<in> set ids" "m \<in> set ids" "tp \<in> set (slot ?out owner)"
      "in_subs subs owner (fst tp)" "in_subs subs m (fst tp)" for owner m tp
  proof -
    have "balance_target ids subs prev tp owner ?out = None"
      using n(3) that(1,4) unfolding stable_def owner_pairs_def by blast
    from balance_target_None [OF this that(3,6,2,5)] show ?thesis .
  qed
  then show ?thesis using n(1) ok even by (intro exI [of _ n]) (auto simp: balance_ok_def)
qed

text \<open>\<open>d\<close> subscribes to both topics and \<open>a\<close> to one of them; \<open>d\<close> starts with everything.\<close>

definition uneven_view :: group_view where
  "uneven_view = [(''a'', [''x'']), (''d'', [''x'', ''y''])]"

definition uneven_assignment :: assignment where
  "uneven_assignment = [(''a'', []), (''d'', [(''x'', 0), (''x'', 1), (''y'', 0)])]"

theorem balance_assignment_improves_witness:
  "\<exists>n. n \<le> 22 \<and>
     (evening_move [''a'', ''d''] uneven_view ^^ n) uneven_assignment
       (balance_assignment [''a'', ''d''] uneven_view Map.empty uneven_assignment 22) \<and>
     potential (balance_assignment [''a'', ''d''] uneven_view Map.empty uneven_assignment 22) + 2 * n
       \<le> potential uneven_assignment"
proof -
  let ?M = "mset [(''x'', 0), (''x'', 1), (''y'', 0)] :: topic_partition multiset"
  have "btree_wf uneven_assignment"
    unfolding btree_wf_def uneven_assignment_def by code_simp
  moreover have "placed uneven_view ?M uneven_assignment"
    by (auto simp: placed_def uneven_assignment_def uneven_view_def held_def subscribes_def)
  moreover have "in_subs uneven_view m t \<Longrightarrow> subscribes uneven_view m t" for m t
    by (auto simp: in_subs_def subscribes_def uneven_view_def split: if_splits)
  ultimately have "balance_ok uneven_view [''a'', ''d''] uneven_view ?M uneven_assignment"
    by (auto simp: balance_ok_def uneven_assignment_def)
  from balance_assignment_improves [OF this, of 22 Map.empty] show ?thesis by blast
qed

text \<open>
  C34. The range assignor gives every subscriber of a topic one contiguous range of it, in member
  order: with \<open>c\<close> partitions and \<open>n\<close> subscribers the first \<open>c mod n\<close> subscribers get \<open>c div n + 1\<close>
  partitions and the others \<open>c div n\<close>.
\<close>

theorem range_gives_contiguous_ranges:
  assumes "group_ok (member_view ms) tps" "map_of tps t = Some c" "0 < c"
    and "j < length (topic_subscribers ms t)" "n = int (length (topic_subscribers ms t))"
  shows "filter (\<lambda>x. fst x = t) (slot (assign_members ms tps) (topic_subscribers ms t ! j))
      = map (Pair t) [range_start (c div n) (c mod n) j..range_start (c div n) (c mod n) (Suc j) - 1]
    \<and> range_start (c div n) (c mod n) (Suc j)
      = range_start (c div n) (c mod n) j + c div n + (if int j < c mod n then 1 else 0)"
  using range_slot_of_topic [OF assms] range_start_Suc [of "c div n" "c mod n" j] by simp

definition range_example :: "subscribed_member list" where
  "range_example =
     [(\<lparr>mk_member_id = ''b'', mk_group_instance_id = None\<rparr>, [''t'']),
      (\<lparr>mk_member_id = ''a'', mk_group_instance_id = None\<rparr>, [''t''])]"

theorem range_gives_contiguous_ranges_witness:
  "filter (\<lambda>x. fst x = ''t'') (slot (assign_members range_example [(''t'', 3)]) ''a'')
     = [(''t'', 0), (''t'', 1)]"
proof -
  have s: "topic_subscribers range_example ''t'' = [''a'', ''b'']" by code_simp
  have "group_ok (member_view range_example) [(''t'', 3)]"
    by (simp add: group_ok_def member_view_def range_example_def)
  from range_gives_contiguous_ranges [OF this, of "''t''" 3 0 2] show ?thesis
    by (simp add: s range_start_def upto.simps)
qed

text \<open>
  C35. In a group with one common subscription round robin deals the partitions, sorted by topic and
  index, to the members in turn: member number \<open>i\<close> of \<open>n\<close> gets the partitions number
  \<open>i\<close>, \<open>i + n\<close>, \<open>i + 2n\<close> and so on.
\<close>

theorem round_robin_deals_in_turn:
  assumes "group_ok (member_view ms) tps" "uniform ms" "i < length ms"
  shows "slot (round_robin_assign ms tps) (turn_order ms ! i)
    = map (nth (round_robin_order ms tps))
        (filter (\<lambda>q. q mod length ms = i) [0..<length (round_robin_order ms tps)])"
  by (rule round_robin_uniform_slot [OF assms])

theorem round_robin_deals_in_turn_witness:
  "slot (round_robin_assign range_example [(''t'', 3)]) ''a'' = [(''t'', 0), (''t'', 2)]"
proof -
  have t: "turn_order range_example = [''a'', ''b'']" by code_simp
  have o': "round_robin_order range_example [(''t'', 3)] = [(''t'', 0), (''t'', 1), (''t'', 2)]"
    by code_simp
  have "group_ok (member_view range_example) [(''t'', 3)]" "uniform range_example"
    "0 < length range_example"
    by (simp_all add: group_ok_def member_view_def range_example_def uniform_def)
  from round_robin_deals_in_turn [OF this] show ?thesis
    unfolding t o' by (simp add: range_example_def upt_rec numeral_2_eq_2)
qed

text \<open>
  C40. What a \<open>sticky\<close> member sends as user data is what the leader reads: the same partitions,
  sorted by topic and index, and the same generation.
\<close>

theorem sticky_user_data_round_trip:
  assumes "user_data_ok partitions generation"
  shows "decode_sticky_user_data (subscription_user_data Sticky (Some partitions) generation)
    = (sort partitions, generation)"
  by (rule decode_sticky_encoded [OF assms])

theorem sticky_user_data_round_trip_witness:
  "decode_sticky_user_data (subscription_user_data Sticky (Some [(''t'', 1), (''s'', 4), (''t'', 0)]) 7)
     = ([(''s'', 4), (''t'', 0), (''t'', 1)], 7)"
proof -
  have "utf8_str ''t''" "utf8_str ''s''" by code_simp+
  then have "user_data_ok [(''t'', 1), (''s'', 4), (''t'', 0)] 7"
    by (simp add: user_data_ok_def range_simps)
  moreover have "sort [(''t'', 1 :: int), (''s'', 4), (''t'', 0)] = [(''s'', 4), (''t'', 0), (''t'', 1)]"
    by code_simp
  ultimately show ?thesis using sticky_user_data_round_trip by metis
qed

end
