(* ===== verification/Fetch_Session.thy ===== *)
theory Fetch_Session
  imports Ordered_Map
begin

text \<open>
  \<open>fetch_session.rs\<close>: the incremental fetch sessions of the consumer (KIP-227), one per broker.
  The first part is the code.  The second part says what a request stands for: the partitions that
  the broker reads for it.  The third part is a transition system of one session and its broker, in
  which answers get lost, the broker drops sessions and answers errors at any time; the session
  implements a protocol without sessions, in which each request names all wanted partitions.
\<close>

section \<open>The code\<close>

type_synonym uuid = "u8 list"

definition ZERO_UUID :: uuid where
  "ZERO_UUID = replicate 16 0"

definition INVALID_SESSION_ID :: int where
  "INVALID_SESSION_ID = 0"

definition INITIAL_EPOCH :: int where
  "INITIAL_EPOCH = 0"

definition FINAL_EPOCH :: int where
  "FINAL_EPOCH = -1"

definition FETCH_SESSION_ID_NOT_FOUND :: int where
  "FETCH_SESSION_ID_NOT_FOUND = 70"

record fetch_metadata =
  fm_session_id :: int
  fm_epoch :: int

definition INITIAL :: fetch_metadata where
  "INITIAL = \<lparr>fm_session_id = INVALID_SESSION_ID, fm_epoch = INITIAL_EPOCH\<rparr>"

definition is_full :: "fetch_metadata \<Rightarrow> bool" where
  "is_full m \<longleftrightarrow> fm_epoch m = INITIAL_EPOCH \<or> fm_epoch m = FINAL_EPOCH"

definition close_existing_attempt_new :: "fetch_metadata \<Rightarrow> fetch_metadata" where
  "close_existing_attempt_new m = \<lparr>fm_session_id = fm_session_id m, fm_epoch = INITIAL_EPOCH\<rparr>"

definition next_epoch :: "int \<Rightarrow> int" where
  "next_epoch epoch =
     (if epoch < 0 then FINAL_EPOCH
      else if epoch = 2 ^ 31 - 1 then 1
      else epoch + 1)"

record session_partition =
  sp_topic_id :: uuid
  sp_fetch_offset :: int
  sp_current_leader_epoch :: int
  sp_last_fetched_epoch :: int
  sp_partition_max_bytes :: int

type_synonym session_partitions = "(topic_partition \<times> session_partition) list"

record session_request =
  sr_session_id :: int
  sr_session_epoch :: int
  sr_partitions :: session_partitions
  sr_forgotten :: "(topic_partition \<times> uuid) list"

record fetch_session =
  fs_next :: fetch_metadata
  fs_partitions :: session_partitions

definition fetch_session_default :: fetch_session where
  "fetch_session_default = \<lparr>fs_next = INITIAL, fs_partitions = []\<rparr>"

definition session_id :: "fetch_session \<Rightarrow> int" where
  "session_id s = fm_session_id (fs_next s)"

text \<open>The test of \<open>build\<close> for a topic that was created again under its name.\<close>

definition topic_replaced :: "session_partitions \<Rightarrow> session_partitions \<Rightarrow> bool" where
  "topic_replaced partitions wanted \<longleftrightarrow>
     list_ex (\<lambda>(key, new).
       case map_of partitions key of
         None \<Rightarrow> False
       | Some previous \<Rightarrow>
           sp_topic_id previous \<noteq> sp_topic_id new
           \<and> sp_topic_id previous \<noteq> ZERO_UUID \<and> sp_topic_id new \<noteq> ZERO_UUID) wanted"

definition build :: "session_partitions \<Rightarrow> fetch_session \<Rightarrow> session_request \<times> fetch_session" where
  "build wanted s =
     (let replaced = topic_replaced (fs_partitions s) wanted;
          s = (if replaced \<and> \<not> is_full (fs_next s)
               then s\<lparr>fs_next := close_existing_attempt_new (fs_next s)\<rparr> else s);
          metadata = fs_next s
      in if is_full metadata
         then (\<lparr>sr_session_id = fm_session_id metadata, sr_session_epoch = fm_epoch metadata,
                sr_partitions = wanted, sr_forgotten = []\<rparr>, s\<lparr>fs_partitions := wanted\<rparr>)
         else
           let forgotten = map (\<lambda>(key, p). (key, sp_topic_id p))
                             (filter (\<lambda>(key, _). map_of wanted key = None) (fs_partitions s));
               changed = filter (\<lambda>(key, p). map_of (fs_partitions s) key \<noteq> Some p) wanted
           in (\<lparr>sr_session_id = fm_session_id metadata, sr_session_epoch = fm_epoch metadata,
                sr_partitions = changed, sr_forgotten = forgotten\<rparr>, s\<lparr>fs_partitions := wanted\<rparr>))"

definition handle_response ::
  "int \<Rightarrow> int \<Rightarrow> nat \<Rightarrow> int \<Rightarrow> fetch_session \<Rightarrow> bool \<times> fetch_session" where
  "handle_response error_code response_session_id response_partitions throttle_time_ms s =
     (if error_code \<noteq> 0 then
        (False, s\<lparr>fs_next := (if error_code = FETCH_SESSION_ID_NOT_FOUND then INITIAL
                             else close_existing_attempt_new (fs_next s))\<rparr>)
      else if is_full (fs_next s) then
        (if response_partitions = 0 \<and> 0 < throttle_time_ms then (False, s\<lparr>fs_next := INITIAL\<rparr>)
         else (True, s\<lparr>fs_next :=
           (if response_session_id = INVALID_SESSION_ID then INITIAL
            else \<lparr>fm_session_id = response_session_id, fm_epoch = next_epoch INITIAL_EPOCH\<rparr>)\<rparr>))
      else (True, s\<lparr>fs_next :=
        (if response_session_id = INVALID_SESSION_ID then INITIAL
         else \<lparr>fm_session_id = fm_session_id (fs_next s),
               fm_epoch = next_epoch (fm_epoch (fs_next s))\<rparr>)\<rparr>))"

definition handle_error :: "fetch_session \<Rightarrow> fetch_session" where
  "handle_error s = s\<lparr>fs_next := close_existing_attempt_new (fs_next s)\<rparr>"

lemmas session_consts = INVALID_SESSION_ID_def INITIAL_EPOCH_def FINAL_EPOCH_def
  FETCH_SESSION_ID_NOT_FOUND_def

lemmas session_metadata = INITIAL_def is_full_def close_existing_attempt_new_def next_epoch_def
  session_consts

section \<open>What a request stands for\<close>

text \<open>
  The partitions that the broker reads for a request when its session holds \<open>m\<close>: a full request
  names them all; an incremental request adds or replaces what it names and forgets the rest it
  lists.
\<close>

definition full_request :: "session_request \<Rightarrow> bool" where
  "full_request r \<longleftrightarrow> is_full \<lparr>fm_session_id = sr_session_id r, fm_epoch = sr_session_epoch r\<rparr>"

definition session_meaning ::
  "session_request \<Rightarrow> (topic_partition \<rightharpoonup> session_partition) \<Rightarrow> (topic_partition \<rightharpoonup> session_partition)"
where
  "session_meaning r m =
     (if full_request r then map_of (sr_partitions r)
      else (m |` (- (fst ` set (sr_forgotten r)))) ++ map_of (sr_partitions r))"

lemma build_client:
  assumes "build wanted s = (r, s')"
  shows "fs_partitions s' = wanted"
    and "sr_session_id r = fm_session_id (fs_next s')" "sr_session_epoch r = fm_epoch (fs_next s')"
    and "full_request r \<longleftrightarrow> is_full (fs_next s')"
  using assms unfolding build_def full_request_def
  by (auto simp: Let_def is_full_def split: if_splits)

lemma build_full_meaning:
  assumes "build wanted s = (r, s')" "full_request r"
  shows "session_meaning r m = map_of wanted"
proof -
  have "is_full (fs_next s')" using assms build_client(4) by blast
  then show ?thesis
    using assms unfolding build_def session_meaning_def by (auto simp: Let_def split: if_splits)
qed

lemma map_of_filter_value:
  "distinct (map fst w) \<Longrightarrow>
     map_of (filter (\<lambda>(k, v). P k v) w) k = (case map_of w k of
        None \<Rightarrow> None | Some v \<Rightarrow> if P k v then Some v else None)"
  by (induction w) (auto split: option.splits simp: map_of_eq_None_iff rev_image_eqI)

lemma keys_map_filter:
  "fst ` set (map (\<lambda>(key, p). (key, f p)) (filter (\<lambda>(key, _). Q key) xs)) = {key \<in> fst ` set xs. Q key}"
  by (induction xs) auto

lemma build_incremental:
  assumes "build wanted s = (r, s')" "\<not> full_request r"
  shows "fs_next s' = fs_next s" "\<not> is_full (fs_next s)"
    and "sr_partitions r = filter (\<lambda>(key, p). map_of (fs_partitions s) key \<noteq> Some p) wanted"
    and "sr_forgotten r = map (\<lambda>(key, p). (key, sp_topic_id p))
      (filter (\<lambda>(key, _). map_of wanted key = None) (fs_partitions s))"
proof -
  have "\<not> is_full (fs_next s')" using assms build_client(4) by blast
  then show "fs_next s' = fs_next s" "\<not> is_full (fs_next s)"
    "sr_partitions r = filter (\<lambda>(key, p). map_of (fs_partitions s) key \<noteq> Some p) wanted"
    "sr_forgotten r = map (\<lambda>(key, p). (key, sp_topic_id p))
      (filter (\<lambda>(key, _). map_of wanted key = None) (fs_partitions s))"
    using assms(1) unfolding build_def
    by (auto simp: Let_def close_existing_attempt_new_def is_full_def split: if_splits)
qed

lemma build_incremental_meaning:
  assumes b: "build wanted s = (r, s')" "\<not> full_request r" and w: "distinct (map fst wanted)"
  shows "session_meaning r (map_of (fs_partitions s)) = map_of wanted"
proof
  fix key
  show "session_meaning r (map_of (fs_partitions s)) key = map_of wanted key"
  proof (cases "map_of wanted key")
    case None
    have "key \<in> fst ` set (sr_forgotten r)" if "map_of (fs_partitions s) key \<noteq> None"
      using that None unfolding build_incremental(4) [OF b] keys_map_filter
      by (auto simp: map_of_eq_None_iff)
    then show ?thesis
      using b(2) None unfolding session_meaning_def build_incremental(3) [OF b]
      by (cases "map_of (fs_partitions s) key")
        (simp_all add: map_add_def map_of_filter_value [OF w] restrict_map_def)
  next
    case (Some p)
    have "key \<notin> fst ` set (sr_forgotten r)"
      using Some unfolding build_incremental(4) [OF b] keys_map_filter by auto
    then show ?thesis
      using b(2) Some unfolding session_meaning_def build_incremental(3) [OF b]
      by (auto simp: map_add_def map_of_filter_value [OF w] restrict_map_def split: option.splits)
  qed
qed

section \<open>One session and its broker\<close>

text \<open>
  A request that waits: the wanted partitions, the request, and the error code and session id of
  the answer when the broker has answered.  The broker side is the id, the next epoch and the
  content of its session.  \<open>ss_served\<close> lists, for each request that the broker served, the wanted
  partitions and the partitions that it read.
\<close>

type_synonym pending_fetch = "session_partitions \<times> session_request \<times> (int \<times> int) option"
type_synonym broker_session = "int \<times> int \<times> (topic_partition \<rightharpoonup> session_partition)"

record session_system =
  ss_client :: fetch_session
  ss_pending :: "pending_fetch option"
  ss_broker :: "broker_session option"
  ss_served :: "(session_partitions \<times> (topic_partition \<rightharpoonup> session_partition)) list"

definition session_start :: session_system where
  "session_start = \<lparr>ss_client = fetch_session_default, ss_pending = None, ss_broker = None,
     ss_served = []\<rparr>"

text \<open>
  How a broker serves a request: \<open>broker_serves r b b' content sid\<close> from the session \<open>b\<close>.  It may
  decline to keep a session, and an incremental request needs the session with the id and the epoch
  that it names.  The content of a session is keyed by topic name and partition, as in requests below
  version 13.  From version 13 on a broker keys it by topic id, so the model does not tell apart the
  two topics when a topic is deleted and made again under the same name (\<open>topic_replaced\<close>).
\<close>

inductive broker_serves :: "session_request \<Rightarrow> broker_session option \<Rightarrow> broker_session option
    \<Rightarrow> (topic_partition \<rightharpoonup> session_partition) \<Rightarrow> int \<Rightarrow> bool" where
  serves_new: "full_request r \<Longrightarrow> sid \<noteq> INVALID_SESSION_ID \<Longrightarrow> content = session_meaning r Map.empty \<Longrightarrow>
     broker_serves r b (Some (sid, next_epoch INITIAL_EPOCH, content)) content sid"
| serves_sessionless: "full_request r \<Longrightarrow> content = session_meaning r Map.empty \<Longrightarrow>
     broker_serves r b None content INVALID_SESSION_ID"
| serves_incremental: "\<not> full_request r \<Longrightarrow> content = session_meaning r m \<Longrightarrow>
     broker_serves r (Some (sr_session_id r, sr_session_epoch r, m))
       (Some (sr_session_id r, next_epoch (sr_session_epoch r), content)) content (sr_session_id r)"

inductive session_step :: "session_system \<Rightarrow> session_system \<Rightarrow> bool" where
  ask: "ss_pending s = None \<Longrightarrow> btree_wf wanted \<Longrightarrow> build wanted (ss_client s) = (r, c) \<Longrightarrow>
     session_step s (s\<lparr>ss_client := c, ss_pending := Some (wanted, r, None)\<rparr>)"
| serve: "ss_pending s = Some (wanted, r, None) \<Longrightarrow> broker_serves r (ss_broker s) b content sid \<Longrightarrow>
     session_step s (s\<lparr>ss_pending := Some (wanted, r, Some (0, sid)), ss_broker := b,
       ss_served := ss_served s @ [(wanted, content)]\<rparr>)"
| refuse: "ss_pending s = Some (wanted, r, None) \<Longrightarrow> error_code \<noteq> 0 \<Longrightarrow>
     session_step s (s\<lparr>ss_pending := Some (wanted, r, Some (error_code, sid)), ss_broker := b\<rparr>)"
| receive: "ss_pending s = Some (wanted, r, Some (error_code, sid)) \<Longrightarrow> i32_range sid \<Longrightarrow>
     handle_response error_code sid n throttle (ss_client s) = (usable, c) \<Longrightarrow>
     session_step s (s\<lparr>ss_client := c, ss_pending := None\<rparr>)"
| lose: "ss_pending s = Some p \<Longrightarrow>
     session_step s (s\<lparr>ss_client := handle_error (ss_client s), ss_pending := None, ss_broker := b\<rparr>)"
| evict: "session_step s (s\<lparr>ss_broker := None\<rparr>)"

definition session_reachable :: "session_system \<Rightarrow> bool" where
  "session_reachable s \<longleftrightarrow> session_step\<^sup>*\<^sup>* session_start s"

text \<open>
  When the next request is incremental and the broker holds the session that it names, both sides
  hold the same partitions.
\<close>

definition in_step :: "fetch_metadata \<Rightarrow> session_partitions \<Rightarrow> broker_session option \<Rightarrow> bool" where
  "in_step md parts b \<longleftrightarrow>
     (\<forall>m. \<not> is_full md \<longrightarrow> b = Some (fm_session_id md, fm_epoch md, m) \<longrightarrow> m = map_of parts)"

text \<open>The metadata of the next request after an answer without an error.\<close>

definition answered :: "fetch_metadata \<Rightarrow> int \<Rightarrow> fetch_metadata" where
  "answered md sid =
     (if sid = INVALID_SESSION_ID then INITIAL
      else if is_full md then \<lparr>fm_session_id = sid, fm_epoch = next_epoch INITIAL_EPOCH\<rparr>
      else \<lparr>fm_session_id = fm_session_id md, fm_epoch = next_epoch (fm_epoch md)\<rparr>)"

definition session_inv :: "fetch_session \<Rightarrow> pending_fetch option \<Rightarrow> broker_session option \<Rightarrow> bool" where
  "session_inv c p b \<longleftrightarrow>
     (case p of
        None \<Rightarrow> in_step (fs_next c) (fs_partitions c) b
      | Some (wanted, r, ans) \<Rightarrow>
          fs_partitions c = wanted
          \<and> sr_session_id r = fm_session_id (fs_next c) \<and> sr_session_epoch r = fm_epoch (fs_next c)
          \<and> (case ans of
               None \<Rightarrow> (full_request r \<longrightarrow> (\<forall>m. session_meaning r m = map_of wanted))
                 \<and> (\<forall>m. \<not> full_request r \<longrightarrow> b = Some (sr_session_id r, sr_session_epoch r, m) \<longrightarrow>
                      session_meaning r m = map_of wanted)
             | Some (error_code, sid) \<Rightarrow>
                 error_code = 0 \<longrightarrow> in_step (answered (fs_next c) sid) wanted b))"

lemma in_step_full: "is_full md \<Longrightarrow> in_step md parts b"
  by (simp add: in_step_def)

lemma full_simps [simp]:
  "is_full INITIAL" "is_full (close_existing_attempt_new md)"
  by (simp_all add: session_metadata)

lemma full_request_of:
  "sr_session_id r = fm_session_id md \<Longrightarrow> sr_session_epoch r = fm_epoch md \<Longrightarrow>
     full_request r \<longleftrightarrow> is_full md"
  by (simp add: full_request_def is_full_def)

lemma session_inv_ask:
  assumes "session_inv c None b" "distinct (map fst wanted)" "build wanted c = (r, c')"
  shows "session_inv c' (Some (wanted, r, None)) b"
proof -
  have "session_meaning r m = map_of wanted"
    if "\<not> full_request r" "b = Some (sr_session_id r, sr_session_epoch r, m)" for m
  proof -
    have "m = map_of (fs_partitions c)"
      using assms(1) that build_incremental(1,2) [OF assms(3) that(1)] build_client(2,3) [OF assms(3)]
      by (simp add: session_inv_def in_step_def)
    then show ?thesis using build_incremental_meaning [OF assms(3) that(1) assms(2)] by simp
  qed
  then show ?thesis
    using build_client(1-3) [OF assms(3)] build_full_meaning [OF assms(3)]
    by (auto simp: session_inv_def)
qed

lemma session_inv_serve:
  assumes "session_inv c (Some (wanted, r, None)) b" "broker_serves r b b' content sid"
  shows "content = map_of wanted" "session_inv c (Some (wanted, r, Some (0, sid))) b'"
proof -
  note inv = assms(1) [unfolded session_inv_def, simplified]
  have f: "full_request r \<longleftrightarrow> is_full (fs_next c)" using inv full_request_of by simp
  from assms(2) show c: "content = map_of wanted"
    by cases (use inv in auto)
  from assms(2) have "in_step (answered (fs_next c) sid) wanted b'"
    by cases (use inv c f in \<open>auto simp: in_step_def answered_def\<close>)
  then show "session_inv c (Some (wanted, r, Some (0, sid))) b'"
    using inv by (simp add: session_inv_def)
qed

lemma session_inv_receive:
  assumes "session_inv c (Some (wanted, r, Some (error_code, sid))) b"
    and "handle_response error_code sid n throttle c = (usable, c')"
  shows "session_inv c' None b" "usable \<Longrightarrow> error_code = 0" "fs_partitions c' = fs_partitions c"
  using assms unfolding session_inv_def handle_response_def
  by (auto simp: answered_def in_step_full split: if_splits)

lemma session_inv_lose: "session_inv (handle_error c) None b"
  by (simp add: session_inv_def handle_error_def in_step_full)

lemma session_step_inv:
  assumes "session_step s s'" "session_inv (ss_client s) (ss_pending s) (ss_broker s)"
    and "\<forall>(wanted, content)\<in>set (ss_served s). content = map_of wanted"
  shows "session_inv (ss_client s') (ss_pending s') (ss_broker s')
    \<and> (\<forall>(wanted, content)\<in>set (ss_served s'). content = map_of wanted)"
  using assms
proof cases
  case (ask wanted r c)
  then show ?thesis
    using assms(2,3) session_inv_ask [of "ss_client s" "ss_broker s" wanted r c]
    by (simp add: btree_wf_def)
next
  case (serve wanted r b content sid)
  then show ?thesis
    using assms(2,3) session_inv_serve [of "ss_client s" wanted r "ss_broker s" b content sid]
    by simp
next
  case (refuse wanted r error_code sid b)
  then show ?thesis using assms(2,3) by (simp add: session_inv_def)
next
  case (receive wanted r error_code sid n throttle usable c)
  then show ?thesis
    using assms(2,3) session_inv_receive(1) [of "ss_client s" wanted r error_code sid "ss_broker s" n throttle usable c]
    by simp
next
  case (lose p b)
  then show ?thesis using assms(3) session_inv_lose by simp
next
  case evict
  have "session_inv c p None" if "session_inv c p b" for c p b
    using that by (auto simp: session_inv_def in_step_def split: option.splits)
  then show ?thesis using evict assms(2,3) by simp
qed

lemma session_reachable_inv:
  assumes "session_reachable s"
  shows "session_inv (ss_client s) (ss_pending s) (ss_broker s)
    \<and> (\<forall>(wanted, content)\<in>set (ss_served s). content = map_of wanted)"
  using assms unfolding session_reachable_def
proof (induction rule: rtranclp_induct)
  case base
  then show ?case
    by (simp add: session_start_def session_inv_def fetch_session_default_def in_step_full)
next
  case (step s s')
  then show ?case using session_step_inv by blast
qed

section \<open>The protocol without sessions\<close>

text \<open>
  The abstract protocol: a request names all wanted partitions, the broker reads them or refuses,
  and the answer arrives or gets lost.  Its state is the request that waits, with the fact that the
  broker dealt with it, and what the broker has read so far.
\<close>

type_synonym plain_state =
  "(session_partitions \<times> bool) option \<times> (topic_partition \<rightharpoonup> session_partition) list"

inductive plain_step :: "plain_state \<Rightarrow> plain_state \<Rightarrow> bool" where
  plain_ask: "plain_step (None, reads) (Some (wanted, False), reads)"
| plain_serve: "plain_step (Some (wanted, False), reads) (Some (wanted, True), reads @ [map_of wanted])"
| plain_refuse: "plain_step (Some (wanted, False), reads) (Some (wanted, True), reads)"
| plain_end: "plain_step (Some p, reads) (None, reads)"
| plain_idle: "plain_step ps ps"

inductive_simps plain_step_simps:
  "plain_step (None, reads) ps" "plain_step (Some p, reads) ps"

definition session_abs :: "session_system \<Rightarrow> plain_state" where
  "session_abs s =
     (map_option (\<lambda>(wanted, _, ans). (wanted, ans \<noteq> None)) (ss_pending s), map snd (ss_served s))"

lemma session_step_refines:
  assumes "session_step s s'" "session_inv (ss_client s) (ss_pending s) (ss_broker s)"
  shows "plain_step (session_abs s) (session_abs s')"
  using assms(1)
proof cases
  case (serve wanted r b content sid)
  then have "content = map_of wanted" using session_inv_serve(1) assms(2) by simp
  then show ?thesis using serve by (simp add: session_abs_def plain_step_simps)
qed (simp_all add: session_abs_def plain_step_simps plain_step.intros split: prod.splits)

section \<open>Well-typed metadata\<close>

text \<open>The next request has fields of their Rust types, and an incremental one names a session.\<close>

definition metadata_wf :: "fetch_metadata \<Rightarrow> bool" where
  "metadata_wf md \<longleftrightarrow> i32_range (fm_session_id md) \<and> 0 \<le> fm_epoch md \<and> i32_range (fm_epoch md)
     \<and> (\<not> is_full md \<longrightarrow> fm_session_id md \<noteq> INVALID_SESSION_ID)"

lemma next_epoch_range:
  "0 \<le> e \<Longrightarrow> i32_range e \<Longrightarrow> 0 < next_epoch e \<and> i32_range (next_epoch e)"
  by (auto simp: next_epoch_def i32_range_def)

lemma metadata_wf_simps:
  "metadata_wf INITIAL" "metadata_wf md \<Longrightarrow> metadata_wf (close_existing_attempt_new md)"
  by (auto simp: metadata_wf_def session_metadata i32_range_def)

lemma metadata_wf_build:
  "build wanted c = (r, c') \<Longrightarrow> metadata_wf (fs_next c) \<Longrightarrow> metadata_wf (fs_next c')"
  by (auto simp: build_def Let_def metadata_wf_simps split: if_splits)

lemma metadata_wf_response:
  assumes "handle_response error_code sid n throttle c = (usable, c')" "metadata_wf (fs_next c)"
    and "i32_range sid"
  shows "metadata_wf (fs_next c')"
proof -
  consider "fs_next c' = INITIAL" | "fs_next c' = close_existing_attempt_new (fs_next c)"
    | "sid \<noteq> INVALID_SESSION_ID" "fs_next c' = \<lparr>fm_session_id = sid, fm_epoch = next_epoch INITIAL_EPOCH\<rparr>"
    | "\<not> is_full (fs_next c)" "fs_next c' = \<lparr>fm_session_id = fm_session_id (fs_next c),
        fm_epoch = next_epoch (fm_epoch (fs_next c))\<rparr>"
    using assms(1) unfolding handle_response_def by (auto split: if_splits)
  then show ?thesis
  proof cases
    case 3
    then show ?thesis
      using assms(3) next_epoch_range [of INITIAL_EPOCH]
      by (simp add: metadata_wf_def INITIAL_EPOCH_def i32_range_def)
  next
    case 4
    then show ?thesis
      using assms(2) next_epoch_range [of "fm_epoch (fs_next c)"] by (simp add: metadata_wf_def)
  qed (simp_all add: metadata_wf_simps assms(2))
qed

lemma session_reachable_metadata:
  assumes "session_reachable s"
  shows "metadata_wf (fs_next (ss_client s))"
  using assms unfolding session_reachable_def
proof (induction rule: rtranclp_induct)
  case base
  then show ?case by (simp add: session_start_def fetch_session_default_def metadata_wf_simps)
next
  case (step s s')
  from step.hyps(2) show ?case
    by cases (simp_all add: handle_error_def metadata_wf_simps step.IH
        metadata_wf_build [OF _ step.IH] metadata_wf_response [OF _ step.IH])
qed

lemma btree_wf_filter: "btree_wf m \<Longrightarrow> btree_wf (filter P m)"
  by (auto simp: btree_wf_def sorted_map distinct_map sorted_wrt_filter intro: inj_on_subset)

lemma build_partitions_wf:
  "build wanted c = (r, c') \<Longrightarrow> btree_wf wanted \<Longrightarrow> btree_wf (sr_partitions r)"
  by (auto simp: build_def Let_def btree_wf_filter split: if_splits)

lemma session_reachable_partitions:
  assumes "session_reachable s"
  shows "btree_wf (fs_partitions (ss_client s))"
  using assms unfolding session_reachable_def
proof (induction rule: rtranclp_induct)
  case base
  then show ?case by (simp add: session_start_def fetch_session_default_def)
next
  case (step s s')
  from step.hyps(2) show ?case
  proof cases
    case (ask wanted r c)
    then show ?thesis using build_client(1) [OF ask(4)] by simp
  next
    case (receive wanted r error_code sid n throttle usable c)
    then show ?thesis using step.IH by (auto simp: handle_response_def split: if_splits)
  qed (simp_all add: step.IH handle_error_def)
qed

end
