(* ===== verification/Fetch_Records.thy ===== *)
theory Fetch_Records
  imports Fetch_Session Errors
begin

text \<open>
  The decoding of a fetched partition in \<open>poll.rs\<close>: batches to consumer records, with the
  client-side filter of \<open>read_committed\<close>.  A log is the list of its batches, each with a flag that
  says whether a control batch is an abort marker.  \<open>visible\<close> is the reference: what a consumer
  with an isolation level reads from a log.  The decoder returns exactly the visible records of the
  fetched part of the log.
\<close>

section \<open>Records and batches\<close>

datatype isolation_level = ReadUncommitted | ReadCommitted

datatype timestamp_type = CreateTime | LogAppendTime

record header =
  hd_key :: string
  hd_value :: "u8 list option"

record consumer_record =
  cr_topic :: string
  cr_partition :: int
  cr_offset :: int
  cr_leader_epoch :: int
  cr_timestamp :: int
  cr_timestamp_type :: timestamp_type
  cr_key :: "u8 list option"
  cr_value :: "u8 list option"
  cr_headers :: "header list"

text \<open>The fields of the record batches of the protocol crate that the consumer reads.\<close>

record wire_record =
  wr_offset_delta :: int
  wr_timestamp_delta :: int
  wr_key :: "u8 list option"
  wr_value :: "u8 list option"
  wr_headers :: "header list"

record wire_batch =
  wb_base_offset :: int
  wb_last_offset_delta :: int
  wb_partition_leader_epoch :: int
  wb_timestamp_type :: timestamp_type
  wb_is_transactional :: bool
  wb_is_control_batch :: bool
  wb_base_timestamp :: int
  wb_max_timestamp :: int
  wb_producer_id :: int
  wb_records :: "wire_record list"

text \<open>
  The payload of a partition row: absent, batches of the current format, or an older message set.
\<close>

datatype wire_payload = NoPayload | V2 "wire_batch list" | Legacy

record partition_data =
  pd_partition_index :: int
  pd_error_code :: int
  pd_high_watermark :: int
  pd_last_stable_offset :: int
  pd_diverging_end_offset :: int
  pd_current_leader_id :: int
  pd_current_leader_epoch :: int
  pd_preferred_read_replica :: int
  pd_aborted_transactions :: "(int \<times> int) list option"
  pd_records :: wire_payload

definition is_read_committed :: "isolation_level \<Rightarrow> bool" where
  "is_read_committed isolation \<longleftrightarrow> isolation = ReadCommitted"

definition aborted_txn_started :: "int \<Rightarrow> int \<Rightarrow> bool" where
  "aborted_txn_started first_offset batch_base_offset \<longleftrightarrow> first_offset \<le> batch_base_offset"

definition should_drop_aborted_batch :: "bool \<Rightarrow> bool \<Rightarrow> bool \<Rightarrow> bool" where
  "should_drop_aborted_batch read_committed is_transactional producer_is_aborted \<longleftrightarrow>
     read_committed \<and> is_transactional \<and> producer_is_aborted"

definition record_offset :: "int \<Rightarrow> int \<Rightarrow> int" where
  "record_offset base_offset offset_delta = base_offset + offset_delta"

definition record_timestamp :: "wire_batch \<Rightarrow> wire_record \<Rightarrow> int \<times> timestamp_type" where
  "record_timestamp batch r =
     (let timestamp_type = wb_timestamp_type batch;
          timestamp = (case timestamp_type of
              CreateTime \<Rightarrow> wb_base_timestamp batch + wr_timestamp_delta r
            | LogAppendTime \<Rightarrow> wb_max_timestamp batch)
      in (timestamp, timestamp_type))"

definition readable_end_offset :: "isolation_level \<Rightarrow> int \<Rightarrow> int \<Rightarrow> int" where
  "readable_end_offset isolation high_watermark last_stable_offset =
     (case isolation of
        ReadCommitted \<Rightarrow> last_stable_offset
      | ReadUncommitted \<Rightarrow> high_watermark)"

definition batch_end :: "wire_batch \<Rightarrow> int" where
  "batch_end b = wb_base_offset b + wb_last_offset_delta b + 1"

definition next_offset_after :: "wire_batch list \<Rightarrow> int option" where
  "next_offset_after batches =
     (if batches = [] then None else Some (Max (set (map batch_end batches))))"

section \<open>Decoding a partition row\<close>

text \<open>The fetched data of one partition that \<open>poll\<close> did not return yet (\<open>fetch_buffer.rs\<close>).\<close>

record buffered_partition =
  bp_key :: topic_partition
  bp_position :: int
  bp_records :: "consumer_record list"
  bp_next_offset :: int
  bp_last_epoch :: "int option"

text \<open>The loop that takes up the aborted transactions that start at or before a batch.\<close>

fun start_aborted :: "int \<Rightarrow> (int \<times> int) list \<Rightarrow> int set \<Rightarrow> (int \<times> int) list \<times> int set" where
  "start_aborted base [] pids = ([], pids)"
| "start_aborted base ((first_offset, pid) # aborted) pids =
     (if aborted_txn_started first_offset base then start_aborted base aborted (insert pid pids)
      else ((first_offset, pid) # aborted, pids))"

definition consumer_record_of :: "string \<Rightarrow> int \<Rightarrow> wire_batch \<Rightarrow> wire_record \<Rightarrow> consumer_record" where
  "consumer_record_of topic_name partition_index batch r =
     (let (timestamp, timestamp_type) = record_timestamp batch r
      in \<lparr>cr_topic = topic_name, cr_partition = partition_index,
          cr_offset = record_offset (wb_base_offset batch) (wr_offset_delta r),
          cr_leader_epoch = wb_partition_leader_epoch batch,
          cr_timestamp = timestamp, cr_timestamp_type = timestamp_type,
          cr_key = wr_key r, cr_value = wr_value r, cr_headers = wr_headers r\<rparr>)"

text \<open>One batch: the aborted queue, the producers with an open aborted transaction, the records.\<close>

definition decode_batch ::
  "bool \<Rightarrow> int \<Rightarrow> string \<Rightarrow> int \<Rightarrow> wire_batch
     \<Rightarrow> (int \<times> int) list \<times> int set \<times> consumer_record list
     \<Rightarrow> (int \<times> int) list \<times> int set \<times> consumer_record list" where
  "decode_batch read_committed fetch_floor topic_name partition_index batch =
     (\<lambda>(aborted, aborted_pids, records).
       let (aborted, aborted_pids) =
             (if read_committed then start_aborted (wb_base_offset batch) aborted aborted_pids
              else (aborted, aborted_pids))
       in if wb_is_control_batch batch then
            (aborted, if read_committed then aborted_pids - {wb_producer_id batch} else aborted_pids,
             records)
          else if should_drop_aborted_batch read_committed (wb_is_transactional batch)
                    (wb_producer_id batch \<in> aborted_pids) then
            (aborted, aborted_pids, records)
          else
            (aborted, aborted_pids,
             records @ map (consumer_record_of topic_name partition_index batch)
               (filter (\<lambda>r. \<not> record_offset (wb_base_offset batch) (wr_offset_delta r) < fetch_floor)
                  (wb_records batch))))"

definition process_partition_records ::
  "isolation_level \<Rightarrow> (topic_partition \<times> int) list \<Rightarrow> topic_partition \<Rightarrow> string \<Rightarrow> partition_data
     \<Rightarrow> buffered_partition option" where
  "process_partition_records isolation offsets key topic_name part =
     (case pd_records part of
        V2 batches \<Rightarrow>
          (let fetch_floor = (case map_of offsets key of None \<Rightarrow> 0 | Some n \<Rightarrow> n);
               read_committed = is_read_committed isolation;
               aborted = (if read_committed
                 then sort (case pd_aborted_transactions part of None \<Rightarrow> [] | Some a \<Rightarrow> a) else []);
               (_, _, records) = fold (decode_batch read_committed fetch_floor topic_name
                   (pd_partition_index part)) batches (aborted, {}, [])
           in case next_offset_after batches of
                None \<Rightarrow> None
              | Some next_offset \<Rightarrow>
                  Some \<lparr>bp_key = key, bp_position = fetch_floor, bp_records = records,
                    bp_next_offset = next_offset,
                    bp_last_epoch = (if batches = [] then None
                      else Some (Max (set (map wb_partition_leader_epoch batches))))\<rparr>)
      | _ \<Rightarrow> None)"

section \<open>What a log holds\<close>

text \<open>A log: its batches in offset order, each with the flag of an abort marker.\<close>

type_synonym log = "(wire_batch \<times> bool) list"

definition batch_wf :: "wire_batch \<Rightarrow> bool" where
  "batch_wf b \<longleftrightarrow> 0 \<le> wb_last_offset_delta b
     \<and> sorted_wrt (\<lambda>r r'. wr_offset_delta r < wr_offset_delta r') (wb_records b)
     \<and> (\<forall>r\<in>set (wb_records b). 0 \<le> wr_offset_delta r \<and> wr_offset_delta r \<le> wb_last_offset_delta b)"

definition log_wf :: "log \<Rightarrow> bool" where
  "log_wf lg \<longleftrightarrow> sorted_wrt (\<lambda>(b, _) (b', _). batch_end b \<le> wb_base_offset b') lg
     \<and> (\<forall>(b, _)\<in>set lg. batch_wf b)"

text \<open>The outcome of the transaction that a producer has open: its next marker in the log.\<close>

fun next_marker :: "int \<Rightarrow> log \<Rightarrow> bool option" where
  "next_marker pid [] = None"
| "next_marker pid ((b, abort) # lg) =
     (if wb_is_control_batch b \<and> wb_producer_id b = pid then Some abort else next_marker pid lg)"

definition batch_visible :: "isolation_level \<Rightarrow> wire_batch \<Rightarrow> log \<Rightarrow> bool" where
  "batch_visible isolation b rest \<longleftrightarrow>
     \<not> wb_is_control_batch b
     \<and> (isolation = ReadCommitted \<longrightarrow> wb_is_transactional b \<longrightarrow>
          next_marker (wb_producer_id b) rest = Some False)"

fun visible :: "isolation_level \<Rightarrow> topic_partition \<Rightarrow> log \<Rightarrow> consumer_record list" where
  "visible isolation key [] = []"
| "visible isolation key ((b, abort) # lg) =
     (if batch_visible isolation b lg
      then map (consumer_record_of (fst key) (snd key) b) (wb_records b) else [])
     @ visible isolation key lg"

definition visible_between ::
  "isolation_level \<Rightarrow> topic_partition \<Rightarrow> log \<Rightarrow> int \<Rightarrow> int \<Rightarrow> consumer_record list" where
  "visible_between isolation key lg lo hi =
     filter (\<lambda>r. lo \<le> cr_offset r \<and> cr_offset r < hi) (visible isolation key lg)"

text \<open>
  What a broker answers for a fetch at \<open>off\<close> with the log \<open>lg\<close>: whole batches, next to each other
  in the log, from the first one that ends past \<open>off\<close>.  For \<open>read_committed\<close> it stops before the
  first open transaction and lists aborted transactions, each by the base offset of one of its
  batches and its producer: every one that has a batch in the answer, and none whose abort marker
  lies before the answer.
\<close>

abbreviation base_at :: "log \<Rightarrow> nat \<Rightarrow> int" where
  "base_at lg i \<equiv> wb_base_offset (fst (lg ! i))"

definition marked :: "log \<Rightarrow> int \<Rightarrow> nat \<Rightarrow> nat \<Rightarrow> bool" where
  "marked lg pid i n \<longleftrightarrow> (\<exists>j. i < j \<and> j < n \<and> wb_is_control_batch (fst (lg ! j))
     \<and> wb_producer_id (fst (lg ! j)) = pid)"

definition txn_data :: "log \<Rightarrow> nat \<Rightarrow> int \<Rightarrow> bool" where
  "txn_data lg i pid \<longleftrightarrow> wb_is_transactional (fst (lg ! i)) \<and> \<not> wb_is_control_batch (fst (lg ! i))
     \<and> wb_producer_id (fst (lg ! i)) = pid"

definition aborted_sound :: "log \<Rightarrow> nat \<Rightarrow> (int \<times> int) list \<Rightarrow> bool" where
  "aborted_sound lg start aborted \<longleftrightarrow>
     (\<forall>(first_offset, pid)\<in>set aborted. \<exists>i<length lg. base_at lg i = first_offset \<and> txn_data lg i pid
        \<and> next_marker pid (drop (Suc i) lg) = Some True \<and> \<not> marked lg pid i start)"

definition aborted_complete :: "log \<Rightarrow> nat \<Rightarrow> nat \<Rightarrow> (int \<times> int) list \<Rightarrow> bool" where
  "aborted_complete lg start stop aborted \<longleftrightarrow>
     (\<forall>n pid. start \<le> n \<longrightarrow> n < stop \<longrightarrow> txn_data lg n pid \<longrightarrow>
        next_marker pid (drop (Suc n) lg) = Some True \<longrightarrow>
        (\<exists>i\<le>n. (base_at lg i, pid) \<in> set aborted \<and> \<not> marked lg pid i n))"

definition txns_decided :: "log \<Rightarrow> nat \<Rightarrow> nat \<Rightarrow> bool" where
  "txns_decided lg start stop \<longleftrightarrow>
     (\<forall>n pid. start \<le> n \<longrightarrow> n < stop \<longrightarrow> txn_data lg n pid \<longrightarrow> next_marker pid (drop (Suc n) lg) \<noteq> None)"

definition fetched_range ::
  "isolation_level \<Rightarrow> log \<Rightarrow> int \<Rightarrow> nat \<Rightarrow> nat \<Rightarrow> (int \<times> int) list \<Rightarrow> bool" where
  "fetched_range isolation lg off start stop aborted \<longleftrightarrow>
     start \<le> stop \<and> stop \<le> length lg
     \<and> (\<forall>i. i < start \<longrightarrow> batch_end (fst (lg ! i)) \<le> off)
     \<and> (\<forall>i. start \<le> i \<longrightarrow> i < stop \<longrightarrow> off < batch_end (fst (lg ! i)))
     \<and> (isolation = ReadCommitted \<longrightarrow>
          aborted_sound lg start aborted \<and> aborted_complete lg start stop aborted
          \<and> txns_decided lg start stop)"

definition fetched_part :: "isolation_level \<Rightarrow> log \<Rightarrow> int \<Rightarrow> partition_data \<Rightarrow> bool" where
  "fetched_part isolation lg off part \<longleftrightarrow>
     (\<forall>batches. pd_records part = V2 batches \<longrightarrow>
        (\<exists>start stop. batches = map fst (take (stop - start) (drop start lg))
           \<and> fetched_range isolation lg off start stop
               (case pd_aborted_transactions part of None \<Rightarrow> [] | Some a \<Rightarrow> a)))"

section \<open>The decoder returns what is visible\<close>

lemma fetched_rangeD:
  assumes "fetched_range isolation lg off start stop aborted"
  shows "start \<le> stop" "stop \<le> length lg" "i < start \<Longrightarrow> batch_end (fst (lg ! i)) \<le> off"
    "start \<le> i \<Longrightarrow> i < stop \<Longrightarrow> off < batch_end (fst (lg ! i))"
  using assms unfolding fetched_range_def by blast+

lemma log_wf_nth:
  assumes "log_wf lg" "i < length lg"
  shows "batch_wf (fst (lg ! i))" "base_at lg i < batch_end (fst (lg ! i))"
proof -
  show w: "batch_wf (fst (lg ! i))"
    using assms nth_mem [OF assms(2)] unfolding log_wf_def by (metis case_prod_beta)
  then show "base_at lg i < batch_end (fst (lg ! i))"
    by (simp add: batch_wf_def batch_end_def)
qed

lemma log_wf_order:
  assumes "log_wf lg" "i < j" "j < length lg"
  shows "batch_end (fst (lg ! i)) \<le> base_at lg j"
  using sorted_wrt_nth_less [of _ lg i j] assms unfolding log_wf_def
  by (metis (mono_tags, lifting) case_prod_beta)

lemma base_less_iff:
  assumes "log_wf lg" "i < length lg" "j < length lg"
  shows "base_at lg i < base_at lg j \<longleftrightarrow> i < j" "base_at lg i = base_at lg j \<longleftrightarrow> i = j"
proof -
  have less: "base_at lg i < base_at lg j" if "i < j" "j < length lg" for i j
    using log_wf_order [OF assms(1) that] log_wf_nth(2) [OF assms(1), of i] that by simp
  show "base_at lg i < base_at lg j \<longleftrightarrow> i < j" "base_at lg i = base_at lg j \<longleftrightarrow> i = j"
    using less [of i j] less [of j i] assms(2,3) by (cases i j rule: linorder_cases; simp)+
qed

lemma start_aborted_sorted:
  "sorted q \<Longrightarrow> start_aborted base q pids
     = (filter (\<lambda>(f, _). base < f) q, pids \<union> {p. \<exists>f. (f, p) \<in> set q \<and> f \<le> base})"
proof (induction base q pids rule: start_aborted.induct)
  case (2 base f p q pids)
  show ?case
  proof (cases "f \<le> base")
    case True
    then show ?thesis using 2 by (auto simp: aborted_txn_started_def)
  next
    case False
    then have "\<forall>(f', p')\<in>set q. base < f'" using "2.prems" by (auto simp: less_eq_prod_def)
    then have "filter (\<lambda>(f, _). base < f) q = q" "\<nexists>f' p'. (f', p') \<in> set q \<and> f' \<le> base"
      by (auto simp: filter_id_conv)
    then show ?thesis using False by (auto simp: aborted_txn_started_def)
  qed
qed simp

lemma next_marker_skip:
  assumes "i \<le> n" "n \<le> length lg" "\<not> marked lg pid i n"
  shows "next_marker pid (drop (Suc i) lg) = next_marker pid (drop n lg) \<or> i = n"
  using assms
proof (induction n)
  case (Suc n)
  show ?case
  proof (cases "i = n \<or> i = Suc n")
    case False
    then have "i \<le> n" "\<not> marked lg pid i n" "i < n" using Suc.prems by (auto simp: marked_def)
    then have "next_marker pid (drop (Suc i) lg) = next_marker pid (drop n lg)"
      using Suc by auto
    moreover have "drop n lg = lg ! n # drop (Suc n) lg" using Suc.prems by (simp add: Cons_nth_drop_Suc)
    moreover have "\<not> (wb_is_control_batch (fst (lg ! n)) \<and> wb_producer_id (fst (lg ! n)) = pid)"
      using Suc.prems \<open>i < n\<close> by (auto simp: marked_def)
    ultimately show ?thesis by (cases "lg ! n") auto
  qed auto
qed simp

definition open_at :: "log \<Rightarrow> (int \<times> int) list \<Rightarrow> nat \<Rightarrow> int set" where
  "open_at lg aborted n = {pid. \<exists>i\<le>n. i < length lg \<and> (base_at lg i, pid) \<in> set aborted \<and> \<not> marked lg pid i n}"

definition visible_at :: "isolation_level \<Rightarrow> topic_partition \<Rightarrow> log \<Rightarrow> nat \<Rightarrow> consumer_record list" where
  "visible_at isolation key lg n =
     (if batch_visible isolation (fst (lg ! n)) (drop (Suc n) lg)
      then map (consumer_record_of (fst key) (snd key) (fst (lg ! n))) (wb_records (fst (lg ! n)))
      else [])"

lemma open_at_aborted:
  assumes "fetched_range ReadCommitted lg off start stop aborted" "log_wf lg"
    and "start \<le> n" "n < stop" "txn_data lg n pid"
  shows "pid \<in> open_at lg aborted n \<longleftrightarrow> next_marker pid (drop (Suc n) lg) = Some True"
proof
  assume "pid \<in> open_at lg aborted n"
  then obtain i where i: "i \<le> n" "i < length lg" "(base_at lg i, pid) \<in> set aborted" "\<not> marked lg pid i n"
    by (auto simp: open_at_def)
  have n: "n < length lg" using assms(1,4) by (simp add: fetched_range_def)
  obtain i' where "i' < length lg" "base_at lg i' = base_at lg i"
    "next_marker pid (drop (Suc i') lg) = Some True"
    using i(3) assms(1) unfolding fetched_range_def aborted_sound_def by force
  then have m: "next_marker pid (drop (Suc i) lg) = Some True"
    using base_less_iff(2) [OF assms(2) _ i(2)] by blast
  show "next_marker pid (drop (Suc n) lg) = Some True"
  proof (cases "i = n")
    case False
    then have "next_marker pid (drop n lg) = Some True"
      using next_marker_skip [OF i(1) _ i(4)] m n by auto
    moreover have "drop n lg = lg ! n # drop (Suc n) lg" using n by (simp add: Cons_nth_drop_Suc)
    ultimately show ?thesis using assms(5) by (cases "lg ! n") (auto simp: txn_data_def)
  qed (use m in simp)
next
  assume "next_marker pid (drop (Suc n) lg) = Some True"
  then obtain i where "i \<le> n" "(base_at lg i, pid) \<in> set aborted" "\<not> marked lg pid i n"
    using assms unfolding fetched_range_def aborted_complete_def by blast
  moreover have "n < length lg" using assms(1,4) by (simp add: fetched_range_def)
  ultimately show "pid \<in> open_at lg aborted n" unfolding open_at_def by fastforce
qed

definition decoded_at ::
  "isolation_level \<Rightarrow> topic_partition \<Rightarrow> int \<Rightarrow> log \<Rightarrow> nat \<Rightarrow> consumer_record list" where
  "decoded_at isolation key fetch_floor lg n =
     filter (\<lambda>r. fetch_floor \<le> cr_offset r) (visible_at isolation key lg n)"

lemma consumer_record_of_simps [simp]:
  "cr_offset (consumer_record_of t p b r) = wb_base_offset b + wr_offset_delta r"
  "cr_topic (consumer_record_of t p b r) = t" "cr_partition (consumer_record_of t p b r) = p"
  by (simp_all add: consumer_record_of_def record_timestamp_def record_offset_def Let_def)

text \<open>The state of the decoder before the batch \<open>n\<close>, after the batches from \<open>start\<close> on.\<close>

definition decoder_inv ::
  "isolation_level \<Rightarrow> topic_partition \<Rightarrow> int \<Rightarrow> log \<Rightarrow> (int \<times> int) list \<Rightarrow> nat \<Rightarrow> nat
     \<Rightarrow> (int \<times> int) list \<times> int set \<times> consumer_record list \<Rightarrow> bool" where
  "decoder_inv isolation key fetch_floor lg aborted start n = (\<lambda>(q, pids, records).
     records = concat (map (decoded_at isolation key fetch_floor lg) [start..<n])
     \<and> (isolation = ReadCommitted \<longrightarrow>
          (if n = start then q = sort aborted \<and> pids = {}
           else q = filter (\<lambda>(f, _). base_at lg (n - 1) < f) (sort aborted)
             \<and> pids = open_at lg aborted (n - 1)
                 - (if wb_is_control_batch (fst (lg ! (n - 1)))
                    then {wb_producer_id (fst (lg ! (n - 1)))} else {}))))"

lemma open_at_start:
  assumes "aborted_sound lg n aborted" "log_wf lg" "n < length lg"
  shows "{p. \<exists>f. (f, p) \<in> set (sort aborted) \<and> f \<le> base_at lg n} = open_at lg aborted n"
proof (intro set_eqI iffI)
  fix p
  assume "p \<in> {p. \<exists>f. (f, p) \<in> set (sort aborted) \<and> f \<le> base_at lg n}"
  then obtain f where f: "(f, p) \<in> set aborted" "f \<le> base_at lg n" by auto
  then obtain i where i: "i < length lg" "base_at lg i = f" "\<not> marked lg p i n"
    using assms(1) unfolding aborted_sound_def by fast
  then have "i \<le> n" using f(2) base_less_iff(1) [OF assms(2,3) i(1)] by auto
  then show "p \<in> open_at lg aborted n" using i f unfolding open_at_def by blast
next
  fix p
  assume "p \<in> open_at lg aborted n"
  then obtain i where i: "i \<le> n" "i < length lg" "(base_at lg i, p) \<in> set aborted"
    unfolding open_at_def by blast
  then have "base_at lg i \<le> base_at lg n" using base_less_iff(1) [OF assms(2,3) i(2)] by auto
  then show "p \<in> {p. \<exists>f. (f, p) \<in> set (sort aborted) \<and> f \<le> base_at lg n}" using i(3) by auto
qed

lemma marked_Suc:
  "i \<le> n \<Longrightarrow> marked lg p i (Suc n) \<longleftrightarrow> marked lg p i n
     \<or> i < n \<and> wb_is_control_batch (fst (lg ! n)) \<and> wb_producer_id (fst (lg ! n)) = p"
  by (auto simp: marked_def less_Suc_eq)

lemma open_at_Suc:
  assumes "aborted_sound lg start aborted" "log_wf lg" "Suc n < length lg"
  shows "(open_at lg aborted n
       - (if wb_is_control_batch (fst (lg ! n)) then {wb_producer_id (fst (lg ! n))} else {}))
     \<union> {p. \<exists>f. (f, p) \<in> set (filter (\<lambda>(f, _). base_at lg n < f) (sort aborted)) \<and> f \<le> base_at lg (Suc n)}
     = open_at lg aborted (Suc n)" (is "?A - ?C \<union> ?B = _")
proof (intro set_eqI iffI)
  fix p
  assume "p \<in> ?A - ?C \<union> ?B"
  then consider "p \<in> ?A - ?C" | "p \<in> ?B" by blast
  then show "p \<in> open_at lg aborted (Suc n)"
  proof cases
    case 1
    then obtain i where i: "i \<le> n" "i < length lg" "(base_at lg i, p) \<in> set aborted" "\<not> marked lg p i n"
      unfolding open_at_def by blast
    have "\<not> marked lg p i (Suc n)"
      using 1 i(4) unfolding marked_Suc [OF i(1)] by (auto split: if_splits)
    moreover have "i \<le> Suc n" using i(1) by simp
    ultimately show ?thesis using i(2,3) unfolding open_at_def by blast
  next
    case 2
    then obtain f where f: "(f, p) \<in> set aborted" "base_at lg n < f" "f \<le> base_at lg (Suc n)" by auto
    then obtain i where i: "i < length lg" "base_at lg i = f"
      using assms(1) unfolding aborted_sound_def by fast
    then have "i = Suc n"
      using f base_less_iff(1) [OF assms(2) _ i(1), of n] base_less_iff(1) [OF assms(2,3) i(1)] assms(3)
      by auto
    then show ?thesis using f(1) i unfolding open_at_def marked_def by fastforce
  qed
next
  fix p
  assume "p \<in> open_at lg aborted (Suc n)"
  then obtain i where i: "i \<le> Suc n" "i < length lg" "(base_at lg i, p) \<in> set aborted"
    "\<not> marked lg p i (Suc n)"
    unfolding open_at_def by blast
  show "p \<in> ?A - ?C \<union> ?B"
  proof (cases "i = Suc n")
    case True
    then show ?thesis using i(3) base_less_iff(1) [OF assms(2) _ assms(3), of n] assms(3) by auto
  next
    case False
    then have le: "i \<le> n" using i(1) by simp
    then have m: "\<not> marked lg p i n"
      "\<not> (i < n \<and> wb_is_control_batch (fst (lg ! n)) \<and> wb_producer_id (fst (lg ! n)) = p)"
      using i(4) marked_Suc [OF le] by blast+
    obtain i' where i': "i' < length lg" "base_at lg i' = base_at lg i" "txn_data lg i' p"
      using i(3) assms(1) unfolding aborted_sound_def by fast
    then have "txn_data lg i p" using base_less_iff(2) [OF assms(2) i'(1) i(2)] by simp
    then have "p \<notin> ?C" using m(2) le by (cases "i = n") (auto simp: txn_data_def split: if_splits)
    then show ?thesis using le i(2,3) m(1) unfolding open_at_def by blast
  qed
qed

lemma start_aborted_at:
  assumes seg: "aborted_sound lg start aborted" "log_wf lg" "start \<le> n" "n < length lg"
    and inv: "decoder_inv ReadCommitted key fetch_floor lg aborted start n (q, pids, records)"
  shows "start_aborted (base_at lg n) q pids
    = (filter (\<lambda>(f, _). base_at lg n < f) (sort aborted), open_at lg aborted n)"
proof (cases "n = start")
  case True
  then show ?thesis
    using inv open_at_start [OF _ seg(2,4)] seg(1)
    by (simp add: decoder_inv_def start_aborted_sorted)
next
  case False
  then obtain m where m: "n = Suc m" using seg(3) by (cases n) auto
  have q: "q = filter (\<lambda>(f, _). base_at lg m < f) (sort aborted)"
    and p: "pids = open_at lg aborted m - (if wb_is_control_batch (fst (lg ! m))
           then {wb_producer_id (fst (lg ! m))} else {})"
    using inv m False by (simp_all add: decoder_inv_def)
  have "base_at lg m < base_at lg n"
    using base_less_iff(1) [OF seg(2) _ seg(4), of m] m seg(4) by simp
  then have "filter (\<lambda>(f, _). base_at lg n < f) q = filter (\<lambda>(f, _). base_at lg n < f) (sort aborted)"
    unfolding q by (auto intro!: filter_cong)
  moreover have "sorted q"
    unfolding q by (rule sorted_filter [of id, simplified]) simp
  moreover have "pids \<union> {p. \<exists>f. (f, p) \<in> set q \<and> f \<le> base_at lg n} = open_at lg aborted n"
    using open_at_Suc [OF seg(1,2), of m] seg(4) unfolding m p q by blast
  ultimately show ?thesis by (simp add: start_aborted_sorted)
qed

lemma committed_iff:
  assumes "fetched_range ReadCommitted lg off start stop aborted" "log_wf lg"
    and "start \<le> n" "n < stop" "txn_data lg n pid"
  shows "next_marker pid (drop (Suc n) lg) = Some False \<longleftrightarrow> pid \<notin> open_at lg aborted n"
proof -
  have "next_marker pid (drop (Suc n) lg) \<noteq> None"
    using assms(1,3-5) unfolding fetched_range_def txns_decided_def by blast
  then show ?thesis
    using open_at_aborted [OF assms] by (cases "next_marker pid (drop (Suc n) lg)") auto
qed

lemma decoded_at_committed:
  assumes "fetched_range ReadCommitted lg off start stop aborted" "log_wf lg" "start \<le> n" "n < stop"
    and "b = fst (lg ! n)"
  shows "decoded_at ReadCommitted key fetch_floor lg n =
    (if wb_is_control_batch b \<or> wb_is_transactional b \<and> wb_producer_id b \<in> open_at lg aborted n then []
     else filter (\<lambda>r. fetch_floor \<le> cr_offset r)
            (map (consumer_record_of (fst key) (snd key) b) (wb_records b)))"
proof (cases "txn_data lg n (wb_producer_id b)")
  case True
  then show ?thesis
    using committed_iff [OF assms(1-4) True] assms(5)
    by (simp add: decoded_at_def visible_at_def batch_visible_def txn_data_def)
next
  case False
  then show ?thesis
    using assms(5) by (simp add: decoded_at_def visible_at_def batch_visible_def txn_data_def)
qed

lemma decode_batch_step:
  assumes seg: "fetched_range isolation lg off start stop aborted" "log_wf lg" "start \<le> n" "n < stop"
    and inv: "decoder_inv isolation key fetch_floor lg aborted start n st"
  shows "decoder_inv isolation key fetch_floor lg aborted start (Suc n)
     (decode_batch (is_read_committed isolation) fetch_floor (fst key) (snd key) (fst (lg ! n)) st)"
proof -
  obtain q pids records where st: "st = (q, pids, records)" by (cases st)
  define b where "b = fst (lg ! n)"
  have n: "n < length lg" using seg by (simp add: fetched_range_def)
  have recs: "records = concat (map (decoded_at isolation key fetch_floor lg) [start..<n])"
    using inv by (simp add: decoder_inv_def st)
  have new: "map (consumer_record_of (fst key) (snd key) b)
      (filter (\<lambda>r. \<not> record_offset (wb_base_offset b) (wr_offset_delta r) < fetch_floor) (wb_records b))
    = filter (\<lambda>r. fetch_floor \<le> cr_offset r)
        (map (consumer_record_of (fst key) (snd key) b) (wb_records b))"
    by (simp add: filter_map o_def record_offset_def not_less)
  show ?thesis
  proof (cases isolation)
    case ReadUncommitted
    then have "decoded_at isolation key fetch_floor lg n
      = (if wb_is_control_batch b then [] else filter (\<lambda>r. fetch_floor \<le> cr_offset r)
           (map (consumer_record_of (fst key) (snd key) b) (wb_records b)))"
      by (simp add: decoded_at_def visible_at_def batch_visible_def b_def)
    then show ?thesis
      using recs new seg(3) ReadUncommitted unfolding b_def [symmetric]
      by (simp add: decoder_inv_def st decode_batch_def is_read_committed_def
          should_drop_aborted_batch_def)
  next
    case ReadCommitted
    have "aborted_sound lg start aborted" using seg(1) ReadCommitted by (simp add: fetched_range_def)
    note start = start_aborted_at [OF this seg(2,3) n inv [unfolded st ReadCommitted], folded b_def]
      and vis = decoded_at_committed [OF seg(1) [unfolded ReadCommitted] seg(2-4) b_def, of key fetch_floor]
    show ?thesis
      using recs new vis start seg(3) ReadCommitted unfolding b_def [symmetric]
      by (simp add: decoder_inv_def st decode_batch_def is_read_committed_def
          should_drop_aborted_batch_def b_def [symmetric])
  qed
qed

lemma decode_batches:
  assumes "fetched_range isolation lg off start stop aborted" "log_wf lg" "k \<le> stop - start"
  shows "decoder_inv isolation key fetch_floor lg aborted start (start + k)
     (fold (decode_batch (is_read_committed isolation) fetch_floor (fst key) (snd key))
        (map fst (take k (drop start lg)))
        (if is_read_committed isolation then sort aborted else [], {}, []))"
  using assms(3)
proof (induction k)
  case 0
  then show ?case by (auto simp: decoder_inv_def is_read_committed_def)
next
  case (Suc k)
  have "start + k < length lg" using Suc.prems fetched_rangeD(1,2) [OF assms(1)] by linarith
  then have "take (Suc k) (drop start lg) = take k (drop start lg) @ [lg ! (start + k)]"
    by (simp add: take_Suc_conv_app_nth)
  then show ?case
    using decode_batch_step [OF assms(1,2), of "start + k"] Suc by simp
qed

lemma visible_eq: "visible isolation key lg = concat (map (visible_at isolation key lg) [0..<length lg])"
proof (induction lg)
  case (Cons e lg)
  have "[0..<length (e # lg)] = 0 # map Suc [0..<length lg]"
    by (simp add: upt_conv_Cons map_Suc_upt del: upt_Suc)
  moreover have "visible_at isolation key (e # lg) (Suc n) = visible_at isolation key lg n" for n
    by (simp add: visible_at_def)
  ultimately show ?case
    using Cons by (cases e) (simp add: visible_at_def o_def del: upt_Suc)
qed simp

lemma visible_at_offsets:
  assumes "log_wf lg" "n < length lg" "r \<in> set (visible_at isolation key lg n)"
  shows "base_at lg n \<le> cr_offset r" "cr_offset r < batch_end (fst (lg ! n))"
    "cr_topic r = fst key" "cr_partition r = snd key"
proof -
  obtain w where w: "w \<in> set (wb_records (fst (lg ! n)))"
    "r = consumer_record_of (fst key) (snd key) (fst (lg ! n)) w"
    using assms(3) unfolding visible_at_def
    by (cases "batch_visible isolation (fst (lg ! n)) (drop (Suc n) lg)") auto
  have "0 \<le> wr_offset_delta w \<and> wr_offset_delta w \<le> wb_last_offset_delta (fst (lg ! n))"
    using log_wf_nth(1) [OF assms(1,2)] w(1) unfolding batch_wf_def by blast
  then show "base_at lg n \<le> cr_offset r" "cr_offset r < batch_end (fst (lg ! n))"
    unfolding w(2) batch_end_def by simp_all
  show "cr_topic r = fst key" "cr_partition r = snd key"
    unfolding w(2) by simp_all
qed

lemma batch_end_mono:
  assumes "log_wf lg" "i \<le> j" "j < length lg"
  shows "batch_end (fst (lg ! i)) \<le> batch_end (fst (lg ! j))"
proof (cases "i = j")
  case False
  then show ?thesis
    using log_wf_order [OF assms(1), of i j] log_wf_nth(2) [OF assms(1,3)] assms(2,3) by simp
qed simp

lemma map_fst_range:
  assumes "start \<le> stop" "stop \<le> length lg"
  shows "map fst (take (stop - start) (drop start lg)) = map (\<lambda>i. fst (lg ! i)) [start..<stop]"
  by (rule nth_equalityI) (use assms in simp_all)

lemma next_offset_range:
  assumes "log_wf lg" "start < stop" "stop \<le> length lg"
  shows "next_offset_after (map fst (take (stop - start) (drop start lg)))
    = Some (batch_end (fst (lg ! (stop - 1))))"
proof -
  have "Max ((\<lambda>i. batch_end (fst (lg ! i))) ` {start..<stop}) = batch_end (fst (lg ! (stop - 1)))"
  proof (rule Max_eqI)
    fix e
    assume "e \<in> (\<lambda>i. batch_end (fst (lg ! i))) ` {start..<stop}"
    then obtain i where "i < stop" "e = batch_end (fst (lg ! i))" by force
    then show "e \<le> batch_end (fst (lg ! (stop - 1)))"
      using batch_end_mono [OF assms(1), of i "stop - 1"] assms(3) by simp
  next
    show "batch_end (fst (lg ! (stop - 1))) \<in> (\<lambda>i. batch_end (fst (lg ! i))) ` {start..<stop}"
      by (rule image_eqI [OF refl]) (use assms(2) in simp)
  qed simp
  moreover have "set (map batch_end (map (\<lambda>i. fst (lg ! i)) [start..<stop]))
      = (\<lambda>i. batch_end (fst (lg ! i))) ` {start..<stop}"
    by (simp add: image_image)
  ultimately show ?thesis
    unfolding map_fst_range [OF less_imp_le [OF assms(2)] assms(3)] next_offset_after_def
    using assms(2) by (simp only: map_is_Nil_conv upt_eq_Nil_conv) simp
qed

lemma concat_map_filter: "filter P (concat xss) = concat (map (filter P) xss)"
  by (induction xss) auto

lemma decoded_between:
  assumes "fetched_range isolation lg off start stop aborted" "log_wf lg" "start < stop"
  shows "concat (map (decoded_at isolation key off lg) [start..<stop])
    = visible_between isolation key lg off (batch_end (fst (lg ! (stop - 1))))"
proof -
  let ?e = "batch_end (fst (lg ! (stop - 1)))"
  let ?P = "\<lambda>r. off \<le> cr_offset r \<and> cr_offset r < ?e"
  have stop: "stop \<le> length lg" using assms(1) by (simp add: fetched_range_def)
  have before: "filter ?P (visible_at isolation key lg n) = []" if "n < start" for n
  proof -
    have e: "batch_end (fst (lg ! n)) \<le> off" and n: "n < length lg"
      using that assms(3) stop fetched_rangeD(3) [OF assms(1)] by auto
    have "\<not> off \<le> cr_offset r" if "r \<in> set (visible_at isolation key lg n)" for r
      using visible_at_offsets(2) [OF assms(2) n that] e by simp
    then show ?thesis by (auto simp: filter_empty_conv)
  qed
  have inside: "filter ?P (visible_at isolation key lg n) = decoded_at isolation key off lg n"
    if "start \<le> n" "n < stop" for n
  proof -
    have "n < length lg" using that stop by simp
    moreover have "batch_end (fst (lg ! n)) \<le> ?e"
      using batch_end_mono [OF assms(2), of n "stop - 1"] that stop by simp
    ultimately show ?thesis
      using visible_at_offsets(2) [OF assms(2)] unfolding decoded_at_def
      by (intro filter_cong refl) fastforce
  qed
  have after: "filter ?P (visible_at isolation key lg n) = []" if "stop \<le> n" "n < length lg" for n
  proof -
    have "?e \<le> base_at lg n" using log_wf_order [OF assms(2), of "stop - 1" n] that assms(3) by simp
    then have "\<not> cr_offset r < ?e" if "r \<in> set (visible_at isolation key lg n)" for r
      using visible_at_offsets(1) [OF assms(2) \<open>n < length lg\<close> that] by simp
    then show ?thesis by (auto simp: filter_empty_conv)
  qed
  have split: "[0..<length lg] = [0..<start] @ [start..<stop] @ [stop..<length lg]"
    using assms(3) stop upt_add_eq_append [of 0 start "stop - start"]
      upt_add_eq_append [of 0 stop "length lg - stop"] by simp
  have "concat (map (\<lambda>n. filter ?P (visible_at isolation key lg n)) [0..<start]) = []"
    "concat (map (\<lambda>n. filter ?P (visible_at isolation key lg n)) [stop..<length lg]) = []"
    using before after by simp_all
  moreover have "map (\<lambda>n. filter ?P (visible_at isolation key lg n)) [start..<stop]
      = map (decoded_at isolation key off lg) [start..<stop]"
    using inside by simp
  ultimately show ?thesis
    unfolding visible_between_def visible_eq concat_map_filter map_map o_def
    unfolding split map_append concat_append
    by (simp only: append_Nil append_Nil2)
qed

lemma process_partition_records_visible:
  assumes "process_partition_records isolation offsets key (fst key) part = Some bp"
    and "fetched_part isolation lg off part" "log_wf lg"
    and "pd_partition_index part = snd key" "map_of offsets key = Some off \<or> map_of offsets key = None \<and> off = 0"
  shows "bp_key bp = key" "bp_position bp = off" "off < bp_next_offset bp"
    "bp_records bp = visible_between isolation key lg off (bp_next_offset bp)"
proof -
  obtain batches where b: "pd_records part = V2 batches"
    using assms(1) by (cases "pd_records part") (auto simp: process_partition_records_def)
  let ?a = "case pd_aborted_transactions part of None \<Rightarrow> [] | Some a \<Rightarrow> a"
  obtain start stop where seg: "batches = map fst (take (stop - start) (drop start lg))"
    "fetched_range isolation lg off start stop ?a"
    using assms(2) b unfolding fetched_part_def by blast
  have "batches \<noteq> []"
  proof
    assume "batches = []"
    then have "process_partition_records isolation offsets key (fst key) part = None"
      by (simp add: process_partition_records_def b next_offset_after_def Let_def)
    then show False using assms(1) by simp
  qed
  then have ne: "start < stop" using seg(1) by auto
  have stop: "stop \<le> length lg" using seg(2) by (simp add: fetched_range_def)
  note inv = decode_batches [OF seg(2) assms(3) order_refl, of key off, folded seg(1)]
  have floor: "(case map_of offsets key of None \<Rightarrow> 0 | Some n \<Rightarrow> n) = off" using assms(5) by auto
  obtain q pids records where f: "fold (decode_batch (is_read_committed isolation) off (fst key) (snd key)) batches
      (if is_read_committed isolation then sort ?a else [], {}, []) = (q, pids, records)"
    by (metis prod_cases3)
  have recs: "records = visible_between isolation key lg off (batch_end (fst (lg ! (stop - 1))))"
    using inv decoded_between [OF seg(2) assms(3) ne] ne unfolding f decoder_inv_def by simp
  have bp: "bp_key bp = key \<and> bp_position bp = off \<and> bp_records bp = records
      \<and> bp_next_offset bp = batch_end (fst (lg ! (stop - 1)))"
    using assms(1) next_offset_range [OF assms(3) ne stop, folded seg(1)]
    by (simp add: process_partition_records_def b assms(4) Let_def floor f) auto
  then show "bp_key bp = key" "bp_position bp = off"
    "bp_records bp = visible_between isolation key lg off (bp_next_offset bp)"
    using recs by simp_all
  have "off < batch_end (fst (lg ! (stop - 1)))"
    using fetched_rangeD(4) [OF seg(2), of "stop - 1"] ne by simp
  then show "off < bp_next_offset bp" using bp by simp
qed

lemma process_partition_records_Some:
  assumes "pd_records part = V2 batches" "batches \<noteq> []"
  shows "\<exists>bp. process_partition_records isolation offsets key topic_name part = Some bp
    \<and> next_offset_after batches = Some (bp_next_offset bp)"
proof -
  let ?floor = "case map_of offsets key of None \<Rightarrow> 0 | Some n \<Rightarrow> n"
  let ?a = "if is_read_committed isolation
    then sort (case pd_aborted_transactions part of None \<Rightarrow> [] | Some a \<Rightarrow> a) else []"
  obtain q pids records where "fold (decode_batch (is_read_committed isolation) ?floor topic_name
      (pd_partition_index part)) batches (?a, {}, []) = (q, pids, records)"
    by (metis prod_cases3)
  then show ?thesis
    using assms by (simp add: process_partition_records_def next_offset_after_def Let_def)
qed

end
