(* ===== verification/Fetch_Buffer.thy ===== *)
theory Fetch_Buffer
  imports Fetch_Records
begin

text \<open>
  \<open>fetch_buffer.rs\<close> and the position type of \<open>position.rs\<close>: the records that \<open>poll\<close> fetched and did
  not return yet.  \<open>drain\<close> returns records and moves the consumed positions.  It works on a buffer
  that agrees with the logs: each entry holds the visible records between its position and its next
  offset.  Then the returned records of a partition are exactly the visible ones between the old and
  the new position.
\<close>

section \<open>Positions\<close>

text \<open>\<open>LeaderEpoch\<close> is its integer; \<open>-1\<close> is the unknown epoch.\<close>

record partition_position =
  pp_offset_epoch :: int
  pp_leader_id :: int
  pp_leader_epoch :: int
  pp_awaiting_validation :: bool

definition partition_position_default :: partition_position where
  "partition_position_default = \<lparr>pp_offset_epoch = -1, pp_leader_id = -1, pp_leader_epoch = -1,
     pp_awaiting_validation = False\<rparr>"

type_synonym next_offsets = "(topic_partition \<times> int) list"
type_synonym positions = "(topic_partition \<times> partition_position) list"

text \<open>\<open>map.entry(k).or_default()\<close> of a \<open>HashMap\<close>, followed by a change of the value.\<close>

definition hash_entry :: "'k \<Rightarrow> 'v \<Rightarrow> ('v \<Rightarrow> 'v) \<Rightarrow> ('k \<times> 'v) list \<Rightarrow> ('k \<times> 'v) list" where
  "hash_entry k d f m = AList.update k (f (case map_of m k of None \<Rightarrow> d | Some v \<Rightarrow> v)) m"

lemma map_of_hash_entry:
  "map_of (hash_entry k d f m) = (map_of m)(k \<mapsto> f (case map_of m k of None \<Rightarrow> d | Some v \<Rightarrow> v))"
  by (simp add: hash_entry_def update_conv')

section \<open>The buffer\<close>

type_synonym fetch_buffer = "buffered_partition list"

definition fetch_buffer_push :: "buffered_partition \<Rightarrow> fetch_buffer \<Rightarrow> fetch_buffer" where
  "fetch_buffer_push bp buf = buf @ [bp]"

text \<open>The inner loop: move records of one entry to the result while there is room.\<close>

fun pop_records ::
  "nat \<Rightarrow> consumer_record list \<Rightarrow> int \<Rightarrow> consumer_record list \<Rightarrow> int option
     \<Rightarrow> consumer_record list \<times> int \<times> consumer_record list \<times> int option" where
  "pop_records max_records out position [] epoch = (out, position, [], epoch)"
| "pop_records max_records out position (r # rs) epoch =
     (if length out < max_records
      then pop_records max_records (out @ [r]) (cr_offset r + 1) rs (Some (cr_leader_epoch r))
      else (out, position, r # rs, epoch))"

record drain_state =
  ds_out :: "consumer_record list"
  ds_paused_data :: fetch_buffer
  ds_offsets :: next_offsets
  ds_positions :: positions

definition drain_entry ::
  "nat \<Rightarrow> buffered_partition \<Rightarrow> drain_state \<Rightarrow> buffered_partition \<times> drain_state" where
  "drain_entry max_records bp s =
     (let (out, position, records, consumed_epoch) =
            pop_records max_records (ds_out s) (bp_position bp) (bp_records bp) None;
          complete = (records = []);
          position = (if complete then bp_next_offset bp else position);
          consumed_epoch = (if complete
            then (case bp_last_epoch bp of Some e \<Rightarrow> Some e | None \<Rightarrow> consumed_epoch)
            else consumed_epoch);
          offsets = (if complete \<or> consumed_epoch \<noteq> None
            then AList.update (bp_key bp) position (ds_offsets s) else ds_offsets s);
          positions = (case consumed_epoch of
              None \<Rightarrow> ds_positions s
            | Some epoch \<Rightarrow> hash_entry (bp_key bp) partition_position_default
                (\<lambda>p. p\<lparr>pp_offset_epoch := epoch\<rparr>) (ds_positions s))
      in (bp\<lparr>bp_position := position, bp_records := records\<rparr>,
          s\<lparr>ds_out := out, ds_offsets := offsets, ds_positions := positions\<rparr>))"

fun drain_loop ::
  "nat \<Rightarrow> topic_partition set \<Rightarrow> topic_partition set \<Rightarrow> fetch_buffer \<Rightarrow> drain_state
     \<Rightarrow> fetch_buffer \<times> drain_state" where
  "drain_loop max_records assigned paused [] s = ([], s)"
| "drain_loop max_records assigned paused (bp # buf) s =
     (if bp_key bp \<notin> assigned
         \<or> map_of (ds_offsets s) (bp_key bp) \<noteq> Some (bp_position bp)
      then drain_loop max_records assigned paused buf s
      else if bp_key bp \<in> paused
      then drain_loop max_records assigned paused buf
             (s\<lparr>ds_paused_data := ds_paused_data s @ [bp]\<rparr>)
      else let (bp, s) = drain_entry max_records bp s
           in if bp_records bp \<noteq> [] then (bp # buf, s)
              else if max_records \<le> length (ds_out s) then (buf, s)
              else drain_loop max_records assigned paused buf s)"

definition drain ::
  "nat \<Rightarrow> topic_partition set \<Rightarrow> topic_partition set \<Rightarrow> fetch_buffer \<Rightarrow> next_offsets \<Rightarrow> positions
     \<Rightarrow> consumer_record list \<times> fetch_buffer \<times> next_offsets \<times> positions" where
  "drain max_records assigned paused buf offsets positions =
     (let (buf, s) = drain_loop max_records assigned paused buf
            \<lparr>ds_out = [], ds_paused_data = [], ds_offsets = offsets, ds_positions = positions\<rparr>
      in (ds_out s, buf @ ds_paused_data s, ds_offsets s, ds_positions s))"

definition retain_topics :: "string set \<Rightarrow> fetch_buffer \<Rightarrow> fetch_buffer" where
  "retain_topics topics buf = filter (\<lambda>bp. fst (bp_key bp) \<in> topics) buf"

definition buffered_partitions :: "fetch_buffer \<Rightarrow> topic_partition set" where
  "buffered_partitions buf = set (map bp_key buf)"

section \<open>Intervals of visible records\<close>

abbreviation by_offset :: "consumer_record list \<Rightarrow> bool" where
  "by_offset rs \<equiv> sorted_wrt (\<lambda>r r'. cr_offset r < cr_offset r') rs"

lemma sorted_wrt_concat:
  assumes "\<And>n. n < m \<Longrightarrow> sorted_wrt P (f n)"
    and "\<And>i j x y. i < j \<Longrightarrow> j < m \<Longrightarrow> x \<in> set (f i) \<Longrightarrow> y \<in> set (f j) \<Longrightarrow> P x y"
  shows "sorted_wrt P (concat (map f [0..<m]))"
  using assms
proof (induction m)
  case (Suc m)
  have "sorted_wrt P (concat (map f [0..<m]))" by (rule Suc.IH) (use Suc.prems in auto)
  then show ?case using Suc.prems by (auto simp: sorted_wrt_append)
qed simp

lemma visible_by_offset:
  assumes "log_wf lg"
  shows "by_offset (visible isolation key lg)"
  unfolding visible_eq
proof (rule sorted_wrt_concat)
  fix n assume n: "n < length lg"
  have "sorted_wrt (\<lambda>r r'. wr_offset_delta r < wr_offset_delta r') (wb_records (fst (lg ! n)))"
    using log_wf_nth(1) [OF assms n] by (simp add: batch_wf_def)
  then show "by_offset (visible_at isolation key lg n)"
    unfolding visible_at_def by (simp add: sorted_wrt_map)
next
  fix i j x y
  assume a: "i < j" "j < length lg" "x \<in> set (visible_at isolation key lg i)"
    "y \<in> set (visible_at isolation key lg j)"
  have "cr_offset x < batch_end (fst (lg ! i))"
    by (rule visible_at_offsets(2) [OF assms _ a(3)]) (use a in simp)
  also have "\<dots> \<le> base_at lg j" by (rule log_wf_order [OF assms a(1,2)])
  also have "\<dots> \<le> cr_offset y" by (rule visible_at_offsets(1) [OF assms a(2,4)])
  finally show "cr_offset x < cr_offset y" .
qed

lemma filter_between_append:
  assumes "by_offset rs" "lo \<le> mid" "mid \<le> hi"
  shows "filter (\<lambda>r. lo \<le> cr_offset r \<and> cr_offset r < mid) rs
      @ filter (\<lambda>r. mid \<le> cr_offset r \<and> cr_offset r < hi) rs
    = filter (\<lambda>r. lo \<le> cr_offset r \<and> cr_offset r < hi) rs"
  using assms(1)
proof (induction rs)
  case (Cons r rs)
  then have IH: "filter (\<lambda>r. lo \<le> cr_offset r \<and> cr_offset r < mid) rs
      @ filter (\<lambda>r. mid \<le> cr_offset r \<and> cr_offset r < hi) rs
    = filter (\<lambda>r. lo \<le> cr_offset r \<and> cr_offset r < hi) rs" by simp
  show ?case
  proof (cases "mid \<le> cr_offset r")
    case True
    then have "filter (\<lambda>r. lo \<le> cr_offset r \<and> cr_offset r < mid) rs = []"
      using Cons.prems by (force simp: filter_empty_conv)
    then show ?thesis using True IH assms(2) by simp
  next
    case False
    then show ?thesis using IH assms(3) by auto
  qed
qed simp

lemma visible_between_append:
  "log_wf lg \<Longrightarrow> lo \<le> mid \<Longrightarrow> mid \<le> hi \<Longrightarrow>
     visible_between isolation key lg lo mid @ visible_between isolation key lg mid hi
       = visible_between isolation key lg lo hi"
  unfolding visible_between_def by (rule filter_between_append [OF visible_by_offset])

lemma visible_between_same [simp]: "visible_between isolation key lg lo lo = []"
  by (simp add: visible_between_def)

lemma visible_between_facts:
  assumes "log_wf lg"
  shows "by_offset (visible_between isolation key lg lo hi)"
    and "r \<in> set (visible_between isolation key lg lo hi) \<Longrightarrow> lo \<le> cr_offset r \<and> cr_offset r < hi"
    and "r \<in> set (visible_between isolation key lg lo hi) \<Longrightarrow> (cr_topic r, cr_partition r) = key"
proof -
  show "by_offset (visible_between isolation key lg lo hi)"
    unfolding visible_between_def by (rule sorted_wrt_filter [OF visible_by_offset [OF assms]])
  show "r \<in> set (visible_between isolation key lg lo hi) \<Longrightarrow> lo \<le> cr_offset r \<and> cr_offset r < hi"
    by (simp add: visible_between_def)
  assume "r \<in> set (visible_between isolation key lg lo hi)"
  then obtain n where "n < length lg" "r \<in> set (visible_at isolation key lg n)"
    unfolding visible_between_def visible_eq by auto
  then show "(cr_topic r, cr_partition r) = key" using visible_at_offsets(3,4) [OF assms] by simp
qed

text \<open>A cut inside the visible records of an interval is a cut of the interval.\<close>

lemma visible_between_cut:
  assumes "log_wf lg" "visible_between isolation key lg lo hi = xs @ ys" "xs \<noteq> []"
  shows "lo < cr_offset (last xs) + 1" "cr_offset (last xs) + 1 \<le> hi"
    "xs = visible_between isolation key lg lo (cr_offset (last xs) + 1)"
    "ys = visible_between isolation key lg (cr_offset (last xs) + 1) hi"
proof -
  let ?mid = "cr_offset (last xs) + 1"
  have last: "last xs \<in> set (visible_between isolation key lg lo hi)" using assms(2,3) by simp
  show lo: "lo < ?mid" and hi: "?mid \<le> hi" using visible_between_facts(2) [OF assms(1) last] by simp_all
  have sorted: "by_offset (xs @ ys)"
    using visible_between_facts(1) [OF assms(1), of isolation key lo hi] unfolding assms(2) .
  then have "by_offset xs" by (simp add: sorted_wrt_append)
  then have "by_offset (butlast xs @ [last xs])" using assms(3) by simp
  then have x: "cr_offset r < ?mid" if "r \<in> set (butlast xs @ [last xs])" for r
    using that by (auto simp: sorted_wrt_append)
  have y: "?mid \<le> cr_offset r" if "r \<in> set ys" for r
  proof -
    have "cr_offset (last xs) < cr_offset r"
      using sorted that last_in_set [OF assms(3)] by (simp add: sorted_wrt_append)
    then show ?thesis by simp
  qed
  have split: "visible_between isolation key lg lo ?mid = filter (\<lambda>r. cr_offset r < ?mid) (xs @ ys)"
    "visible_between isolation key lg ?mid hi = filter (\<lambda>r. ?mid \<le> cr_offset r) (xs @ ys)"
    unfolding assms(2) [symmetric] unfolding visible_between_def filter_filter
    by (rule filter_cong [OF refl], use lo hi in linarith)+
  have "filter (\<lambda>r. cr_offset r < ?mid) xs = xs" "filter (\<lambda>r. cr_offset r < ?mid) ys = []"
    "filter (\<lambda>r. ?mid \<le> cr_offset r) xs = []" "filter (\<lambda>r. ?mid \<le> cr_offset r) ys = ys"
    using x [unfolded append_butlast_last_id [OF assms(3)]] y
    by (force simp: filter_id_conv filter_empty_conv)+
  then show "xs = visible_between isolation key lg lo ?mid" "ys = visible_between isolation key lg ?mid hi"
    unfolding split by simp_all
qed

section \<open>Draining\<close>

text \<open>An entry that agrees with the log of its partition.\<close>

definition entry_ok :: "isolation_level \<Rightarrow> (topic_partition \<Rightarrow> log) \<Rightarrow> buffered_partition \<Rightarrow> bool" where
  "entry_ok isolation logs bp \<longleftrightarrow> bp_position bp \<le> bp_next_offset bp
     \<and> bp_records bp
         = visible_between isolation (bp_key bp) (logs (bp_key bp)) (bp_position bp) (bp_next_offset bp)"

definition logs_wf :: "(topic_partition \<Rightarrow> log) \<Rightarrow> bool" where
  "logs_wf logs \<longleftrightarrow> (\<forall>key. log_wf (logs key))"

lemma logs_wfD: "logs_wf logs \<Longrightarrow> log_wf (logs key)"
  unfolding logs_wf_def by blast

definition records_of :: "topic_partition \<Rightarrow> consumer_record list \<Rightarrow> consumer_record list" where
  "records_of key out = filter (\<lambda>r. (cr_topic r, cr_partition r) = key) out"

text \<open>
  The records \<open>out\<close> account for the way of the offsets: each position moved forward over exactly the
  visible records of its partition in \<open>out\<close>.
\<close>

definition advanced ::
  "isolation_level \<Rightarrow> (topic_partition \<Rightarrow> log) \<Rightarrow> next_offsets \<Rightarrow> next_offsets \<Rightarrow> consumer_record list \<Rightarrow> bool"
where
  "advanced isolation logs offsets offsets' out \<longleftrightarrow>
     (\<forall>key. case map_of offsets key of
        None \<Rightarrow> map_of offsets' key = None \<and> records_of key out = []
      | Some a \<Rightarrow> (\<exists>b. map_of offsets' key = Some b \<and> a \<le> b
          \<and> records_of key out = visible_between isolation key (logs key) a b))"

lemma records_of_simps [simp]:
  "records_of key [] = []" "records_of key (xs @ ys) = records_of key xs @ records_of key ys"
  by (simp_all add: records_of_def)

lemma records_of_visible:
  assumes "log_wf lg"
  shows "records_of key (visible_between isolation key' lg lo hi)
    = (if key = key' then visible_between isolation key' lg lo hi else [])"
  using visible_between_facts(3) [OF assms]
  by (auto simp: records_of_def filter_id_conv filter_empty_conv)

lemma advanced_refl: "advanced isolation logs offsets offsets []"
  by (auto simp: advanced_def split: option.splits)

lemma advanced_None:
  assumes "advanced isolation logs offsets offsets' out" "map_of offsets key = None"
  shows "map_of offsets' key = None" "records_of key out = []"
  using assms(1) [unfolded advanced_def, rule_format, of key] assms(2) by simp_all

lemma advanced_Some:
  assumes "advanced isolation logs offsets offsets' out" "map_of offsets key = Some a"
  obtains b where "map_of offsets' key = Some b" "a \<le> b"
    "records_of key out = visible_between isolation key (logs key) a b"
  using assms(1) [unfolded advanced_def, rule_format, of key] assms(2) by auto

lemma advanced_trans:
  assumes "logs_wf logs"
    and "advanced isolation logs o1 o2 xs" "advanced isolation logs o2 o3 ys"
  shows "advanced isolation logs o1 o3 (xs @ ys)"
  unfolding advanced_def
proof
  fix key
  show "case map_of o1 key of
      None \<Rightarrow> map_of o3 key = None \<and> records_of key (xs @ ys) = []
    | Some a \<Rightarrow> (\<exists>b. map_of o3 key = Some b \<and> a \<le> b
        \<and> records_of key (xs @ ys) = visible_between isolation key (logs key) a b)"
  proof (cases "map_of o1 key")
    case None
    then show ?thesis
      using advanced_None [OF assms(2) None] advanced_None [OF assms(3), of key] by simp
  next
    case (Some a)
    obtain b where b: "map_of o2 key = Some b" "a \<le> b"
      "records_of key xs = visible_between isolation key (logs key) a b"
      by (rule advanced_Some [OF assms(2) Some])
    obtain c where c: "map_of o3 key = Some c" "b \<le> c"
      "records_of key ys = visible_between isolation key (logs key) b c"
      by (rule advanced_Some [OF assms(3) b(1)])
    then show ?thesis
      using Some b c visible_between_append [OF logs_wfD [OF assms(1)] b(2) c(2)] by simp
  qed
qed

lemma advanced_update:
  assumes "log_wf (logs key)" "map_of offsets key = Some a" "a \<le> b"
    and "out = visible_between isolation key (logs key) a b"
  shows "advanced isolation logs offsets (AList.update key b offsets) out"
  using assms(2,3) unfolding advanced_def assms(4)
  by (auto simp: update_conv' records_of_visible [OF assms(1)] split: option.splits)

lemma pop_records_split:
  assumes "pop_records m out position rs epoch = (out', position', rs', epoch')"
  shows "\<exists>xs. rs = xs @ rs' \<and> out' = out @ xs
    \<and> (xs = [] \<longrightarrow> position' = position \<and> epoch' = epoch)
    \<and> (xs \<noteq> [] \<longrightarrow> position' = cr_offset (last xs) + 1 \<and> epoch' \<noteq> None)
    \<and> (length out \<le> m \<longrightarrow> length out' \<le> m)"
  using assms
proof (induction m out position rs epoch rule: pop_records.induct)
  case (2 m out position r rs epoch)
  show ?case
  proof (cases "length out < m")
    case True
    then obtain xs where "rs = xs @ rs'" "out' = (out @ [r]) @ xs"
      "xs = [] \<longrightarrow> position' = cr_offset r + 1 \<and> epoch' = Some (cr_leader_epoch r)"
      "xs \<noteq> [] \<longrightarrow> position' = cr_offset (last xs) + 1 \<and> epoch' \<noteq> None"
      "length (out @ [r]) \<le> m \<longrightarrow> length out' \<le> m"
      using 2 by auto
    then show ?thesis using True by (intro exI [of _ "r # xs"]) auto
  next
    case False
    then show ?thesis using 2 by auto
  qed
qed auto

lemma drain_entry_advances:
  assumes wf: "logs_wf logs"
    and ok: "entry_ok isolation logs bp" "map_of (ds_offsets s) (bp_key bp) = Some (bp_position bp)"
    and step: "drain_entry m bp s = (bp', s')"
  shows "\<exists>new. ds_out s' = ds_out s @ new \<and> advanced isolation logs (ds_offsets s) (ds_offsets s') new"
    "entry_ok isolation logs bp'" "bp_key bp' = bp_key bp" "ds_paused_data s' = ds_paused_data s"
    "length (ds_out s) \<le> m \<Longrightarrow> length (ds_out s') \<le> m"
proof -
  note wf = logs_wfD [OF wf]
  obtain out position rs epoch where
    pop: "pop_records m (ds_out s) (bp_position bp) (bp_records bp) None = (out, position, rs, epoch)"
    by (metis prod_cases4)
  obtain xs where xs: "bp_records bp = xs @ rs" "out = ds_out s @ xs"
    "xs = [] \<longrightarrow> position = bp_position bp \<and> epoch = None"
    "xs \<noteq> [] \<longrightarrow> position = cr_offset (last xs) + 1 \<and> epoch \<noteq> None"
    "length (ds_out s) \<le> m \<longrightarrow> length out \<le> m"
    using pop_records_split [OF pop] by blast
  let ?key = "bp_key bp"
  have vis: "visible_between isolation ?key (logs ?key) (bp_position bp) (bp_next_offset bp) = xs @ rs"
    using ok(1) xs(1) by (simp add: entry_ok_def)
  note step' = step [unfolded drain_entry_def pop, simplified]
  show "bp_key bp' = bp_key bp" "ds_paused_data s' = ds_paused_data s"
    using step' by (auto simp: Let_def)
  have out: "ds_out s' = ds_out s @ xs" using step' xs(2) by (auto simp: Let_def)
  then show "length (ds_out s) \<le> m \<Longrightarrow> length (ds_out s') \<le> m" using xs(2,5) by simp
  have "advanced isolation logs (ds_offsets s) (ds_offsets s') xs \<and> entry_ok isolation logs bp'"
  proof (cases "rs = []")
    case True
    then have "advanced isolation logs (ds_offsets s) (AList.update ?key (bp_next_offset bp) (ds_offsets s)) xs"
      using vis ok by (intro advanced_update [OF wf]) (auto simp: entry_ok_def)
    then show ?thesis using step' True by (auto simp: Let_def entry_ok_def)
  next
    case False
    show ?thesis
    proof (cases "xs = []")
      case True
      then show ?thesis
        using step' False xs(1,3) ok advanced_refl by (auto simp: Let_def entry_ok_def)
    next
      case ne: False
      note cut = visible_between_cut [OF wf vis ne]
      have "advanced isolation logs (ds_offsets s) (AList.update ?key (cr_offset (last xs) + 1) (ds_offsets s)) xs"
        using cut(1,3) ok(2) by (intro advanced_update [OF wf]) auto
      then show ?thesis
        using step' False ne xs(4) cut(2,4) by (auto simp: Let_def entry_ok_def)
    qed
  qed
  then show "\<exists>new. ds_out s' = ds_out s @ new \<and> advanced isolation logs (ds_offsets s) (ds_offsets s') new"
    "entry_ok isolation logs bp'"
    using out by blast+
qed

lemma drain_loop_advances:
  assumes wf: "logs_wf logs"
    and "\<forall>bp\<in>set buf. entry_ok isolation logs bp" "\<forall>bp\<in>set (ds_paused_data s). entry_ok isolation logs bp"
    and "drain_loop m assigned paused buf s = (buf', s')"
  shows "(\<exists>new. ds_out s' = ds_out s @ new \<and> advanced isolation logs (ds_offsets s) (ds_offsets s') new)
    \<and> (\<forall>bp\<in>set buf'. entry_ok isolation logs bp) \<and> (\<forall>bp\<in>set (ds_paused_data s'). entry_ok isolation logs bp)
    \<and> (length (ds_out s) \<le> m \<longrightarrow> length (ds_out s') \<le> m)"
  using assms(2-)
proof (induction m assigned paused buf s arbitrary: buf' s' rule: drain_loop.induct)
  case (1 m assigned paused s)
  then show ?case using advanced_refl by auto
next
  case (2 m assigned paused bp buf s)
  consider (stale) "bp_key bp \<notin> assigned \<or> map_of (ds_offsets s) (bp_key bp) \<noteq> Some (bp_position bp)"
    | (kept) "bp_key bp \<in> assigned" "map_of (ds_offsets s) (bp_key bp) = Some (bp_position bp)"
        "bp_key bp \<in> paused"
    | (live) "bp_key bp \<in> assigned" "map_of (ds_offsets s) (bp_key bp) = Some (bp_position bp)"
        "bp_key bp \<notin> paused"
    by blast
  then show ?case
  proof cases
    case stale
    then show ?thesis using "2.IH"(1) "2.prems" by simp
  next
    case kept
    then show ?thesis
      using "2.IH"(2) [of buf' s'] "2.prems" by simp
  next
    case live
    obtain bp1 s1 where e: "drain_entry m bp s = (bp1, s1)" by (cases "drain_entry m bp s")
    note adv = drain_entry_advances [OF wf _ live(2) e]
    have ok: "entry_ok isolation logs bp" using "2.prems"(1) by simp
    obtain new where new: "ds_out s1 = ds_out s @ new"
      "advanced isolation logs (ds_offsets s) (ds_offsets s1) new"
      using adv(1) [OF ok] by blast
    show ?thesis
    proof (cases "bp_records bp1 \<noteq> [] \<or> m \<le> length (ds_out s1)")
      case True
      then have "s' = s1" "set buf' \<subseteq> insert bp1 (set buf)"
        using "2.prems"(3) live e by (auto split: if_splits)
      then show ?thesis using new adv(2,4,5) [OF ok] "2.prems"(1,2) by auto
    next
      case False
      then have "drain_loop m assigned paused buf s1 = (buf', s')"
        using "2.prems"(3) live e by simp
      then have IH: "(\<exists>new. ds_out s' = ds_out s1 @ new \<and> advanced isolation logs (ds_offsets s1) (ds_offsets s') new)
        \<and> (\<forall>bp\<in>set buf'. entry_ok isolation logs bp) \<and> (\<forall>bp\<in>set (ds_paused_data s'). entry_ok isolation logs bp)
        \<and> (length (ds_out s1) \<le> m \<longrightarrow> length (ds_out s') \<le> m)"
        using "2.IH"(3) [OF _ _ e [symmetric]] live False "2.prems"(1,2) adv(4) [OF ok] by simp
      then obtain new' where "ds_out s' = ds_out s1 @ new'"
        "advanced isolation logs (ds_offsets s1) (ds_offsets s') new'" by blast
      then have "ds_out s' = ds_out s @ (new @ new')
          \<and> advanced isolation logs (ds_offsets s) (ds_offsets s') (new @ new')"
        using new advanced_trans [OF wf] by simp
      then show ?thesis using IH adv(5) [OF ok] by blast
    qed
  qed
qed

lemma drain_advances:
  assumes "logs_wf logs" "\<forall>bp\<in>set buf. entry_ok isolation logs bp"
    and "drain m assigned paused buf offsets positions = (out, buf', offsets', positions')"
  shows "advanced isolation logs offsets offsets' out" "\<forall>bp\<in>set buf'. entry_ok isolation logs bp"
    "length out \<le> m"
proof -
  let ?s = "\<lparr>ds_out = [], ds_paused_data = [], ds_offsets = offsets, ds_positions = positions\<rparr>"
  obtain b s where l: "drain_loop m assigned paused buf ?s = (b, s)" by (cases "drain_loop m assigned paused buf ?s")
  have "out = ds_out s" "buf' = b @ ds_paused_data s" "offsets' = ds_offsets s"
    using assms(3) unfolding drain_def l by simp_all
  then show "advanced isolation logs offsets offsets' out" "\<forall>bp\<in>set buf'. entry_ok isolation logs bp"
    "length out \<le> m"
    using drain_loop_advances [OF assms(1,2) _ l] by auto
qed

end
