(* ===== verification/Consumer_State.thy ===== *)
theory Consumer_State
  imports Fetch_Buffer
begin

text \<open>
  The state of a consumer that the fetch path reads and changes, with the calls of the application
  on it: \<open>seek.rs\<close>, the pauses and positions of \<open>partition_state.rs\<close>, and the subscription.
  A mutex is a field; a call that holds several locks is one function.  The \<open>is_known\<close> test of
  \<open>LeaderEpoch\<close> and the broker registry of the client (\<open>knows_broker\<close>) come from other crates and
  are arguments.
\<close>

section \<open>The state\<close>

datatype auto_offset_reset = Earliest | Latest | ResetNone | ByDuration nat

record subscription =
  sub_topics :: "string list"
  sub_pattern :: "(string \<Rightarrow> bool) option"
  sub_regex :: "string option"
  sub_exclude_internal_topics :: bool
  sub_unsubscribes :: nat
  sub_version :: nat
  sub_manual_assignment :: bool

definition subscription_is_none :: "subscription \<Rightarrow> bool" where
  "subscription_is_none s \<longleftrightarrow> sub_topics s = [] \<and> sub_pattern s = None \<and> sub_regex s = None"

text \<open>The binary search in the sorted topics.\<close>

definition subscription_contains :: "subscription \<Rightarrow> string \<Rightarrow> bool" where
  "subscription_contains s topic \<longleftrightarrow> topic \<in> set (sub_topics s)"

record topic_response =
  tr_topic :: string
  tr_topic_id :: uuid
  tr_partitions :: "partition_data list"

record fetch_response =
  fr_error_code :: int
  fr_session_id :: int
  fr_throttle_time_ms :: int
  fr_responses :: "topic_response list"

text \<open>
  What a fetch task sends: an error or a response.  \<open>None\<close> is a task that ended without a result.
\<close>

type_synonym fetch_result = "(client_error + fetch_response) option"

text \<open>
  A fetch in flight.  \<open>if_request\<close> is the session request that its task sends, \<open>if_result\<close> the
  result channel, empty while it is \<open>None\<close>.
\<close>

record in_flight_fetch =
  if_request :: session_request
  if_result :: "fetch_result option"
  if_requested :: "(topic_partition \<times> int) list"
  if_from_replica :: "topic_partition set"

record completed_fetch =
  cf_leader :: int
  cf_requested :: "(topic_partition \<times> int) list"
  cf_from_replica :: "topic_partition set"
  cf_result :: fetch_result

record fetches =
  fl_sessions :: "(int \<times> fetch_session) list"
  fl_in_flight :: "(int \<times> in_flight_fetch) list"
  fl_ready :: "completed_fetch list"
  fl_preferred_read_replicas :: "(topic_partition \<times> int \<times> nat) list"

record consumed_position =
  cp_offset :: int
  cp_leader_epoch :: int
  cp_ownership_id :: nat

text \<open>\<open>co_polled\<close> are the positions of the auto commit, \<open>None\<close> without auto commit.\<close>

record consumer =
  co_subscription :: subscription
  co_assigned :: "topic_partition list"
  co_next_offsets :: next_offsets
  co_positions :: positions
  co_topic_ids :: "(string \<times> uuid) list"
  co_ownership_ids :: "(topic_partition \<times> nat) list"
  co_paused :: "(topic_partition \<times> nat) list"
  co_assigned_callback_pending :: "topic_partition set"
  co_fetch_buffer :: fetch_buffer
  co_fetches :: fetches
  co_end_offsets :: "(topic_partition \<times> int) list"
  co_polled :: "(topic_partition \<times> consumed_position) list option"
  co_update_requested :: bool
  co_isolation_level :: isolation_level
  co_auto_offset_reset :: auto_offset_reset
  co_max_poll_records :: nat
  co_fetch_partition_max :: int
  co_metadata_max_age :: nat

section \<open>Placeholders of a position\<close>

definition LATEST_SENTINEL :: int where
  "LATEST_SENTINEL = i64_max"

definition BEGINNING_SENTINEL :: int where
  "BEGINNING_SENTINEL = i64_max - 1"

definition END_SENTINEL :: int where
  "END_SENTINEL = i64_max - 2"

definition COMMITTED_SENTINEL :: int where
  "COMMITTED_SENTINEL = i64_max - 3"

definition NO_OFFSET_SENTINEL :: int where
  "NO_OFFSET_SENTINEL = i64_max - 4"

definition is_reset_sentinel :: "int \<Rightarrow> bool" where
  "is_reset_sentinel next_offset \<longleftrightarrow> NO_OFFSET_SENTINEL \<le> next_offset"

definition reset_starting_offset :: "auto_offset_reset \<Rightarrow> int" where
  "reset_starting_offset policy =
     (case policy of
        Earliest \<Rightarrow> BEGINNING_SENTINEL
      | Latest \<Rightarrow> LATEST_SENTINEL
      | ByDuration _ \<Rightarrow> LATEST_SENTINEL
      | ResetNone \<Rightarrow> NO_OFFSET_SENTINEL)"

section \<open>Pause and resume\<close>

definition no_current_assignment :: "topic_partition \<Rightarrow> consumer_error" where
  "no_current_assignment = (\<lambda>(topic, index). NoCurrentAssignment topic index)"

definition pause :: "topic_partition list \<Rightarrow> consumer \<Rightarrow> consumer_error + consumer" where
  "pause tps c =
     (case find (\<lambda>tp. map_of (co_ownership_ids c) tp = None) tps of
        Some tp \<Rightarrow> Inl (no_current_assignment tp)
      | None \<Rightarrow> Inr (c\<lparr>co_paused := fold (\<lambda>tp. AList.update tp (the (map_of (co_ownership_ids c) tp)))
                                tps (co_paused c)\<rparr>))"

definition resume :: "topic_partition list \<Rightarrow> consumer \<Rightarrow> consumer_error + consumer" where
  "resume tps c =
     (case find (\<lambda>tp. map_of (co_ownership_ids c) tp = None) tps of
        Some tp \<Rightarrow> Inl (no_current_assignment tp)
      | None \<Rightarrow> Inr (c\<lparr>co_paused := filter (\<lambda>(tp, _). tp \<notin> set tps) (co_paused c)\<rparr>))"

definition paused_of ::
  "(topic_partition \<times> nat) list \<Rightarrow> consumer \<Rightarrow> topic_partition set \<times> consumer" where
  "paused_of ownership_ids c =
     (let paused = filter (\<lambda>(tp, ownership_id). map_of ownership_ids tp = Some ownership_id) (co_paused c)
      in (fst ` set paused, c\<lparr>co_paused := paused\<rparr>))"

definition valid_position :: "topic_partition \<Rightarrow> consumer \<Rightarrow> int option" where
  "valid_position key c =
     (case map_of (co_next_offsets c) key of
        None \<Rightarrow> None
      | Some offset \<Rightarrow>
          (let awaiting_validation = (case map_of (co_positions c) key of
                 None \<Rightarrow> False | Some p \<Rightarrow> pp_awaiting_validation p)
           in if \<not> is_reset_sentinel offset \<and> \<not> awaiting_validation then Some offset else None))"

section \<open>Seek\<close>

definition seek_position :: "(int \<Rightarrow> bool) \<Rightarrow> int option \<Rightarrow> partition_position \<Rightarrow> partition_position" where
  "seek_position is_known leader_epoch p =
     (let offset_epoch = (case leader_epoch of None \<Rightarrow> -1 | Some e \<Rightarrow> e)
      in p\<lparr>pp_offset_epoch := offset_epoch,
           pp_awaiting_validation := is_known offset_epoch \<and> is_known (pp_leader_epoch p)\<rparr>)"

definition seek_to_position ::
  "(int \<Rightarrow> bool) \<Rightarrow> topic_partition \<Rightarrow> int \<Rightarrow> int option \<Rightarrow> consumer \<Rightarrow> consumer_error + consumer" where
  "seek_to_position is_known key offset leader_epoch c =
     (if offset < 0 then Inl (InvalidOffset offset)
      else if key \<notin> set (co_assigned c) then Inl (no_current_assignment key)
      else Inr (c\<lparr>co_next_offsets := AList.update key offset (co_next_offsets c),
                 co_positions := hash_entry key partition_position_default
                   (seek_position is_known leader_epoch) (co_positions c)\<rparr>))"

definition seek :: "(int \<Rightarrow> bool) \<Rightarrow> topic_partition \<Rightarrow> int \<Rightarrow> consumer \<Rightarrow> consumer_error + consumer" where
  "seek is_known key offset = seek_to_position is_known key offset None"

definition seek_with_leader_epoch ::
  "(int \<Rightarrow> bool) \<Rightarrow> topic_partition \<Rightarrow> int \<Rightarrow> int \<Rightarrow> consumer \<Rightarrow> consumer_error + consumer" where
  "seek_with_leader_epoch is_known key offset leader_epoch =
     seek_to_position is_known key offset (Some leader_epoch)"

definition request_offset_reset ::
  "(int \<Rightarrow> bool) \<Rightarrow> topic_partition list \<Rightarrow> int \<Rightarrow> consumer \<Rightarrow> consumer_error + consumer" where
  "request_offset_reset is_known tps sentinel c =
     (let reset = (\<lambda>targets. c\<lparr>
            co_next_offsets := fold (\<lambda>key. AList.update key sentinel) targets (co_next_offsets c),
            co_positions := fold (\<lambda>key. hash_entry key partition_position_default
                (seek_position is_known None)) targets (co_positions c)\<rparr>)
      in if tps = [] then Inr (reset (co_assigned c))
         else case find (\<lambda>tp. tp \<notin> set (co_assigned c)) tps of
                Some tp \<Rightarrow> Inl (no_current_assignment tp)
              | None \<Rightarrow> Inr (reset tps))"

definition seek_to_beginning ::
  "(int \<Rightarrow> bool) \<Rightarrow> topic_partition list \<Rightarrow> consumer \<Rightarrow> consumer_error + consumer" where
  "seek_to_beginning is_known tps = request_offset_reset is_known tps BEGINNING_SENTINEL"

definition seek_to_end ::
  "(int \<Rightarrow> bool) \<Rightarrow> topic_partition list \<Rightarrow> consumer \<Rightarrow> consumer_error + consumer" where
  "seek_to_end is_known tps = request_offset_reset is_known tps END_SENTINEL"

end
