(* ===== verification/Consumer_Reset.thy ===== *)
theory Consumer_Reset
  imports Consumer_State
begin

text \<open>
  How a position without an offset gets one, in \<open>poll.rs\<close>, \<open>validate.rs\<close> and \<open>position.rs\<close>: offset
  resets with \<open>ListOffsets\<close>, committed offsets, recovery of positions out of range, and the
  validation of positions against the leader epochs of the log (KIP-320).  The answers of brokers
  are arguments.  Where the code releases its locks for a request, \<open>others\<close> is what other tasks
  change in the meantime.
\<close>

section \<open>Requests to leaders\<close>

abbreviation BOOTSTRAP_LEADER :: int where
  "BOOTSTRAP_LEADER \<equiv> -1"

abbreviation UNKNOWN_FETCH_OFFSET :: int where
  "UNKNOWN_FETCH_OFFSET \<equiv> -1"

abbreviation UNKNOWN_LEADER_ID :: int where
  "UNKNOWN_LEADER_ID \<equiv> -1"

abbreviation UNKNOWN_OFFSET :: int where
  "UNKNOWN_OFFSET \<equiv> -1"

abbreviation LATEST_TIMESTAMP :: int where
  "LATEST_TIMESTAMP \<equiv> -1"

abbreviation EARLIEST_TIMESTAMP :: int where
  "EARLIEST_TIMESTAMP \<equiv> -2"

definition fetch_leader_id :: "int \<Rightarrow> bool \<Rightarrow> int" where
  "fetch_leader_id leader_id knows_leader =
     (if 0 \<le> leader_id \<and> knows_leader then leader_id else BOOTSTRAP_LEADER)"

definition fetch_offset_or_unknown :: "next_offsets \<Rightarrow> topic_partition \<Rightarrow> int" where
  "fetch_offset_or_unknown offsets key =
     (case map_of offsets key of None \<Rightarrow> UNKNOWN_FETCH_OFFSET | Some n \<Rightarrow> n)"

definition is_transient_transport_error :: "client_error \<Rightarrow> bool" where
  "is_transient_transport_error e = is_transport_error e True"

definition reset_timestamp :: "auto_offset_reset \<Rightarrow> int \<Rightarrow> int" where
  "reset_timestamp policy now_ms =
     (case policy of
        ByDuration duration \<Rightarrow>
          (let ms = int (duration div 1000000)
           in sat_sub64 now_ms (if ms \<le> i64_max then ms else i64_max))
      | _ \<Rightarrow> LATEST_TIMESTAMP)"

type_synonym list_offsets_specs = "(string \<times> (int \<times> int) list) list"

text \<open>A \<open>ListOffsets\<close> request: isolation level, and per topic the partition, epoch and timestamp.\<close>

record list_offsets_request =
  lo_replica_id :: int
  lo_isolation_level :: int
  lo_topics :: "(string \<times> (int \<times> int \<times> int) list) list"

definition isolation_wire :: "isolation_level \<Rightarrow> int" where
  "isolation_wire isolation = (case isolation of ReadUncommitted \<Rightarrow> 0 | ReadCommitted \<Rightarrow> 1)"

definition build_offsets_request ::
  "list_offsets_specs \<Rightarrow> int \<Rightarrow> isolation_level \<Rightarrow> list_offsets_request" where
  "build_offsets_request by_topic timestamp isolation =
     \<lparr>lo_replica_id = -1, lo_isolation_level = isolation_wire isolation,
      lo_topics = map (\<lambda>(name, ps). (name, map (\<lambda>(index, leader_epoch). (index, leader_epoch, timestamp)) ps))
        by_topic\<rparr>"

definition group_list_offsets ::
  "topic_partition list \<Rightarrow> positions \<Rightarrow> (int \<Rightarrow> bool) \<Rightarrow> (int \<times> list_offsets_specs) list" where
  "group_list_offsets keys poss knows_broker =
     fold (\<lambda>key grouped.
       let p = (case map_of poss key of None \<Rightarrow> partition_position_default | Some p \<Rightarrow> p);
           leader = fetch_leader_id (pp_leader_id p) (knows_broker (pp_leader_id p))
       in btree_entry leader []
            (btree_entry (fst key) [] (\<lambda>ps. ps @ [(snd key, pp_leader_epoch p)])) grouped)
       keys []"

section \<open>Answers of \<open>ListOffsets\<close>\<close>

datatype list_offsets_row_action = Position int | Unauthorized | Retry

definition classify_list_offsets_row :: "int \<Rightarrow> int \<Rightarrow> list_offsets_row_action" where
  "classify_list_offsets_row error_code offset =
     (if error_code = 0 \<and> offset \<noteq> UNKNOWN_OFFSET then Position offset
      else if error_code = 29 then Unauthorized
      else Retry)"

text \<open>A response: per topic its rows of partition, error code and offset.\<close>

type_synonym list_offsets_response = "(string \<times> (int \<times> int \<times> int) list) list"

record list_offsets_result =
  lr_offsets :: "(topic_partition \<times> int) list"
  lr_retry :: bool
  lr_unauthorized :: "string list"

text \<open>The rows of one answer: the offsets and the unauthorized topics.\<close>

definition collect_answer ::
  "list_offsets_response \<Rightarrow> (topic_partition \<times> int) list \<times> string list" where
  "collect_answer answer =
     fold (\<lambda>(name, rows) acc.
       fold (\<lambda>(index, error_code, row_offset) (offsets, unauthorized).
         case classify_list_offsets_row error_code row_offset of
           Position offset \<Rightarrow> (AList.update (name, index) offset offsets, unauthorized)
         | Unauthorized \<Rightarrow> (offsets, btree_set (unauthorized @ [name]))
         | Retry \<Rightarrow> (offsets, unauthorized)) rows acc) answer ([], [])"

definition collect_list_offsets ::
  "topic_partition list \<Rightarrow> list_offsets_response list \<Rightarrow> list_offsets_result" where
  "collect_list_offsets requested answers =
     (let (offsets, unauthorized) = fold (\<lambda>answer (offsets, unauthorized).
            let (o', u) = collect_answer answer
            in if u = [] then (fold (\<lambda>(k, v). AList.update k v) o' offsets, unauthorized)
               else (offsets, btree_set (unauthorized @ u))) answers ([], []);
          offsets = filter (\<lambda>(key, _). key \<in> set requested) offsets
      in \<lparr>lr_offsets = offsets,
          lr_retry = list_ex (\<lambda>key. map_of offsets key = None) requested,
          lr_unauthorized = unauthorized\<rparr>)"

definition authorization :: "list_offsets_result \<Rightarrow> consumer_error + unit" where
  "authorization r =
     (if lr_unauthorized r = [] then Inr () else Inl (TopicAuthorizationFailed (lr_unauthorized r)))"

text \<open>\<open>list_offsets\<close>: one request per leader; \<open>send\<close> is the exchange with a broker.\<close>

fun send_all ::
  "(int \<Rightarrow> list_offsets_request \<Rightarrow> client_error + list_offsets_response) \<Rightarrow> int \<Rightarrow> isolation_level
     \<Rightarrow> (int \<times> list_offsets_specs) list \<Rightarrow> client_error + list_offsets_response list" where
  "send_all send timestamp isolation [] = Inr []"
| "send_all send timestamp isolation ((leader, by_topic) # rest) =
     (case send leader (build_offsets_request by_topic timestamp isolation) of
        Inr answer \<Rightarrow>
          (case send_all send timestamp isolation rest of
             Inl e \<Rightarrow> Inl e | Inr answers \<Rightarrow> Inr (answer # answers))
      | Inl e \<Rightarrow>
          (if is_transient_transport_error e then send_all send timestamp isolation rest else Inl e))"

definition list_offsets ::
  "(int \<Rightarrow> bool) \<Rightarrow> (int \<Rightarrow> list_offsets_request \<Rightarrow> client_error + list_offsets_response)
     \<Rightarrow> topic_partition list \<Rightarrow> int \<Rightarrow> consumer \<Rightarrow> consumer_error + list_offsets_result" where
  "list_offsets knows_broker send keys timestamp c =
     (case send_all send timestamp (co_isolation_level c)
             (group_list_offsets keys (co_positions c) knows_broker) of
        Inl e \<Rightarrow> Inl (ConsumerClient e)
      | Inr answers \<Rightarrow> Inr (collect_list_offsets keys answers))"

section \<open>Resolving placeholders\<close>

definition keys_at :: "next_offsets \<Rightarrow> int \<Rightarrow> topic_partition list" where
  "keys_at offsets sentinel = map fst (filter (\<lambda>(_, value). value = sentinel) offsets)"

text \<open>Replace the placeholders that are still there.\<close>

definition replace_sentinels :: "int \<Rightarrow> (topic_partition \<times> int) list \<Rightarrow> next_offsets \<Rightarrow> next_offsets" where
  "replace_sentinels sentinel found offsets =
     fold (\<lambda>(key, offset) offsets.
       if map_of offsets key = Some sentinel then AList.update key offset offsets else offsets)
       found offsets"

fun list_sentinels ::
  "(topic_partition list \<Rightarrow> int \<Rightarrow> consumer_error + list_offsets_result)
     \<Rightarrow> (int \<times> int \<times> topic_partition list) list \<Rightarrow> consumer_error + (int \<times> list_offsets_result) list" where
  "list_sentinels lookup [] = Inr []"
| "list_sentinels lookup ((sentinel, timestamp, keys) # rest) =
     (if keys = [] then list_sentinels lookup rest
      else case lookup keys timestamp of
        Inl e \<Rightarrow> Inl e
      | Inr result \<Rightarrow>
          (case list_sentinels lookup rest of Inl e \<Rightarrow> Inl e | Inr rs \<Rightarrow> Inr ((sentinel, result) # rs)))"

definition resolve_reset_sentinels ::
  "(int \<Rightarrow> bool) \<Rightarrow> (int \<Rightarrow> list_offsets_request \<Rightarrow> client_error + list_offsets_response) \<Rightarrow> int
     \<Rightarrow> (consumer \<Rightarrow> consumer) \<Rightarrow> consumer \<Rightarrow> (consumer_error + unit) \<times> consumer" where
  "resolve_reset_sentinels knows_broker send now_ms others c =
     (let by_sentinel = map (\<lambda>(sentinel, timestamp). (sentinel, timestamp, keys_at (co_next_offsets c) sentinel))
            [(LATEST_SENTINEL, reset_timestamp (co_auto_offset_reset c) now_ms),
             (BEGINNING_SENTINEL, EARLIEST_TIMESTAMP), (END_SENTINEL, LATEST_TIMESTAMP)]
      in if list_all (\<lambda>(_, _, keys). keys = []) by_sentinel then (Inr (), c)
         else case list_sentinels (\<lambda>keys timestamp. list_offsets knows_broker send keys timestamp c) by_sentinel of
           Inl e \<Rightarrow> (Inl e, others c)
         | Inr results \<Rightarrow>
             (let c = others c;
                  c = c\<lparr>co_next_offsets := fold (\<lambda>(sentinel, result).
                          replace_sentinels sentinel (lr_offsets result)) results (co_next_offsets c)\<rparr>;
                  c = (if list_ex (\<lambda>(_, result). lr_retry result \<and> lr_unauthorized result = []) results
                       then c\<lparr>co_update_requested := True\<rparr> else c)
              in (fold (\<lambda>(_, result) acc. res_bind acc (\<lambda>_. authorization result)) results (Inr ()), c)))"

definition fail_partitions_without_offset :: "consumer \<Rightarrow> consumer_error + unit" where
  "fail_partitions_without_offset c =
     (let missing = btree_set (keys_at (co_next_offsets c) NO_OFFSET_SENTINEL)
      in if missing = [] then Inr () else Inl (NoOffsetForPartition missing))"

section \<open>Leader epochs\<close>

datatype validation_outcome = Valid int | Truncated int

definition classify :: "int \<Rightarrow> int \<Rightarrow> int \<Rightarrow> int \<Rightarrow> validation_outcome" where
  "classify offset offset_epoch leader_epoch leader_end_offset =
     (if leader_end_offset < 0 \<or> leader_epoch < offset_epoch \<or> leader_end_offset < offset
      then Truncated (if leader_end_offset < 0 then 0 else leader_end_offset)
      else Valid leader_epoch)"

definition should_await_validation :: "(int \<Rightarrow> bool) \<Rightarrow> int \<Rightarrow> int \<Rightarrow> bool" where
  "should_await_validation is_known leader_epoch offset_epoch \<longleftrightarrow>
     offset_epoch < leader_epoch \<and> is_known offset_epoch"

definition update_leader_epoch :: "(int \<Rightarrow> bool) \<Rightarrow> int \<Rightarrow> partition_position \<Rightarrow> partition_position" where
  "update_leader_epoch is_known leader_epoch p =
     (if pp_leader_epoch p < leader_epoch
      then let p = p\<lparr>pp_leader_epoch := leader_epoch\<rparr>
           in if should_await_validation is_known leader_epoch (pp_offset_epoch p)
              then p\<lparr>pp_awaiting_validation := True\<rparr> else p
      else p)"

definition clear_unvalidatable_position :: "(int \<Rightarrow> bool) \<Rightarrow> partition_position \<Rightarrow> partition_position" where
  "clear_unvalidatable_position is_known p =
     (if pp_awaiting_validation p \<and> \<not> is_known (pp_offset_epoch p)
      then p\<lparr>pp_awaiting_validation := False\<rparr> else p)"

definition should_validate_position :: "(int \<Rightarrow> bool) \<Rightarrow> partition_position \<Rightarrow> bool" where
  "should_validate_position is_known p \<longleftrightarrow> pp_awaiting_validation p \<and> is_known (pp_offset_epoch p)"

definition response_has_error :: "int \<Rightarrow> bool" where
  "response_has_error error_code \<longleftrightarrow> error_code \<noteq> 0"

definition should_skip_stale_response :: "partition_position \<Rightarrow> int \<Rightarrow> bool" where
  "should_skip_stale_response p leader_epoch \<longleftrightarrow> pp_leader_epoch p \<noteq> leader_epoch"

definition mark_validation_error :: "partition_position \<Rightarrow> partition_position" where
  "mark_validation_error p = p\<lparr>pp_leader_epoch := -1, pp_awaiting_validation := True\<rparr>"

record epoch_end_offset =
  eo_leader_epoch :: int
  eo_end_offset :: int
  eo_error_code :: int

definition apply_epoch_answer ::
  "epoch_end_offset \<Rightarrow> int \<Rightarrow> int \<Rightarrow> int \<Rightarrow> partition_position option
     \<Rightarrow> int option \<times> partition_position option" where
  "apply_epoch_answer answer offset offset_epoch leader_epoch pos =
     (case pos of
        None \<Rightarrow> (None, None)
      | Some p \<Rightarrow>
          (if should_skip_stale_response p leader_epoch then (None, Some p)
           else if response_has_error (eo_error_code answer) then (None, Some (mark_validation_error p))
           else case classify offset offset_epoch (eo_leader_epoch answer) (eo_end_offset answer) of
             Valid le \<Rightarrow> (None, Some (p\<lparr>pp_offset_epoch := le, pp_awaiting_validation := False\<rparr>))
           | Truncated safe_offset \<Rightarrow> (Some safe_offset, Some (p\<lparr>pp_awaiting_validation := False\<rparr>))))"

text \<open>The metadata of a topic: name, error code, id, and leader id and epoch per partition.\<close>

record topic_metadata =
  tm_name :: "string option"
  tm_error_code :: int
  tm_topic_id :: uuid
  tm_partitions :: "(int \<times> int \<times> int) list"

definition refresh_tracked_topic_ids ::
  "topic_metadata list \<Rightarrow> (string \<times> uuid) list \<Rightarrow> (string \<times> uuid) list" where
  "refresh_tracked_topic_ids topics topic_ids =
     fold (\<lambda>t ids.
       case tm_name t of
         None \<Rightarrow> ids
       | Some name \<Rightarrow>
           (if response_has_error (tm_error_code t) \<or> tm_topic_id t = ZERO_UUID then ids
            else AList.update name (tm_topic_id t) ids)) topics topic_ids"

definition refresh_leader_epochs ::
  "(int \<Rightarrow> bool) \<Rightarrow> topic_metadata list \<Rightarrow> consumer \<Rightarrow> consumer" where
  "refresh_leader_epochs is_known topics c =
     c\<lparr>co_positions := fold (\<lambda>t poss.
           case tm_name t of
             None \<Rightarrow> poss
           | Some name \<Rightarrow> fold (\<lambda>(index, leader_id, leader_epoch).
               hash_entry (name, index) partition_position_default
                 (\<lambda>p. update_leader_epoch is_known leader_epoch (p\<lparr>pp_leader_id := leader_id\<rparr>)))
               (tm_partitions t) poss) topics (co_positions c),
       co_topic_ids := refresh_tracked_topic_ids topics (co_topic_ids c)\<rparr>"

text \<open>The positions to validate: key, offset, offset epoch, leader epoch.\<close>

definition to_validate ::
  "(int \<Rightarrow> bool) \<Rightarrow> next_offsets \<Rightarrow> positions \<Rightarrow> (topic_partition \<times> int \<times> int \<times> int) list" where
  "to_validate is_known offsets poss =
     List.map_filter (\<lambda>(key, p).
       if should_validate_position is_known p
       then map_option (\<lambda>off. (key, off, pp_offset_epoch p, pp_leader_epoch p)) (map_of offsets key)
       else None) poss"

text \<open>
  The loop over the requests: \<open>answers\<close> are the answers, and \<open>others key\<close> what other tasks do to the
  positions while the request for \<open>key\<close> is in flight.
\<close>

fun validate_loop ::
  "(topic_partition \<Rightarrow> client_error + epoch_end_offset) \<Rightarrow> (topic_partition \<Rightarrow> positions \<Rightarrow> positions)
     \<Rightarrow> (topic_partition \<times> int \<times> int \<times> int) list \<Rightarrow> (topic_partition \<times> int) list \<Rightarrow> positions
     \<Rightarrow> (client_error + (topic_partition \<times> int) list) \<times> positions" where
  "validate_loop answers others [] cuts poss = (Inr cuts, poss)"
| "validate_loop answers others ((key, offset, offset_epoch, leader_epoch) # rest) cuts poss =
     (let poss = others key poss
      in case answers key of
           Inl e \<Rightarrow> (Inl e, poss)
         | Inr answer \<Rightarrow>
             (let (safe_offset, p) =
                    apply_epoch_answer answer offset offset_epoch leader_epoch (map_of poss key);
                  poss = (case p of None \<Rightarrow> poss | Some p \<Rightarrow> AList.update key p poss);
                  cuts = (case safe_offset of None \<Rightarrow> cuts | Some s \<Rightarrow> AList.update key s cuts)
              in validate_loop answers others rest cuts poss))"

definition validate_positions ::
  "(int \<Rightarrow> bool) \<Rightarrow> (topic_partition \<Rightarrow> client_error + epoch_end_offset)
     \<Rightarrow> (topic_partition \<Rightarrow> positions \<Rightarrow> positions) \<Rightarrow> consumer
     \<Rightarrow> (consumer_error + (topic_partition \<times> int) list) \<times> consumer" where
  "validate_positions is_known answers others c =
     (let poss = map (\<lambda>(key, p). (key, clear_unvalidatable_position is_known p)) (co_positions c);
          (result, poss) = validate_loop answers others
            (to_validate is_known (co_next_offsets c) poss) [] poss
      in (case result of Inl e \<Rightarrow> Inl (ConsumerClient e) | Inr t \<Rightarrow> Inr t, c\<lparr>co_positions := poss\<rparr>))"

section \<open>Truncated and missing offsets\<close>

definition reset_polled ::
  "(topic_partition \<times> int option) list \<Rightarrow> (topic_partition \<times> consumed_position) list
     \<Rightarrow> (topic_partition \<times> consumed_position) list" where
  "reset_polled resets polled =
     fold (\<lambda>(key, offset) polled.
       case offset of
         Some off \<Rightarrow>
           (case map_of polled key of
              None \<Rightarrow> polled
            | Some p \<Rightarrow> AList.update key (p\<lparr>cp_offset := off, cp_leader_epoch := -1\<rparr>) polled)
       | None \<Rightarrow> AList.delete key polled) resets polled"

fun truncate_offsets ::
  "auto_offset_reset \<Rightarrow> (topic_partition \<times> int) list \<Rightarrow> next_offsets \<Rightarrow> consumer_error option \<times> next_offsets"
where
  "truncate_offsets policy [] offsets = (None, offsets)"
| "truncate_offsets policy ((key, safe_offset) # rest) offsets =
     (if policy = ResetNone
      then (Some (LogTruncation (fst key) (snd key) (fetch_offset_or_unknown offsets key) safe_offset), offsets)
      else truncate_offsets policy rest (AList.update key safe_offset offsets))"

definition apply_truncation ::
  "(topic_partition \<times> int) list \<Rightarrow> consumer \<Rightarrow> (consumer_error + unit) \<times> consumer" where
  "apply_truncation cuts c =
     (case truncate_offsets (co_auto_offset_reset c) cuts (co_next_offsets c) of
        (Some e, offsets) \<Rightarrow> (Inl e, c\<lparr>co_next_offsets := offsets\<rparr>)
      | (None, offsets) \<Rightarrow>
          (Inr (), c\<lparr>co_next_offsets := offsets,
             co_polled := map_option (reset_polled (map (\<lambda>(key, s). (key, Some s)) cuts)) (co_polled c)\<rparr>))"

definition handle_truncation_in_poll ::
  "auto_offset_reset \<Rightarrow> topic_partition \<Rightarrow> int \<Rightarrow> next_offsets \<Rightarrow> consumer_error + next_offsets" where
  "handle_truncation_in_poll policy key safe_offset offsets =
     (if policy = ResetNone
      then Inl (LogTruncation (fst key) (snd key) (fetch_offset_or_unknown offsets key) safe_offset)
      else Inr (AList.update key safe_offset offsets))"

definition out_of_range_positions ::
  "(topic_partition \<times> int) list \<Rightarrow> (topic_partition \<times> int) list \<Rightarrow> (topic_partition \<times> int) list" where
  "out_of_range_positions out_of_range log_starts =
     List.map_filter (\<lambda>(key, _). map_option (\<lambda>start. (key, start)) (map_of log_starts key)) out_of_range"

definition out_of_range_truncation ::
  "(topic_partition \<times> int) list \<Rightarrow> (topic_partition \<times> int) list \<Rightarrow> consumer_error option" where
  "out_of_range_truncation out_of_range log_starts =
     (case out_of_range of
        [] \<Rightarrow> None
      | (key, fetch_offset) # _ \<Rightarrow>
          Some (LogTruncation (fst key) (snd key) fetch_offset
            (case map_of log_starts key of None \<Rightarrow> UNKNOWN_OFFSET | Some s \<Rightarrow> s)))"

definition recover_out_of_range ::
  "consumer_error + list_offsets_result \<Rightarrow> (topic_partition \<times> int) list \<Rightarrow> consumer
     \<Rightarrow> (consumer_error + bool) \<times> consumer" where
  "recover_out_of_range answer out_of_range c =
     (case res_bind answer (\<lambda>result. res_bind (authorization result) (\<lambda>_. Inr result)) of
        Inl e \<Rightarrow> (Inl e, c)
      | Inr result \<Rightarrow>
          (if co_auto_offset_reset c = ResetNone
           then (case out_of_range_truncation out_of_range (lr_offsets result) of
                   Some e \<Rightarrow> (Inl e, c)
                 | None \<Rightarrow> (Inr False, c))
           else let log_starts = out_of_range_positions out_of_range (lr_offsets result)
                in (Inr (lr_retry result),
                    c\<lparr>co_next_offsets := fold (\<lambda>(key, s). AList.update key s) log_starts (co_next_offsets c),
                      co_polled := map_option (reset_polled (map (\<lambda>(key, s). (key, Some s)) log_starts))
                        (co_polled c)\<rparr>)))"

text \<open>
  \<open>resolve_committed_sentinels\<close>: \<open>committed\<close> is the answer of \<open>committed_until\<close> (offset and epoch per
  partition), empty for a consumer without a group id.
\<close>

definition resolve_committed_key ::
  "(int \<Rightarrow> bool) \<Rightarrow> (topic_partition \<times> (int \<times> int option) option) list \<Rightarrow> topic_partition
     \<Rightarrow> consumer \<Rightarrow> consumer" where
  "resolve_committed_key is_known committed key c =
     (if map_of (co_next_offsets c) key \<noteq> Some COMMITTED_SENTINEL then c
      else case map_of committed key of
        Some (Some (offset, leader_epoch)) \<Rightarrow>
          c\<lparr>co_next_offsets := AList.update key offset (co_next_offsets c),
            co_positions := hash_entry key partition_position_default (\<lambda>p.
              let e = (case leader_epoch of None \<Rightarrow> -1 | Some e \<Rightarrow> e)
              in p\<lparr>pp_offset_epoch := e,
                   pp_awaiting_validation := should_await_validation is_known (pp_leader_epoch p) e\<rparr>)
              (co_positions c)\<rparr>
      | _ \<Rightarrow> c\<lparr>co_next_offsets := AList.update key (reset_starting_offset (co_auto_offset_reset c))
                (co_next_offsets c)\<rparr>)"

definition resolve_committed_sentinels ::
  "(int \<Rightarrow> bool) \<Rightarrow> consumer_error + (topic_partition \<times> (int \<times> int option) option) list
     \<Rightarrow> (consumer \<Rightarrow> consumer) \<Rightarrow> consumer \<Rightarrow> (consumer_error + unit) \<times> consumer" where
  "resolve_committed_sentinels is_known committed others c =
     (let keys = keys_at (co_next_offsets c) COMMITTED_SENTINEL
      in if keys = [] then (Inr (), c)
         else case committed of
           Inl e \<Rightarrow> (Inl e, others c)
         | Inr committed \<Rightarrow> (Inr (), fold (resolve_committed_key is_known committed) keys (others c)))"

end
