(* ===== verification/Consumer_Fetch.thy ===== *)
theory Consumer_Fetch
  imports Consumer_Reset
begin

text \<open>
  The fetch cycle of \<open>poll.rs\<close>: grouping the fetchable partitions by leader, sending a Fetch per
  leader, taking the results, acting on the rows of a response, draining the buffer, the update of
  the fetch positions, and \<open>poll\<close> itself.  The results of requests, the clock and wakeups are
  arguments.
\<close>

section \<open>Fetch requests\<close>

abbreviation OFFSET_OUT_OF_RANGE :: int where
  "OFFSET_OUT_OF_RANGE \<equiv> 1"

type_synonym fetch_spec = "int \<times> int \<times> int \<times> int"
type_synonym fetch_by_leader = "(int \<times> (string \<times> fetch_spec list) list) list"

definition session_partition :: "uuid \<Rightarrow> fetch_spec \<Rightarrow> int \<Rightarrow> session_partition" where
  "session_partition topic_id = (\<lambda>(_, fetch_offset, leader_epoch, last_fetched_epoch) partition_max.
     \<lparr>sp_topic_id = topic_id, sp_fetch_offset = fetch_offset, sp_current_leader_epoch = leader_epoch,
      sp_last_fetched_epoch = last_fetched_epoch, sp_partition_max_bytes = partition_max\<rparr>)"

text \<open>The wire request: topics with their id, each with the partitions; forgotten topics.\<close>

record fetch_request =
  fq_max_wait_ms :: int
  fq_min_bytes :: int
  fq_max_bytes :: int
  fq_isolation_level :: int
  fq_session_id :: int
  fq_session_epoch :: int
  fq_topics :: "(string \<times> uuid \<times> (int \<times> session_partition) list) list"
  fq_forgotten :: "(string \<times> uuid \<times> int list) list"
  fq_rack_id :: string

text \<open>The loops that start a new topic when the name changes.\<close>

definition push_topic ::
  "string \<Rightarrow> uuid \<Rightarrow> 'p \<Rightarrow> (string \<times> uuid \<times> 'p list) list \<Rightarrow> (string \<times> uuid \<times> 'p list) list" where
  "push_topic topic topic_id p topics =
     (let topics = (if topics = [] \<or> fst (last topics) \<noteq> topic then topics @ [(topic, topic_id, [])] else topics)
      in butlast topics @ [(case last topics of (t, i, ps) \<Rightarrow> (t, i, ps @ [p]))])"

definition build_fetch_request ::
  "int \<Rightarrow> isolation_level \<Rightarrow> int \<Rightarrow> int \<Rightarrow> string \<Rightarrow> session_request \<Rightarrow> fetch_request" where
  "build_fetch_request max_wait_ms isolation min_bytes max_bytes rack_id sess =
     \<lparr>fq_max_wait_ms = max_wait_ms, fq_min_bytes = min_bytes, fq_max_bytes = max_bytes,
      fq_isolation_level = isolation_wire isolation, fq_session_id = sr_session_id sess,
      fq_session_epoch = sr_session_epoch sess,
      fq_topics = fold (\<lambda>((topic, index), data). push_topic topic (sp_topic_id data) (index, data))
        (sr_partitions sess) [],
      fq_forgotten = fold (\<lambda>((topic, index), topic_id). push_topic topic topic_id index) (sr_forgotten sess) [],
      fq_rack_id = rack_id\<rparr>"

section \<open>Sending\<close>

definition last_offset :: "next_offsets \<Rightarrow> topic_partition \<Rightarrow> int" where
  "last_offset offsets key = (case map_of offsets key of None \<Rightarrow> 0 | Some n \<Rightarrow> n)"

text \<open>The tests that leave an assigned partition out of the fetches.\<close>

definition fetchable :: "topic_partition set \<Rightarrow> consumer \<Rightarrow> topic_partition \<Rightarrow> bool" where
  "fetchable paused c key \<longleftrightarrow>
     key \<notin> co_assigned_callback_pending c
     \<and> \<not> (\<not> sub_manual_assignment (co_subscription c) \<and> sub_pattern (co_subscription c) = None
           \<and> sub_regex (co_subscription c) = None \<and> \<not> subscription_contains (co_subscription c) (fst key))
     \<and> \<not> (case map_of (co_positions c) key of None \<Rightarrow> False | Some p \<Rightarrow> pp_awaiting_validation p)
     \<and> \<not> is_reset_sentinel (last_offset (co_next_offsets c) key)
     \<and> \<not> (key \<in> paused \<or> key \<in> buffered_partitions (co_fetch_buffer c))"

text \<open>The leader or the preferred read replica of a partition, and the preferences afterwards.\<close>

definition read_replica ::
  "(int \<Rightarrow> bool) \<Rightarrow> nat \<Rightarrow> int \<Rightarrow> topic_partition \<Rightarrow> (topic_partition \<times> int \<times> nat) list
     \<Rightarrow> int \<times> (topic_partition \<times> int \<times> nat) list \<times> bool" where
  "read_replica knows_broker now leader key preferred =
     (case map_of preferred key of
        Some (replica, expires) \<Rightarrow>
          (if expires < now then (leader, AList.delete key preferred, False)
           else if knows_broker replica then (replica, preferred, False)
           else (leader, AList.delete key preferred, True))
      | None \<Rightarrow> (leader, preferred, False))"

definition group_fetch ::
  "(int \<Rightarrow> bool) \<Rightarrow> nat \<Rightarrow> topic_partition set \<Rightarrow> consumer \<Rightarrow> topic_partition
     \<Rightarrow> fetch_by_leader \<times> (topic_partition \<times> int \<times> nat) list \<times> bool
     \<Rightarrow> fetch_by_leader \<times> (topic_partition \<times> int \<times> nat) list \<times> bool" where
  "group_fetch knows_broker now paused c key = (\<lambda>(grouped, preferred, refresh).
     if \<not> fetchable paused c key then (grouped, preferred, refresh)
     else let pos = (case map_of (co_positions c) key of None \<Rightarrow> partition_position_default | Some p \<Rightarrow> p);
              leader = fetch_leader_id (pp_leader_id pos) (knows_broker (pp_leader_id pos));
              (leader, preferred, stale) = read_replica knows_broker now leader key preferred;
              refresh = (refresh \<or> stale)
          in if map_of (fl_in_flight (co_fetches c)) leader \<noteq> None then (grouped, preferred, refresh)
             else (hash_entry leader [] (hash_entry (fst key) [] (\<lambda>specs. specs
                     @ [(snd key, last_offset (co_next_offsets c) key, pp_leader_epoch pos, pp_offset_epoch pos)]))
                     grouped, preferred, refresh))"

definition group_fetches ::
  "(int \<Rightarrow> bool) \<Rightarrow> nat \<Rightarrow> topic_partition list \<Rightarrow> consumer \<Rightarrow> fetch_by_leader \<times> consumer" where
  "group_fetches knows_broker now assigned c =
     (let (paused, c) = paused_of (co_ownership_ids c) c;
          (grouped, preferred, refresh) = fold (group_fetch knows_broker now paused c) assigned
            ([], fl_preferred_read_replicas (co_fetches c), False)
      in (grouped,
          c\<lparr>co_fetches := (co_fetches c)\<lparr>fl_preferred_read_replicas := preferred\<rparr>,
            co_update_requested := co_update_requested c \<or> refresh\<rparr>))"

definition wanted_partitions ::
  "(string \<times> uuid) list \<Rightarrow> int \<Rightarrow> (string \<times> fetch_spec list) list \<Rightarrow> session_partitions" where
  "wanted_partitions topic_ids partition_max by_topic =
     btree_collect (concat (map (\<lambda>(topic, specs).
       let topic_id = (case map_of topic_ids topic of None \<Rightarrow> ZERO_UUID | Some i \<Rightarrow> i)
       in map (\<lambda>spec. ((topic, fst spec), session_partition topic_id spec partition_max)) specs) by_topic))"

definition session_of :: "int \<Rightarrow> fetches \<Rightarrow> fetch_session" where
  "session_of leader fl = (case map_of (fl_sessions fl) leader of None \<Rightarrow> fetch_session_default | Some s \<Rightarrow> s)"

definition send_fetch ::
  "(string \<times> uuid) list \<Rightarrow> int \<Rightarrow> int \<times> (string \<times> fetch_spec list) list \<Rightarrow> fetches \<Rightarrow> fetches" where
  "send_fetch topic_ids partition_max = (\<lambda>(leader, by_topic) fl.
     if map_of (fl_in_flight fl) leader \<noteq> None then fl
     else let wanted = wanted_partitions topic_ids partition_max by_topic;
              requested = map (\<lambda>(key, p). (key, sp_fetch_offset p)) wanted;
              from_replica = {key \<in> fst ` set wanted.
                case map_of (fl_preferred_read_replicas fl) key of
                  None \<Rightarrow> False | Some (replica, _) \<Rightarrow> replica = leader};
              (request, sess) = build wanted (session_of leader fl)
          in fl\<lparr>fl_sessions := AList.update leader sess (fl_sessions fl),
                fl_in_flight := AList.update leader
                  \<lparr>if_request = request, if_result = None, if_requested = requested,
                   if_from_replica = from_replica\<rparr> (fl_in_flight fl)\<rparr>)"

definition send_fetches :: "fetch_by_leader \<Rightarrow> (string \<times> uuid) list \<Rightarrow> consumer \<Rightarrow> consumer" where
  "send_fetches by_leader topic_ids c =
     c\<lparr>co_fetches := fold (send_fetch topic_ids (co_fetch_partition_max c)) by_leader (co_fetches c)\<rparr>"

section \<open>Taking results\<close>

definition collect_fetch :: "int \<Rightarrow> fetches \<Rightarrow> fetches" where
  "collect_fetch leader fl =
     (case map_of (fl_in_flight fl) leader of
        None \<Rightarrow> fl
      | Some fetch \<Rightarrow>
          (case if_result fetch of
             None \<Rightarrow> fl
           | Some result \<Rightarrow>
               fl\<lparr>fl_in_flight := AList.delete leader (fl_in_flight fl),
                  fl_ready := fl_ready fl @ [\<lparr>cf_leader = leader, cf_requested = if_requested fetch,
                    cf_from_replica = if_from_replica fetch, cf_result = result\<rparr>]\<rparr>))"

definition collect_ready :: "fetches \<Rightarrow> fetches" where
  "collect_ready fl = fold collect_fetch (map fst (fl_in_flight fl)) fl"

definition id_to_name :: "(string \<times> uuid) list \<Rightarrow> (uuid \<times> string) list" where
  "id_to_name topic_ids = fold (\<lambda>(n, i). AList.update i n) topic_ids []"

definition topic_name :: "(uuid \<times> string) list \<Rightarrow> topic_response \<Rightarrow> string" where
  "topic_name names topic =
     (if tr_topic topic = ''''
      then (case map_of names (tr_topic_id topic) of None \<Rightarrow> '''' | Some n \<Rightarrow> n)
      else tr_topic topic)"

text \<open>The rows of a response that stay, and the partitions that go back to their leader.\<close>

definition retain_row ::
  "completed_fetch \<Rightarrow> next_offsets \<Rightarrow> string \<Rightarrow> partition_data \<Rightarrow> bool" where
  "retain_row fetch offsets name part \<longleftrightarrow>
     (let key = (name, pd_partition_index part)
      in \<not> (pd_error_code part = OFFSET_OUT_OF_RANGE \<and> key \<in> cf_from_replica fetch)
         \<and> (case map_of (cf_requested fetch) key of
              None \<Rightarrow> False | Some requested \<Rightarrow> last_offset offsets key = requested))"

definition replica_out_of_range ::
  "completed_fetch \<Rightarrow> (uuid \<times> string) list \<Rightarrow> fetch_response \<Rightarrow> topic_partition set" where
  "replica_out_of_range fetch names response =
     set (filter (\<lambda>key. key \<in> cf_from_replica fetch)
       (concat (map (\<lambda>topic.
          map (\<lambda>part. (topic_name names topic, pd_partition_index part))
            (filter (\<lambda>part. pd_error_code part = OFFSET_OUT_OF_RANGE) (tr_partitions topic)))
          (fr_responses response))))"

definition retain_response ::
  "completed_fetch \<Rightarrow> next_offsets \<Rightarrow> (uuid \<times> string) list \<Rightarrow> fetch_response \<Rightarrow> fetch_response" where
  "retain_response fetch offsets names response =
     response\<lparr>fr_responses := map (\<lambda>topic.
       topic\<lparr>tr_partitions := filter (retain_row fetch offsets (topic_name names topic)) (tr_partitions topic)\<rparr>)
       (fr_responses response)\<rparr>"

definition response_rows :: "fetch_response \<Rightarrow> nat" where
  "response_rows response = sum_list (map (\<lambda>topic. length (tr_partitions topic)) (fr_responses response))"

definition take_fetch ::
  "next_offsets \<Rightarrow> (uuid \<times> string) list \<Rightarrow> completed_fetch
     \<Rightarrow> fetches \<times> fetch_response list \<times> client_error option
     \<Rightarrow> fetches \<times> fetch_response list \<times> client_error option" where
  "take_fetch offsets names fetch = (\<lambda>(fl, responses, failure).
     let leader = cf_leader fetch;
         sess = session_of leader fl
     in case cf_result fetch of
          Some (Inr response) \<Rightarrow>
            (let (usable, sess) = handle_response (fr_error_code response) (fr_session_id response)
                   (response_rows response) (fr_throttle_time_ms response) sess;
                 fl = fl\<lparr>fl_sessions := AList.update leader sess (fl_sessions fl)\<rparr>
             in if \<not> usable then (fl, responses, failure)
                else (fl\<lparr>fl_preferred_read_replicas := filter (\<lambda>(key, _).
                        key \<notin> replica_out_of_range fetch names response) (fl_preferred_read_replicas fl)\<rparr>,
                      responses @ [retain_response fetch offsets names response], failure))
        | Some (Inl error) \<Rightarrow>
            (fl\<lparr>fl_sessions := AList.update leader (handle_error sess) (fl_sessions fl),
                fl_preferred_read_replicas := filter (\<lambda>(key, _). map_of (cf_requested fetch) key = None)
                  (fl_preferred_read_replicas fl)\<rparr>,
             responses,
             if is_transient_transport_error error then failure
             else case failure of None \<Rightarrow> Some error | Some e \<Rightarrow> Some e)
        | None \<Rightarrow>
            (fl\<lparr>fl_sessions := AList.update leader (handle_error sess) (fl_sessions fl)\<rparr>, responses, failure))"

definition take_completed_fetches ::
  "(string \<times> uuid) list \<Rightarrow> consumer \<Rightarrow> (consumer_error + fetch_response list) \<times> consumer" where
  "take_completed_fetches topic_ids c =
     (let fl = collect_ready (co_fetches c)
      in if fl_ready fl = [] then (Inr [], c\<lparr>co_fetches := fl\<rparr>)
         else let (fl, responses, failure) = fold (take_fetch (co_next_offsets c) (id_to_name topic_ids))
                    (fl_ready fl) (fl\<lparr>fl_ready := []\<rparr>, [], None)
              in (case failure of Some e \<Rightarrow> Inl (ConsumerClient e) | None \<Rightarrow> Inr responses,
                  c\<lparr>co_fetches := fl\<rparr>))"

section \<open>Rows of a response\<close>

datatype fetch_partition_action =
    Records
  | ResetOffset
  | Reroute
  | RevalidateEpoch
  | RefreshMetadata
  | Fail int

definition classify_fetch_partition_error :: "int \<Rightarrow> fetch_partition_action" where
  "classify_fetch_partition_error error_code =
     (if error_code = 0 then Records
      else if error_code = 1 then ResetOffset
      else if error_code = 6 then Reroute
      else if error_code = 74 \<or> error_code = 75 then RevalidateEpoch
      else if error_code = 3 \<or> error_code = 9 \<or> error_code = 56 \<or> error_code = 78
        \<or> error_code = 100 \<or> error_code = 103 then RefreshMetadata
      else Fail error_code)"

record row_state =
  rs_offsets :: next_offsets
  rs_positions :: positions
  rs_end_offsets :: "(topic_partition \<times> int) list"
  rs_fetched :: "buffered_partition list"
  rs_refresh :: bool
  rs_update_requested :: bool
  rs_out_of_range :: "(topic_partition \<times> int) list"
  rs_polled_resets :: "(topic_partition \<times> int option) list"
  rs_replica_updates :: "(topic_partition \<times> int option) list"

definition record_readable_end ::
  "topic_partition \<Rightarrow> isolation_level \<Rightarrow> int \<Rightarrow> int \<Rightarrow> (topic_partition \<times> int) list
     \<Rightarrow> (topic_partition \<times> int) list" where
  "record_readable_end key isolation high_watermark last_stable_offset ends =
     AList.update key (readable_end_offset isolation high_watermark last_stable_offset) ends"

text \<open>The arm of \<open>OFFSET_OUT_OF_RANGE\<close>.\<close>

definition reset_row :: "auto_offset_reset \<Rightarrow> topic_partition \<Rightarrow> row_state \<Rightarrow> row_state" where
  "reset_row policy key s =
     (case policy of
        Latest \<Rightarrow> s\<lparr>rs_offsets := AList.update key LATEST_SENTINEL (rs_offsets s),
                   rs_polled_resets := rs_polled_resets s @ [(key, None)]\<rparr>
      | ByDuration _ \<Rightarrow> s\<lparr>rs_offsets := AList.update key LATEST_SENTINEL (rs_offsets s),
                         rs_polled_resets := rs_polled_resets s @ [(key, None)]\<rparr>
      | _ \<Rightarrow> s\<lparr>rs_out_of_range := rs_out_of_range s @ [(key, fetch_offset_or_unknown (rs_offsets s) key)]\<rparr>)"

text \<open>The arm of \<open>NOT_LEADER_OR_FOLLOWER\<close>.\<close>

definition reroute_row :: "topic_partition \<Rightarrow> partition_data \<Rightarrow> row_state \<Rightarrow> row_state" where
  "reroute_row key part s =
     (if 0 \<le> pd_current_leader_id part
      then s\<lparr>rs_positions := hash_entry key partition_position_default
               (\<lambda>p. p\<lparr>pp_leader_id := pd_current_leader_id part,
                      pp_leader_epoch := pd_current_leader_epoch part\<rparr>) (rs_positions s)\<rparr>
      else s\<lparr>rs_positions := (case map_of (rs_positions s) key of
                 None \<Rightarrow> rs_positions s
               | Some p \<Rightarrow> AList.update key (p\<lparr>pp_leader_id := UNKNOWN_LEADER_ID\<rparr>) (rs_positions s)),
             rs_refresh := True\<rparr>)"

text \<open>The arm of \<open>FENCED_LEADER_EPOCH\<close> and \<open>UNKNOWN_LEADER_EPOCH\<close>.\<close>

definition revalidate_row :: "(int \<Rightarrow> bool) \<Rightarrow> topic_partition \<Rightarrow> row_state \<Rightarrow> row_state" where
  "revalidate_row is_known key s =
     (case map_of (rs_positions s) key of
        None \<Rightarrow> s
      | Some p \<Rightarrow>
          (let p = p\<lparr>pp_leader_epoch := UNKNOWN_LEADER_ID\<rparr>;
               p = (if is_known (pp_offset_epoch p) then p\<lparr>pp_awaiting_validation := True\<rparr> else p)
           in s\<lparr>rs_positions := AList.update key p (rs_positions s), rs_update_requested := True\<rparr>))"

text \<open>One row; the first component is the error that ends the loop.\<close>

definition process_row ::
  "(int \<Rightarrow> bool) \<Rightarrow> topic_partition set \<Rightarrow> consumer \<Rightarrow> string \<Rightarrow> partition_data \<Rightarrow> row_state
     \<Rightarrow> consumer_error option \<times> row_state" where
  "process_row is_known still_owned c name part s =
     (let key = (name, pd_partition_index part)
      in if key \<notin> still_owned then (None, s)
         else if 0 \<le> pd_diverging_end_offset part then
           (case handle_truncation_in_poll (co_auto_offset_reset c) key (pd_diverging_end_offset part) (rs_offsets s) of
              Inl e \<Rightarrow> (Some e, s)
            | Inr offsets \<Rightarrow> (None, s\<lparr>rs_offsets := offsets,
                rs_polled_resets := rs_polled_resets s @ [(key, Some (pd_diverging_end_offset part))]\<rparr>))
         else let act = classify_fetch_partition_error (pd_error_code part);
                  s = (if act = Reroute \<or> act = RevalidateEpoch \<or> act = RefreshMetadata
                       then s\<lparr>rs_replica_updates := rs_replica_updates s @ [(key, None)]\<rparr> else s)
              in case act of
                   ResetOffset \<Rightarrow> (None, reset_row (co_auto_offset_reset c) key s)
                 | Reroute \<Rightarrow> (None, reroute_row key part s)
                 | RevalidateEpoch \<Rightarrow> (None, revalidate_row is_known key s)
                 | RefreshMetadata \<Rightarrow> (None, s\<lparr>rs_refresh := True\<rparr>)
                 | Fail code \<Rightarrow> (Some (ConsumerServer code), s)
                 | Records \<Rightarrow>
                     (let s = (if 0 \<le> pd_preferred_read_replica part
                               then s\<lparr>rs_replica_updates := rs_replica_updates s
                                        @ [(key, Some (pd_preferred_read_replica part))]\<rparr> else s);
                          s = s\<lparr>rs_end_offsets := record_readable_end key (co_isolation_level c)
                                  (pd_high_watermark part) (pd_last_stable_offset part) (rs_end_offsets s)\<rparr>
                      in (None, case process_partition_records (co_isolation_level c) (rs_offsets s) key name part of
                                  None \<Rightarrow> s
                                | Some bp \<Rightarrow> s\<lparr>rs_fetched := rs_fetched s @ [bp]\<rparr>)))"

fun process_rows ::
  "(int \<Rightarrow> bool) \<Rightarrow> topic_partition set \<Rightarrow> consumer \<Rightarrow> (string \<times> partition_data) list \<Rightarrow> row_state
     \<Rightarrow> consumer_error option \<times> row_state" where
  "process_rows is_known still_owned c [] s = (None, s)"
| "process_rows is_known still_owned c ((name, part) # rows) s =
     (case process_row is_known still_owned c name part s of
        (Some e, s) \<Rightarrow> (Some e, s)
      | (None, s) \<Rightarrow> process_rows is_known still_owned c rows s)"

definition rows_of :: "(uuid \<times> string) list \<Rightarrow> fetch_response list \<Rightarrow> (string \<times> partition_data) list" where
  "rows_of names responses =
     concat (map (\<lambda>topic. map (\<lambda>part. (topic_name names topic, part)) (tr_partitions topic))
       (concat (map fr_responses responses)))"

definition update_replica ::
  "nat \<Rightarrow> topic_partition \<times> int option \<Rightarrow> (topic_partition \<times> int \<times> nat) list
     \<Rightarrow> (topic_partition \<times> int \<times> nat) list" where
  "update_replica expires = (\<lambda>(key, replica) preferred.
     case replica of
       None \<Rightarrow> AList.delete key preferred
     | Some r \<Rightarrow>
         (case map_of preferred key of
            Some (old, _) \<Rightarrow> (if old \<noteq> r then AList.update key (r, expires) preferred else preferred)
          | None \<Rightarrow> AList.update key (r, expires) preferred))"

text \<open>
  \<open>process_fetch_responses\<close>.  \<open>lookup\<close> reads the log starts of partitions out of range, and
  \<open>others\<close> is what other tasks change during that request.
\<close>

definition process_fetch_responses ::
  "(int \<Rightarrow> bool) \<Rightarrow> nat \<Rightarrow> (topic_partition list \<Rightarrow> consumer \<Rightarrow> consumer_error + list_offsets_result)
     \<Rightarrow> (consumer \<Rightarrow> consumer) \<Rightarrow> fetch_response list \<Rightarrow> (string \<times> uuid) list \<Rightarrow> consumer
     \<Rightarrow> (consumer_error + unit) \<times> consumer" where
  "process_fetch_responses is_known now lookup others responses topic_ids c =
     (let (failure, s) = process_rows is_known (set (co_assigned c)) c
            (rows_of (id_to_name topic_ids) responses)
            \<lparr>rs_offsets = co_next_offsets c, rs_positions = co_positions c,
             rs_end_offsets = co_end_offsets c, rs_fetched = [], rs_refresh = False,
             rs_update_requested = co_update_requested c, rs_out_of_range = [],
             rs_polled_resets = [], rs_replica_updates = []\<rparr>;
          c = c\<lparr>co_next_offsets := rs_offsets s, co_positions := rs_positions s,
                co_end_offsets := rs_end_offsets s, co_update_requested := rs_update_requested s\<rparr>
      in case failure of
           Some e \<Rightarrow> (Inl e, c)
         | None \<Rightarrow>
             (let c = c\<lparr>co_polled := map_option (reset_polled (rs_polled_resets s)) (co_polled c),
                        co_fetches := (co_fetches c)\<lparr>fl_preferred_read_replicas :=
                          fold (update_replica (now + co_metadata_max_age c)) (rs_replica_updates s)
                            (fl_preferred_read_replicas (co_fetches c))\<rparr>,
                        co_fetch_buffer := fold fetch_buffer_push (rs_fetched s) (co_fetch_buffer c)\<rparr>
              in if rs_out_of_range s = []
                 then (Inr (), c\<lparr>co_update_requested := co_update_requested c \<or> rs_refresh s\<rparr>)
                 else case recover_out_of_range (lookup (map fst (rs_out_of_range s)) c) (rs_out_of_range s) (others c) of
                        (Inl e, c) \<Rightarrow> (Inl e, c)
                      | (Inr retry, c) \<Rightarrow>
                          (Inr (), c\<lparr>co_update_requested := co_update_requested c \<or> retry \<or> rs_refresh s\<rparr>)))"

section \<open>Draining and polling\<close>

definition drain_fetch_buffer :: "consumer \<Rightarrow> consumer_record list \<times> consumer" where
  "drain_fetch_buffer c =
     (let (paused, c) = paused_of (co_ownership_ids c) c;
          (records, buf, offsets, poss) = drain (co_max_poll_records c) (set (co_assigned c)) paused
            (co_fetch_buffer c) (co_next_offsets c) (co_positions c)
      in (records, c\<lparr>co_fetch_buffer := buf, co_next_offsets := offsets, co_positions := poss\<rparr>))"

definition metadata_due :: "bool \<Rightarrow> consumer \<Rightarrow> bool" where
  "metadata_due too_old c \<longleftrightarrow>
     co_update_requested c \<or> too_old
     \<or> list_ex (\<lambda>key. case map_of (co_positions c) key of None \<Rightarrow> True | Some p \<Rightarrow> pp_leader_id p < 0)
         (co_assigned c)"

definition is_transient_poll_error :: "consumer_error \<Rightarrow> bool" where
  "is_transient_poll_error e =
     (case e of ConsumerClient client \<Rightarrow> is_transient_transport_error client | _ \<Rightarrow> False)"

text \<open>
  A step of \<open>update_fetch_positions\<close>: a wakeup or a fatal error ends the update, a transient error
  ends it with \<open>False\<close>.
\<close>

definition position_step ::
  "bool \<Rightarrow> (consumer \<Rightarrow> (consumer_error + 'a) \<times> consumer)
     \<Rightarrow> ('a \<Rightarrow> consumer \<Rightarrow> (consumer_error + bool) \<times> consumer) \<Rightarrow> consumer
     \<Rightarrow> (consumer_error + bool) \<times> consumer" where
  "position_step woken act k c =
     (if woken then (Inl Wakeup, c)
      else case act c of
        (Inl e, c) \<Rightarrow> (if is_transient_poll_error e then Inr False else Inl e, c)
      | (Inr x, c) \<Rightarrow> k x c)"

text \<open>The outside of one update of the fetch positions.\<close>

record position_env =
  pe_too_old :: bool
  pe_woken :: "nat \<Rightarrow> bool"
  pe_metadata :: "client_error + topic_metadata list"
  pe_committed :: "consumer_error + (topic_partition \<times> (int \<times> int option) option) list"
  pe_list_offsets :: "int \<Rightarrow> list_offsets_request \<Rightarrow> client_error + list_offsets_response"
  pe_now_ms :: int
  pe_epochs :: "topic_partition \<Rightarrow> client_error + epoch_end_offset"
  pe_others :: "consumer \<Rightarrow> consumer"
  pe_others_positions :: "topic_partition \<Rightarrow> positions \<Rightarrow> positions"

definition update_fetch_positions ::
  "(int \<Rightarrow> bool) \<Rightarrow> (int \<Rightarrow> bool) \<Rightarrow> position_env \<Rightarrow> consumer \<Rightarrow> (consumer_error + bool) \<times> consumer" where
  "update_fetch_positions is_known knows_broker env c =
     (let validate = position_step (pe_woken env 3)
            (validate_positions is_known (pe_epochs env) (pe_others_positions env))
            (\<lambda>cuts c. if cuts = [] then (Inr True, c)
              else case apply_truncation cuts c of
                (Inl e, c) \<Rightarrow> (Inl e, c) | (Inr _, c) \<Rightarrow> (Inr True, c));
          resets = position_step (pe_woken env 2)
            (resolve_reset_sentinels knows_broker (pe_list_offsets env) (pe_now_ms env) (pe_others env))
            (\<lambda>_. validate);
          committed = position_step (pe_woken env 1)
            (resolve_committed_sentinels is_known (pe_committed env) (pe_others env))
            (\<lambda>_ c. case fail_partitions_without_offset c of Inl e \<Rightarrow> (Inl e, c) | Inr _ \<Rightarrow> resets c)
      in if metadata_due (pe_too_old env) c
         then position_step (pe_woken env 0)
           (\<lambda>c. case pe_metadata env of
              Inl e \<Rightarrow> (Inl (ConsumerClient e), c)
            | Inr topics \<Rightarrow> (Inr (), (refresh_leader_epochs is_known topics c)\<lparr>co_update_requested := False\<rparr>))
           (\<lambda>_. committed) c
         else committed c)"

text \<open>
  The outside of one \<open>poll\<close>: a pending wakeup, the result of the preparation and of the wait for a
  rebalance, a wakeup while it waits, the results that arrive in the fetch tasks, and the log starts.
\<close>

record poll_env =
  le_wakeup :: bool
  le_prepare :: "consumer \<Rightarrow> (consumer_error + bool) \<times> consumer"
  le_rebalance :: "consumer \<Rightarrow> (consumer_error + bool) \<times> consumer"
  le_woken :: bool
  le_now :: nat
  le_arrive :: "fetches \<Rightarrow> fetches"
  le_lookup :: "topic_partition list \<Rightarrow> consumer \<Rightarrow> consumer_error + list_offsets_result"
  le_others :: "consumer \<Rightarrow> consumer"

definition poll_fetch ::
  "(int \<Rightarrow> bool) \<Rightarrow> (int \<Rightarrow> bool) \<Rightarrow> poll_env \<Rightarrow> consumer
     \<Rightarrow> (consumer_error + consumer_record list) \<times> consumer" where
  "poll_fetch is_known knows_broker env c =
     (let (by_leader, c) = group_fetches knows_broker (le_now env) (co_assigned c) c;
          topic_ids = co_topic_ids c;
          c = send_fetches by_leader topic_ids c;
          c = c\<lparr>co_fetches := collect_ready (co_fetches c)\<rparr>
      in if le_woken env \<and> fl_ready (co_fetches c) = [] then (Inl Wakeup, c)
         else if fl_in_flight (co_fetches c) = [] \<and> fl_ready (co_fetches c) = [] then (Inr [], c)
         else let c = c\<lparr>co_fetches := le_arrive env (co_fetches c)\<rparr>
              in case take_completed_fetches topic_ids c of
                   (Inl e, c) \<Rightarrow> (Inl e, c)
                 | (Inr responses, c) \<Rightarrow>
                     (case process_fetch_responses is_known (le_now env) (le_lookup env) (le_others env)
                             responses topic_ids c of
                        (Inl e, c) \<Rightarrow> (Inl e, c)
                      | (Inr _, c) \<Rightarrow> (case drain_fetch_buffer c of (records, c) \<Rightarrow> (Inr records, c))))"

definition poll ::
  "(int \<Rightarrow> bool) \<Rightarrow> (int \<Rightarrow> bool) \<Rightarrow> poll_env \<Rightarrow> consumer
     \<Rightarrow> (consumer_error + consumer_record list) \<times> consumer" where
  "poll is_known knows_broker env c =
     (if subscription_is_none (co_subscription c) \<and> \<not> sub_manual_assignment (co_subscription c)
      then (Inl NotSubscribed, c)
      else if le_wakeup env then (Inl Wakeup, c)
      else case le_prepare env c of
        (Inl e, c) \<Rightarrow> (Inl e, c)
      | (Inr ready, c) \<Rightarrow>
          (if \<not> ready then (Inr [], c)
           else case le_rebalance env c of
             (Inl e, c) \<Rightarrow> (Inl e, c)
           | (Inr joined, c) \<Rightarrow>
               (if \<not> joined then (Inr [], c)
                else case drain_fetch_buffer c of
                  (buffered, c) \<Rightarrow>
                    (if buffered \<noteq> [] then (Inr buffered, c)
                     else if co_assigned c = [] then (if le_woken env then Inl Wakeup else Inr [], c)
                     else poll_fetch is_known knows_broker env c))))"

end
