(* ===== verification/Consumer_Run.thy ===== *)
theory Consumer_Run
  imports Consumer_Fetch
begin

text \<open>
  A consumer with its brokers as a transition system.  The steps of the fetch cycle interleave with
  answers and losses at the brokers and with every change that the application and the coordinator
  task make between them (seeks, resets, pauses, rebalances).  The invariant says that the sessions
  agree with their brokers, and that fetched data agrees with the logs.
\<close>

section \<open>The system\<close>

text \<open>
  \<open>sy_start\<close> and \<open>sy_since\<close> observe the run: for each partition the position at its last change that
  was not a delivery, and the records delivered since.
\<close>

record system =
  sy_consumer :: consumer
  sy_brokers :: "int \<Rightarrow> broker_session option"
  sy_start :: "topic_partition \<Rightarrow> int option"
  sy_since :: "topic_partition \<Rightarrow> consumer_record list"

text \<open>Observe a step that moves positions from \<open>offsets\<close> to those of \<open>c\<close> without a delivery.\<close>

definition observe :: "consumer \<Rightarrow> system \<Rightarrow> system" where
  "observe c s =
     (let moved = (\<lambda>key. map_of (co_next_offsets c) key \<noteq> map_of (co_next_offsets (sy_consumer s)) key)
      in s\<lparr>sy_consumer := c,
           sy_start := (\<lambda>key. if moved key then map_of (co_next_offsets c) key else sy_start s key),
           sy_since := (\<lambda>key. if moved key then [] else sy_since s key)\<rparr>)"

text \<open>The name of the topic that a broker means: by name, or by id.\<close>

definition true_name :: "(uuid \<Rightarrow> string) \<Rightarrow> topic_response \<Rightarrow> string" where
  "true_name name_of topic = (if tr_topic topic = '''' then name_of (tr_topic_id topic) else tr_topic topic)"

text \<open>A response that a broker serves from the logs, for the partitions \<open>content\<close> that it reads.\<close>

definition served_from ::
  "(uuid \<Rightarrow> string) \<Rightarrow> isolation_level \<Rightarrow> (topic_partition \<Rightarrow> log)
     \<Rightarrow> (topic_partition \<rightharpoonup> session_partition) \<Rightarrow> fetch_response \<Rightarrow> bool" where
  "served_from name_of isolation logs content response \<longleftrightarrow>
     (\<forall>topic\<in>set (fr_responses response). \<forall>part\<in>set (tr_partitions topic). \<forall>p.
        content (true_name name_of topic, pd_partition_index part) = Some p \<longrightarrow>
        pd_diverging_end_offset part < 0 \<longrightarrow> pd_error_code part = 0 \<longrightarrow>
        fetched_part isolation (logs (true_name name_of topic, pd_partition_index part))
          (sp_fetch_offset p) part)"

definition ids_agree :: "(uuid \<Rightarrow> string) \<Rightarrow> (string \<times> uuid) list \<Rightarrow> bool" where
  "ids_agree name_of topic_ids \<longleftrightarrow> (\<forall>(n, i)\<in>set topic_ids. name_of i = n)"

definition with_result :: "int \<Rightarrow> in_flight_fetch \<Rightarrow> fetch_result \<Rightarrow> consumer \<Rightarrow> consumer" where
  "with_result leader f result c =
     c\<lparr>co_fetches := (co_fetches c)\<lparr>fl_in_flight :=
       AList.update leader (f\<lparr>if_result := Some result\<rparr>) (fl_in_flight (co_fetches c))\<rparr>\<rparr>"

definition row_keys :: "(string \<times> partition_data) list \<Rightarrow> topic_partition list" where
  "row_keys rows = map (\<lambda>(name, part). (name, pd_partition_index part)) rows"

text \<open>Changes of other tasks that leave the fetches, the buffer and the isolation level alone.\<close>

definition unobtrusive :: "(uuid \<Rightarrow> string) \<Rightarrow> (consumer \<Rightarrow> consumer) \<Rightarrow> bool" where
  "unobtrusive name_of others \<longleftrightarrow>
     (\<forall>c. co_fetch_buffer (others c) = co_fetch_buffer c \<and> co_fetches (others c) = co_fetches c
        \<and> co_isolation_level (others c) = co_isolation_level c
        \<and> (ids_agree name_of (co_topic_ids c) \<longrightarrow> ids_agree name_of (co_topic_ids (others c))))"

text \<open>
  What a step shows: the records it delivers; the partitions it considers for new fetches and the
  leaders whose collected results still wait to be taken; the leader that answers, refuses, loses or
  forgets; the rows it absorbs, or the error with which it absorbs none; a change from outside.
\<close>

datatype consumer_event =
    EvDeliver "consumer_record list"
  | EvSend "topic_partition list" "int list"
  | EvServe int
  | EvRefuse int
  | EvLose int
  | EvEvict int
  | EvCollect
  | EvAbsorb "(string \<times> partition_data) list"
  | EvFail consumer_error
  | EvOutside

inductive consumer_step ::
  "(uuid \<Rightarrow> string) \<Rightarrow> (topic_partition \<Rightarrow> log) \<Rightarrow> system \<Rightarrow> consumer_event \<Rightarrow> system \<Rightarrow> bool"
  for name_of logs where
  deliver: "drain_fetch_buffer (sy_consumer s) = (records, c) \<Longrightarrow>
     consumer_step name_of logs s (EvDeliver records) (s\<lparr>sy_consumer := c,
       sy_since := (\<lambda>key. sy_since s key @ records_of key records)\<rparr>)"
| send: "group_fetches knows_broker now (co_assigned (sy_consumer s)) (sy_consumer s) = (by_leader, c) \<Longrightarrow>
     consumer_step name_of logs s
       (EvSend (co_assigned (sy_consumer s)) (map cf_leader (fl_ready (co_fetches (sy_consumer s)))))
       (observe (send_fetches by_leader (co_topic_ids c) c) s)"
| serve_fetch: "map_of (fl_in_flight (co_fetches (sy_consumer s))) leader = Some f \<Longrightarrow> if_result f = None \<Longrightarrow>
     broker_serves (if_request f) (sy_brokers s leader) b content sid \<Longrightarrow>
     fr_error_code response = 0 \<Longrightarrow> fr_session_id response = sid \<Longrightarrow>
     served_from name_of (co_isolation_level (sy_consumer s)) logs content response \<Longrightarrow>
     consumer_step name_of logs s (EvServe leader) (s\<lparr>
       sy_consumer := with_result leader f (Some (Inr response)) (sy_consumer s),
       sy_brokers := (sy_brokers s)(leader := b)\<rparr>)"
| refuse_fetch: "map_of (fl_in_flight (co_fetches (sy_consumer s))) leader = Some f \<Longrightarrow> if_result f = None \<Longrightarrow>
     fr_error_code response \<noteq> 0 \<Longrightarrow>
     consumer_step name_of logs s (EvRefuse leader) (s\<lparr>
       sy_consumer := with_result leader f (Some (Inr response)) (sy_consumer s),
       sy_brokers := (sy_brokers s)(leader := b)\<rparr>)"
| lose_fetch: "map_of (fl_in_flight (co_fetches (sy_consumer s))) leader = Some f \<Longrightarrow> if_result f = None \<Longrightarrow>
     result = None \<or> result = Some (Inl e) \<Longrightarrow>
     consumer_step name_of logs s (EvLose leader) (s\<lparr>sy_consumer := with_result leader f result (sy_consumer s),
       sy_brokers := (sy_brokers s)(leader := b)\<rparr>)"
| drop_session:
    "consumer_step name_of logs s (EvEvict leader) (s\<lparr>sy_brokers := (sy_brokers s)(leader := None)\<rparr>)"
| collect: "consumer_step name_of logs s EvCollect (s\<lparr>sy_consumer :=
     (sy_consumer s)\<lparr>co_fetches := collect_ready (co_fetches (sy_consumer s))\<rparr>\<rparr>)"
| absorb: "take_completed_fetches (co_topic_ids (sy_consumer s)) (sy_consumer s) = (Inr responses, c1) \<Longrightarrow>
     unobtrusive name_of others \<Longrightarrow>
     process_fetch_responses is_known now lookup others responses (co_topic_ids (sy_consumer s)) c1
       = (outcome, c2) \<Longrightarrow>
     consumer_step name_of logs s (EvAbsorb (rows_of (id_to_name (co_topic_ids (sy_consumer s))) responses))
       (observe c2 s)"
| absorb_failure: "take_completed_fetches (co_topic_ids (sy_consumer s)) (sy_consumer s) = (Inl e, c) \<Longrightarrow>
     consumer_step name_of logs s (EvFail e) (observe c s)"
| outside: "co_fetch_buffer c = filter P (co_fetch_buffer (sy_consumer s)) \<Longrightarrow>
     co_fetches c = (co_fetches (sy_consumer s))\<lparr>fl_preferred_read_replicas := replicas\<rparr> \<Longrightarrow>
     co_isolation_level c = co_isolation_level (sy_consumer s) \<Longrightarrow>
     ids_agree name_of (co_topic_ids c) \<Longrightarrow>
     consumer_step name_of logs s EvOutside (observe c s)"

inductive consumer_run ::
  "(uuid \<Rightarrow> string) \<Rightarrow> (topic_partition \<Rightarrow> log) \<Rightarrow> system \<Rightarrow> consumer_event list \<Rightarrow> system \<Rightarrow> bool"
  for name_of logs where
  start: "consumer_run name_of logs s [] s"
| step: "consumer_run name_of logs s events s' \<Longrightarrow> consumer_step name_of logs s' event s'' \<Longrightarrow>
     consumer_run name_of logs s (events @ [event]) s''"

text \<open>
  The side condition of the delivery guarantee.  A partition with an unnamed topic is not fetched, and
  no fetch is sent while a collected result waits.  No row of a partition comes in one poll after a
  row that moves the position of that partition: a row that reports a diverging log, or an offset out
  of range (error code 1).  \<open>poll.rs\<close> does not enforce the last condition.
\<close>

fun settled :: "(string \<times> partition_data) list \<Rightarrow> bool" where
  "settled [] \<longleftrightarrow> True"
| "settled ((name, part) # rows) \<longleftrightarrow>
     (0 \<le> pd_diverging_end_offset part \<or> pd_error_code part = 1 \<longrightarrow>
        (name, pd_partition_index part) \<notin> set (row_keys rows))
     \<and> settled rows"

fun orderly :: "consumer_event \<Rightarrow> bool" where
  "orderly (EvSend assigned waiting) \<longleftrightarrow> waiting = [] \<and> (\<forall>key\<in>set assigned. fst key \<noteq> [])"
| "orderly (EvAbsorb rows) \<longleftrightarrow> settled rows"
| "orderly _ \<longleftrightarrow> True"

section \<open>The invariant\<close>

definition fetch_ok ::
  "(uuid \<Rightarrow> string) \<Rightarrow> isolation_level \<Rightarrow> (topic_partition \<Rightarrow> log) \<Rightarrow> fetch_session \<Rightarrow> broker_session option
     \<Rightarrow> session_request \<Rightarrow> (topic_partition \<times> int) list \<Rightarrow> fetch_result option \<Rightarrow> bool" where
  "fetch_ok name_of isolation logs sess b r requested result \<longleftrightarrow>
     (\<exists>wanted. requested = map (\<lambda>(key, p). (key, sp_fetch_offset p)) wanted
        \<and> (\<forall>key\<in>fst ` set wanted. fst key \<noteq> [])
        \<and> (case result of
             None \<Rightarrow> session_inv sess (Some (wanted, r, None)) b
           | Some (Some (Inr response)) \<Rightarrow>
               session_inv sess (Some (wanted, r, Some (fr_error_code response, fr_session_id response))) b
               \<and> (fr_error_code response = 0 \<longrightarrow> served_from name_of isolation logs (map_of wanted) response)
           | _ \<Rightarrow> True))"

definition leader_ok ::
  "(uuid \<Rightarrow> string) \<Rightarrow> isolation_level \<Rightarrow> (topic_partition \<Rightarrow> log) \<Rightarrow> (int \<Rightarrow> broker_session option)
     \<Rightarrow> fetches \<Rightarrow> int \<Rightarrow> bool" where
  "leader_ok name_of isolation logs bs fl l \<longleftrightarrow>
     (case map_of (fl_in_flight fl) l of
        None \<Rightarrow> session_inv (session_of l fl) None (bs l)
      | Some f \<Rightarrow> fetch_ok name_of isolation logs (session_of l fl) (bs l) (if_request f)
          (if_requested f) (if_result f))"

text \<open>
  \<open>rest\<close> are completed fetches that are not taken yet: their leaders have no fetch in flight, and
  their sessions still wait for the answer.
\<close>

definition rest_ok ::
  "(uuid \<Rightarrow> string) \<Rightarrow> isolation_level \<Rightarrow> (topic_partition \<Rightarrow> log) \<Rightarrow> (int \<Rightarrow> broker_session option)
     \<Rightarrow> completed_fetch list \<Rightarrow> fetches \<Rightarrow> bool" where
  "rest_ok name_of isolation logs bs rest fl \<longleftrightarrow>
     distinct (map cf_leader rest)
     \<and> (\<forall>cf\<in>set rest. map_of (fl_in_flight fl) (cf_leader cf) = None
          \<and> (\<exists>r. fetch_ok name_of isolation logs (session_of (cf_leader cf) fl) (bs (cf_leader cf)) r
                (cf_requested cf) (Some (cf_result cf))))
     \<and> (\<forall>l. l \<notin> cf_leader ` set rest \<longrightarrow> leader_ok name_of isolation logs bs fl l)"

definition since_ok :: "isolation_level \<Rightarrow> (topic_partition \<Rightarrow> log) \<Rightarrow> system \<Rightarrow> bool" where
  "since_ok isolation logs s \<longleftrightarrow>
     (\<forall>key. case map_of (co_next_offsets (sy_consumer s)) key of
        None \<Rightarrow> sy_since s key = []
      | Some b \<Rightarrow> (\<exists>a. sy_start s key = Some a \<and> a \<le> b
          \<and> sy_since s key = visible_between isolation key (logs key) a b))"

definition system_inv :: "(uuid \<Rightarrow> string) \<Rightarrow> (topic_partition \<Rightarrow> log) \<Rightarrow> system \<Rightarrow> bool" where
  "system_inv name_of logs s \<longleftrightarrow>
     (let c = sy_consumer s; isolation = co_isolation_level c
      in (\<forall>bp\<in>set (co_fetch_buffer c). entry_ok isolation logs bp)
         \<and> rest_ok name_of isolation logs (sy_brokers s) (fl_ready (co_fetches c)) (co_fetches c)
         \<and> ids_agree name_of (co_topic_ids c)
         \<and> since_ok isolation logs s)"

section \<open>Sending keeps the sessions in step\<close>

lemma session_of_update [simp]:
  "session_of l (fl\<lparr>fl_sessions := AList.update l' sess (fl_sessions fl)\<rparr>)
     = (if l = l' then sess else session_of l fl)"
  by (simp add: session_of_def update_conv')

lemma session_of_simps [simp]:
  "session_of l (fl\<lparr>fl_in_flight := x\<rparr>) = session_of l fl"
  "session_of l (fl\<lparr>fl_ready := y\<rparr>) = session_of l fl"
  "session_of l (fl\<lparr>fl_preferred_read_replicas := z\<rparr>) = session_of l fl"
  by (simp_all add: session_of_def)

lemma leader_ok_None:
  "map_of (fl_in_flight fl) l = None \<Longrightarrow>
     leader_ok name_of isolation logs bs fl l \<longleftrightarrow> session_inv (session_of l fl) None (bs l)"
  by (simp add: leader_ok_def)

lemma leader_ok_Some:
  "map_of (fl_in_flight fl) l = Some f \<Longrightarrow>
     leader_ok name_of isolation logs bs fl l \<longleftrightarrow> fetch_ok name_of isolation logs (session_of l fl) (bs l)
       (if_request f) (if_requested f) (if_result f)"
  by (simp add: leader_ok_def)

lemma leader_ok_cong:
  "session_of l fl' = session_of l fl \<Longrightarrow> map_of (fl_in_flight fl') l = map_of (fl_in_flight fl) l \<Longrightarrow>
     bs' l = bs l \<Longrightarrow> leader_ok name_of isolation logs bs' fl' l = leader_ok name_of isolation logs bs fl l"
  by (cases "map_of (fl_in_flight fl) l") (simp_all add: leader_ok_None leader_ok_Some)

lemma leader_ok_simps [simp]:
  "leader_ok name_of isolation logs bs (fl\<lparr>fl_ready := y\<rparr>) l = leader_ok name_of isolation logs bs fl l"
  "leader_ok name_of isolation logs bs (fl\<lparr>fl_preferred_read_replicas := z\<rparr>) l
     = leader_ok name_of isolation logs bs fl l"
  by (rule leader_ok_cong; simp)+

lemma hash_entry_set:
  "x \<in> set (hash_entry k d f m) \<Longrightarrow> x \<in> set m \<or> (\<exists>v. x = (k, f v) \<and> (v = d \<or> (k, v) \<in> set m))"
  unfolding hash_entry_def
  by (induction m) (auto split: option.splits if_splits dest: map_of_SomeD)

definition named_groups :: "fetch_by_leader \<Rightarrow> bool" where
  "named_groups grouped \<longleftrightarrow> (\<forall>(_, by_topic)\<in>set grouped. \<forall>(topic, _)\<in>set by_topic. topic \<noteq> [])"

lemma named_groups_entry:
  assumes "named_groups grouped" "topic \<noteq> []"
  shows "named_groups (hash_entry leader [] (hash_entry topic [] g) grouped)"
  unfolding named_groups_def
proof safe
  fix l by_topic t specs
  assume a: "(l, by_topic) \<in> set (hash_entry leader [] (hash_entry topic [] g) grouped)"
    "([], specs) \<in> set by_topic"
  from hash_entry_set [OF a(1)] show False
  proof
    assume "(l, by_topic) \<in> set grouped"
    then show False using a(2) assms(1) unfolding named_groups_def by fast
  next
    assume "\<exists>v. (l, by_topic) = (leader, hash_entry topic [] g v) \<and> (v = [] \<or> (leader, v) \<in> set grouped)"
    then obtain v where v: "by_topic = hash_entry topic [] g v" "v = [] \<or> (leader, v) \<in> set grouped"
      by blast
    have "([], specs) \<in> set v" using hash_entry_set [OF a(2) [unfolded v(1)]] assms(2) by auto
    then show False using v(2) assms(1) unfolding named_groups_def by (auto dest!: bspec)
  qed
qed

lemma group_fetch_named:
  assumes "named_groups grouped" "fst key \<noteq> []"
    and "group_fetch knows_broker now paused c key (grouped, preferred, refresh) = (grouped', preferred', refresh')"
  shows "named_groups grouped'"
  using assms(3) named_groups_entry [OF assms(1,2)] assms(1)
  by (auto simp: group_fetch_def Let_def split: if_splits prod.splits)

lemma group_fetches_effect:
  assumes "group_fetches knows_broker now assigned c = (by_leader, c')"
  shows "\<forall>key\<in>set assigned. fst key \<noteq> [] \<Longrightarrow> named_groups by_leader" "co_fetch_buffer c' = co_fetch_buffer c"
    "\<exists>replicas. co_fetches c' = (co_fetches c)\<lparr>fl_preferred_read_replicas := replicas\<rparr>"
    "co_isolation_level c' = co_isolation_level c" "co_topic_ids c' = co_topic_ids c"
    "co_next_offsets c' = co_next_offsets c"
proof -
  obtain paused c1 where p: "paused_of (co_ownership_ids c) c = (paused, c1)"
    by (cases "paused_of (co_ownership_ids c) c")
  have c1: "co_fetch_buffer c1 = co_fetch_buffer c" "co_fetches c1 = co_fetches c"
    "co_isolation_level c1 = co_isolation_level c" "co_topic_ids c1 = co_topic_ids c"
    "co_next_offsets c1 = co_next_offsets c"
    using p by (auto simp: paused_of_def Let_def)
  obtain g pr rf where f: "fold (group_fetch knows_broker now paused c1) assigned
      ([], fl_preferred_read_replicas (co_fetches c1), False) = (g, pr, rf)"
    by (metis prod_cases3)
  have "named_groups (fst (fold (group_fetch knows_broker now paused c1) keys st))"
    if "named_groups (fst st)" "\<forall>key\<in>set keys. fst key \<noteq> []" for keys st
    using that
  proof (induction keys arbitrary: st)
    case (Cons key keys)
    obtain a b d where st: "st = (a, b, d)" by (cases st)
    obtain a' b' d' where st': "group_fetch knows_broker now paused c1 key st = (a', b', d')"
      by (metis prod_cases3)
    have "named_groups a'"
      using group_fetch_named [OF _ _ st' [unfolded st]] Cons.prems st by simp
    then show ?case using Cons.IH [of "(a', b', d')"] Cons.prems(2) st' by simp
  qed simp
  from this [of "([], fl_preferred_read_replicas (co_fetches c1), False)" assigned]
  have "\<forall>key\<in>set assigned. fst key \<noteq> [] \<Longrightarrow> named_groups g"
    using f by (simp add: named_groups_def)
  then show "\<forall>key\<in>set assigned. fst key \<noteq> [] \<Longrightarrow> named_groups by_leader" "co_fetch_buffer c' = co_fetch_buffer c"
    "\<exists>replicas. co_fetches c' = (co_fetches c)\<lparr>fl_preferred_read_replicas := replicas\<rparr>"
    "co_isolation_level c' = co_isolation_level c" "co_topic_ids c' = co_topic_ids c"
    "co_next_offsets c' = co_next_offsets c"
    using assms(1) c1 unfolding group_fetches_def p prod.case Let_def f by auto
qed

lemma wanted_named:
  assumes "\<forall>(topic, _)\<in>set by_topic. topic \<noteq> []"
  shows "\<forall>key\<in>fst ` set (wanted_partitions topic_ids partition_max by_topic). fst key \<noteq> []"
proof
  fix key
  let ?kvs = "concat (map (\<lambda>(topic, specs).
    let topic_id = (case map_of topic_ids topic of None \<Rightarrow> ZERO_UUID | Some i \<Rightarrow> i)
    in map (\<lambda>spec. ((topic, fst spec), session_partition topic_id spec partition_max)) specs) by_topic)"
  assume "key \<in> fst ` set (wanted_partitions topic_ids partition_max by_topic)"
  then have "key \<in> fst ` set ?kvs"
    using btree_collect_keys [of ?kvs] unfolding wanted_partitions_def by simp
  then obtain topic specs where "(topic, specs) \<in> set by_topic" "fst key = topic"
    by (auto simp: Let_def)
  then show "fst key \<noteq> []" using assms by blast
qed

lemma send_fetch_ok:
  assumes "\<forall>l. leader_ok name_of isolation logs bs fl l" "\<forall>(topic, _)\<in>set by_topic. topic \<noteq> []"
  shows "leader_ok name_of isolation logs bs (send_fetch topic_ids partition_max (leader, by_topic) fl) l"
proof (cases "map_of (fl_in_flight fl) leader")
  case (Some f)
  then show ?thesis using assms(1) by (simp add: send_fetch_def)
next
  case None
  let ?w = "wanted_partitions topic_ids partition_max by_topic"
  obtain r sess where b: "build ?w (session_of leader fl) = (r, sess)"
    by (cases "build ?w (session_of leader fl)")
  have "session_inv (session_of leader fl) None (bs leader)"
    using assms(1) leader_ok_None [OF None] by blast
  moreover have "distinct (map fst ?w)"
    using btree_collect_wf unfolding wanted_partitions_def btree_wf_def by blast
  ultimately have inv: "session_inv sess (Some (?w, r, None)) (bs leader)"
    using session_inv_ask b by blast
  let ?fl = "send_fetch topic_ids partition_max (leader, by_topic) fl"
  have fl: "session_of l ?fl = (if l = leader then sess else session_of l fl)"
    by (simp add: send_fetch_def None b Let_def)
  obtain f where f: "fl_in_flight ?fl = AList.update leader f (fl_in_flight fl)" "if_request f = r"
    "if_result f = None" "if_requested f = map (\<lambda>(key, p). (key, sp_fetch_offset p)) ?w"
    by (auto simp: send_fetch_def None b Let_def)
  show ?thesis
  proof (cases "l = leader")
    case True
    then have "map_of (fl_in_flight ?fl) l = Some f" by (simp add: f(1) update_conv')
    moreover have "fetch_ok name_of isolation logs sess (bs leader) r (if_requested f) None"
      unfolding fetch_ok_def f(4) using inv wanted_named [OF assms(2), of topic_ids partition_max]
      by (intro exI [of _ ?w]) simp
    ultimately show ?thesis using True fl f(2,3) by (simp add: leader_ok_Some)
  next
    case False
    then show ?thesis
      using assms(1) leader_ok_cong [of l ?fl fl bs bs] fl by (simp add: f(1) update_conv')
  qed
qed

lemma send_fetches_ok:
  assumes "\<forall>l. leader_ok name_of isolation logs bs fl l" "named_groups by_leader"
  shows "\<forall>l. leader_ok name_of isolation logs bs (fold (send_fetch topic_ids partition_max) by_leader fl) l"
  using assms
proof (induction by_leader arbitrary: fl)
  case (Cons x by_leader)
  obtain leader by_topic where x: "x = (leader, by_topic)" by (cases x)
  have "named_groups by_leader" "\<forall>(topic, _)\<in>set by_topic. topic \<noteq> []"
    using Cons.prems(2) unfolding x named_groups_def by auto
  then show ?case
    using Cons.IH [of "send_fetch topic_ids partition_max x fl"] send_fetch_ok [OF Cons.prems(1)]
    unfolding x by simp
qed simp

lemma send_fetch_ready: "fl_ready (send_fetch topic_ids partition_max x fl) = fl_ready fl"
  by (auto simp: send_fetch_def Let_def split: prod.splits)

lemma send_fetches_ready:
  "fl_ready (fold (send_fetch topic_ids partition_max) by_leader fl) = fl_ready fl"
  by (induction by_leader arbitrary: fl) (simp_all add: send_fetch_ready)

section \<open>Taking results keeps the sessions in step\<close>

lemma rest_ok_Nil [simp]:
  "rest_ok name_of isolation logs bs [] fl \<longleftrightarrow> (\<forall>l. leader_ok name_of isolation logs bs fl l)"
  by (simp add: rest_ok_def)

lemma rest_ok_frame [simp]:
  "rest_ok name_of isolation logs bs rest (fl\<lparr>fl_preferred_read_replicas := x\<rparr>) = rest_ok name_of isolation logs bs rest fl"
  "rest_ok name_of isolation logs bs rest (fl\<lparr>fl_ready := y\<rparr>) = rest_ok name_of isolation logs bs rest fl"
  by (simp_all add: rest_ok_def)

lemma map_of_delete: "map_of (AList.delete k m) x = (if x = k then None else map_of m x)"
  by (simp add: delete_conv')

lemma collect_fetch_ok:
  assumes "rest_ok name_of isolation logs bs (fl_ready fl) fl"
  shows "rest_ok name_of isolation logs bs (fl_ready (collect_fetch leader fl)) (collect_fetch leader fl)"
proof -
  consider "collect_fetch leader fl = fl"
    | f result where "map_of (fl_in_flight fl) leader = Some f" "if_result f = Some result"
  proof -
    have "collect_fetch leader fl = fl
      \<or> (\<exists>f result. map_of (fl_in_flight fl) leader = Some f \<and> if_result f = Some result)"
      by (simp add: collect_fetch_def split: option.split)
    then show thesis using that by blast
  qed
  then show ?thesis
  proof cases
    case (2 f result)
    define cf where "cf = \<lparr>cf_leader = leader, cf_requested = if_requested f,
      cf_from_replica = if_from_replica f, cf_result = result\<rparr>"
    define fl' where "fl' = collect_fetch leader fl"
    have fl': "fl_ready fl' = fl_ready fl @ [cf]" "fl_in_flight fl' = AList.delete leader (fl_in_flight fl)"
      "session_of l fl' = session_of l fl" for l
      using 2 by (simp_all add: fl'_def cf_def collect_fetch_def)
    have new: "leader \<notin> cf_leader ` set (fl_ready fl)"
      using assms 2(1) unfolding rest_ok_def by auto
    then have "leader_ok name_of isolation logs bs fl leader" using assms unfolding rest_ok_def by blast
    then have "fetch_ok name_of isolation logs (session_of leader fl) (bs leader) (if_request f)
        (cf_requested cf) (Some (cf_result cf))"
      using leader_ok_Some [OF 2(1)] 2(2) by (simp add: cf_def)
    moreover have "leader_ok name_of isolation logs bs fl' l" if "l \<notin> cf_leader ` set (fl_ready fl)" "l \<noteq> leader" for l
      using assms that leader_ok_cong [of l fl' fl bs bs] unfolding rest_ok_def
      by (auto simp: fl' map_of_delete)
    ultimately show ?thesis
      using assms new unfolding fl'_def [symmetric] rest_ok_def fl'
      by (auto simp: cf_def map_of_delete)
  qed (use assms in simp)
qed

lemma collect_ready_ok:
  assumes "rest_ok name_of isolation logs bs (fl_ready fl) fl"
  shows "rest_ok name_of isolation logs bs (fl_ready (collect_ready fl)) (collect_ready fl)"
proof -
  have "rest_ok name_of isolation logs bs (fl_ready fl) fl \<Longrightarrow>
      rest_ok name_of isolation logs bs (fl_ready (fold collect_fetch ls fl)) (fold collect_fetch ls fl)" for ls fl
    by (induction ls arbitrary: fl) (simp_all add: collect_fetch_ok)
  then show ?thesis using assms unfolding collect_ready_def by simp
qed

text \<open>A taken response: its rows come from the logs at the current positions.\<close>

definition response_ok ::
  "isolation_level \<Rightarrow> (topic_partition \<Rightarrow> log) \<Rightarrow> (uuid \<times> string) list \<Rightarrow> next_offsets \<Rightarrow> fetch_response \<Rightarrow> bool"
where
  "response_ok isolation logs names offsets response \<longleftrightarrow>
     (\<forall>topic\<in>set (fr_responses response). \<forall>part\<in>set (tr_partitions topic).
        pd_diverging_end_offset part < 0 \<longrightarrow> pd_error_code part = 0 \<longrightarrow>
        fetched_part isolation (logs (topic_name names topic, pd_partition_index part))
          (last_offset offsets (topic_name names topic, pd_partition_index part)) part)"

lemma id_to_name_entry:
  "map_of (fold (\<lambda>(n, i). AList.update i n) ids m) i = Some n \<Longrightarrow> (n, i) \<in> set ids \<or> map_of m i = Some n"
proof (induction ids arbitrary: m)
  case (Cons x ids)
  obtain n' i' where x: "x = (n', i')" by (cases x)
  have "(n, i) \<in> set ids \<or> map_of (AList.update i' n' m) i = Some n"
    using Cons.IH [of "AList.update i' n' m"] Cons.prems unfolding x by simp
  then show ?case unfolding x by (cases "i = i'") (auto simp: update_conv')
qed simp

lemma id_to_name_sound:
  assumes "ids_agree name_of topic_ids" "map_of (id_to_name topic_ids) i = Some n"
  shows "name_of i = n"
  using id_to_name_entry [OF assms(2) [unfolded id_to_name_def]] assms(1)
  unfolding ids_agree_def by auto

lemma topic_name_true:
  assumes "ids_agree name_of topic_ids" "topic_name (id_to_name topic_ids) topic \<noteq> []"
  shows "topic_name (id_to_name topic_ids) topic = true_name name_of topic"
  using assms(2) id_to_name_sound [OF assms(1)]
  by (auto simp: topic_name_def true_name_def split: option.splits if_splits)

lemma retained_response_ok:
  assumes "served_from name_of isolation logs (map_of wanted) response"
    and "cf_requested fetch = map (\<lambda>(key, p). (key, sp_fetch_offset p)) wanted"
    and "\<forall>key\<in>fst ` set wanted. fst key \<noteq> []" "ids_agree name_of topic_ids"
  shows "response_ok isolation logs (id_to_name topic_ids) offsets
    (retain_response fetch offsets (id_to_name topic_ids) response)"
  unfolding response_ok_def
proof (intro ballI impI)
  let ?names = "id_to_name topic_ids"
  fix topic' part
  assume t': "topic' \<in> set (fr_responses (retain_response fetch offsets ?names response))"
    and p: "part \<in> set (tr_partitions topic')" and d: "pd_diverging_end_offset part < 0" "pd_error_code part = 0"
  obtain topic where t: "topic \<in> set (fr_responses response)"
    "topic' = topic\<lparr>tr_partitions := filter (retain_row fetch offsets (topic_name ?names topic)) (tr_partitions topic)\<rparr>"
    using t' unfolding retain_response_def by auto
  define key where "key = (topic_name ?names topic, pd_partition_index part)"
  have name: "topic_name ?names topic' = topic_name ?names topic" unfolding t(2) by (simp add: topic_name_def)
  have part: "part \<in> set (tr_partitions topic)" "retain_row fetch offsets (topic_name ?names topic) part"
    using p unfolding t(2) by simp_all
  have "map_of (cf_requested fetch) key = Some (last_offset offsets key)"
    using part(2) unfolding retain_row_def Let_def key_def [symmetric] by (auto split: option.splits)
  then obtain sp where sp: "map_of wanted key = Some sp" "sp_fetch_offset sp = last_offset offsets key"
    unfolding assms(2) map_of_map o_def by (auto simp: map_option_eq_Some)
  have "key \<in> fst ` set wanted" using map_of_SomeD [OF sp(1)] by (rule image_eqI [rotated]) simp
  then have "fst key \<noteq> []" using assms(3) by blast
  then have "key = (true_name name_of topic, pd_partition_index part)"
    using topic_name_true [OF assms(4)] unfolding key_def by simp
  then have "fetched_part isolation (logs key) (sp_fetch_offset sp) part"
    using assms(1) [unfolded served_from_def, rule_format, OF t(1) part(1), of sp] sp(1) d by simp
  then show "fetched_part isolation (logs (topic_name ?names topic', pd_partition_index part))
      (last_offset offsets (topic_name ?names topic', pd_partition_index part)) part"
    using sp(2) unfolding name key_def by simp
qed

lemma rest_ok_taken:
  assumes "rest_ok name_of isolation logs bs (cf # rest) fl"
    and "session_inv sess None (bs (cf_leader cf))" "fl_in_flight fl' = fl_in_flight fl"
    and "\<And>l. session_of l fl' = (if l = cf_leader cf then sess else session_of l fl)"
  shows "rest_ok name_of isolation logs bs rest fl'"
proof -
  have other: "session_of (cf_leader x) fl' = session_of (cf_leader x) fl" if "x \<in> set rest" for x
    using assms(1,4) that unfolding rest_ok_def by (auto intro: rev_image_eqI)
  have "leader_ok name_of isolation logs bs fl' l" if "l \<notin> cf_leader ` set rest" for l
  proof (cases "l = cf_leader cf")
    case True
    then have "map_of (fl_in_flight fl') l = None"
      using assms(1,3) unfolding rest_ok_def by simp
    then show ?thesis using leader_ok_None assms(2,4) True by simp
  next
    case False
    then have "leader_ok name_of isolation logs bs fl l" using assms(1) that unfolding rest_ok_def by simp
    then show ?thesis using leader_ok_cong [of l fl' fl bs bs] assms(3,4) False by simp
  qed
  then show ?thesis
    using assms(1,3) other unfolding rest_ok_def by auto
qed

lemma take_fetch_ok:
  assumes rest: "rest_ok name_of isolation logs bs (cf # rest) fl" and ids: "ids_agree name_of topic_ids"
    and "\<forall>response\<in>set responses. response_ok isolation logs (id_to_name topic_ids) offsets response"
    and take: "take_fetch offsets (id_to_name topic_ids) cf (fl, responses, failure) = (fl', responses', failure')"
  shows "rest_ok name_of isolation logs bs rest fl' \<and> fl_ready fl' = fl_ready fl
    \<and> (\<forall>response\<in>set responses'. response_ok isolation logs (id_to_name topic_ids) offsets response)"
proof -
  let ?l = "cf_leader cf" and ?names = "id_to_name topic_ids"
  obtain r where fo: "fetch_ok name_of isolation logs (session_of ?l fl) (bs ?l) r (cf_requested cf) (Some (cf_result cf))"
    using rest unfolding rest_ok_def by auto
  consider (answer) response where "cf_result cf = Some (Inr response)"
    | (failed) "\<nexists>response. cf_result cf = Some (Inr response)" by blast
  then show ?thesis
  proof cases
    case answer
    obtain wanted where w: "cf_requested cf = map (\<lambda>(key, p). (key, sp_fetch_offset p)) wanted"
      "\<forall>key\<in>fst ` set wanted. fst key \<noteq> []"
      "session_inv (session_of ?l fl) (Some (wanted, r, Some (fr_error_code response, fr_session_id response))) (bs ?l)"
      "fr_error_code response = 0 \<Longrightarrow> served_from name_of isolation logs (map_of wanted) response"
      using fo unfolding fetch_ok_def answer by auto
    obtain usable sess where h: "handle_response (fr_error_code response) (fr_session_id response)
        (response_rows response) (fr_throttle_time_ms response) (session_of ?l fl) = (usable, sess)"
      by (cases "handle_response (fr_error_code response) (fr_session_id response)
        (response_rows response) (fr_throttle_time_ms response) (session_of ?l fl)")
    have inv: "session_inv sess None (bs ?l)" using session_inv_receive(1) [OF w(3) h] .
    have new: "response_ok isolation logs ?names offsets (retain_response cf offsets ?names response)" if usable
      using retained_response_ok [OF w(4) w(1,2) ids] session_inv_receive(2) [OF w(3) h that] by simp
    have "fl_in_flight fl' = fl_in_flight fl" "fl_ready fl' = fl_ready fl"
      "session_of l fl' = (if l = ?l then sess else session_of l fl)"
      "set responses' \<subseteq> set responses \<union> (if usable then {retain_response cf offsets ?names response} else {})" for l
      using take h by (auto simp: take_fetch_def answer Let_def split: if_splits)
    then show ?thesis using rest_ok_taken [OF rest inv] new assms(3) by (auto split: if_splits)
  next
    case failed
    then have "fl_in_flight fl' = fl_in_flight fl" "fl_ready fl' = fl_ready fl"
      "session_of l fl' = (if l = ?l then handle_error (session_of ?l fl) else session_of l fl)"
      "responses' = responses" for l
      using take by (auto simp: take_fetch_def Let_def split: option.splits sum.splits if_splits)
    then show ?thesis using rest_ok_taken [OF rest session_inv_lose] assms(3) by auto
  qed
qed

lemma take_fetches_ok:
  assumes "rest_ok name_of isolation logs bs rest fl" "ids_agree name_of topic_ids"
    and "\<forall>response\<in>set responses. response_ok isolation logs (id_to_name topic_ids) offsets response"
    and "fold (take_fetch offsets (id_to_name topic_ids)) rest (fl, responses, failure) = (fl', responses', failure')"
  shows "(\<forall>l. leader_ok name_of isolation logs bs fl' l) \<and> fl_ready fl' = fl_ready fl
    \<and> (\<forall>response\<in>set responses'. response_ok isolation logs (id_to_name topic_ids) offsets response)"
  using assms(1,3,4)
proof (induction rest arbitrary: fl responses failure)
  case (Cons cf rest)
  obtain fl1 responses1 failure1 where t: "take_fetch offsets (id_to_name topic_ids) cf (fl, responses, failure)
      = (fl1, responses1, failure1)" by (metis prod_cases3)
  note ok = take_fetch_ok [OF Cons.prems(1) assms(2) Cons.prems(2) t]
  then show ?case using Cons.IH [of fl1 responses1 failure1] Cons.prems(3) t by simp
qed simp

lemma take_completed_ok:
  assumes "rest_ok name_of isolation logs bs (fl_ready (co_fetches c)) (co_fetches c)"
    and "ids_agree name_of topic_ids" "take_completed_fetches topic_ids c = (result, c')"
  shows "\<forall>l. leader_ok name_of isolation logs bs (co_fetches c') l" "fl_ready (co_fetches c') = []"
    "\<exists>fl. c' = c\<lparr>co_fetches := fl\<rparr>"
    "\<And>responses response. result = Inr responses \<Longrightarrow> response \<in> set responses \<Longrightarrow>
       response_ok isolation logs (id_to_name topic_ids) (co_next_offsets c) response"
proof -
  define fl where "fl = collect_ready (co_fetches c)"
  have ready: "rest_ok name_of isolation logs bs (fl_ready fl) fl"
    unfolding fl_def by (rule collect_ready_ok [OF assms(1)])
  then have rest: "rest_ok name_of isolation logs bs (fl_ready fl) (fl\<lparr>fl_ready := []\<rparr>)"
    by (simp add: rest_ok_def)
  obtain fl' responses failure where f: "fold (take_fetch (co_next_offsets c) (id_to_name topic_ids))
      (fl_ready fl) (fl\<lparr>fl_ready := []\<rparr>, [], None) = (fl', responses, failure)" by (metis prod_cases3)
  have ok: "(\<forall>l. leader_ok name_of isolation logs bs fl' l) \<and> fl_ready fl' = []
    \<and> (\<forall>response\<in>set responses. response_ok isolation logs (id_to_name topic_ids) (co_next_offsets c) response)"
    using take_fetches_ok [OF rest assms(2) _ f] by simp
  have "(\<forall>l. leader_ok name_of isolation logs bs (co_fetches c') l) \<and> fl_ready (co_fetches c') = []
    \<and> (\<exists>fl. c' = c\<lparr>co_fetches := fl\<rparr>) \<and> (\<forall>rs. result = Inr rs \<longrightarrow> set rs \<subseteq> set responses)"
  proof (cases "fl_ready fl = []")
    case True
    then show ?thesis
      using ready assms(3) by (auto simp: take_completed_fetches_def fl_def [symmetric])
  next
    case False
    then have "c' = c\<lparr>co_fetches := fl'\<rparr>" "\<forall>rs. result = Inr rs \<longrightarrow> rs = responses"
      using assms(3) f by (auto simp: take_completed_fetches_def fl_def [symmetric] split: option.splits)
    then show ?thesis using ok by auto
  qed
  then show "\<forall>l. leader_ok name_of isolation logs bs (co_fetches c') l" "fl_ready (co_fetches c') = []"
    "\<exists>fl. c' = c\<lparr>co_fetches := fl\<rparr>"
    "\<And>rs response. result = Inr rs \<Longrightarrow> response \<in> set rs \<Longrightarrow>
       response_ok isolation logs (id_to_name topic_ids) (co_next_offsets c) response"
    using ok by blast+
qed

section \<open>Processing rows buffers what is visible\<close>

definition row_ok ::
  "isolation_level \<Rightarrow> (topic_partition \<Rightarrow> log) \<Rightarrow> next_offsets \<Rightarrow> string \<times> partition_data \<Rightarrow> bool" where
  "row_ok isolation logs offsets = (\<lambda>(name, part).
     pd_diverging_end_offset part < 0 \<longrightarrow> pd_error_code part = 0 \<longrightarrow>
     fetched_part isolation (logs (name, pd_partition_index part))
       (last_offset offsets (name, pd_partition_index part)) part)"

lemma rows_of_ok:
  assumes "\<And>response. response \<in> set responses \<Longrightarrow> response_ok isolation logs names offsets response"
    and "row \<in> set (rows_of names responses)"
  shows "row_ok isolation logs offsets row"
  using assms unfolding rows_of_def row_ok_def response_ok_def by fastforce

lemma process_row_offsets:
  assumes "process_row is_known still_owned c name part s = (failure, s')"
    and "key \<noteq> (name, pd_partition_index part) \<or> pd_diverging_end_offset part < 0 \<and> pd_error_code part \<noteq> 1"
  shows "map_of (rs_offsets s') key = map_of (rs_offsets s) key"
  using assms
  by (auto simp: process_row_def handle_truncation_in_poll_def reset_row_def reroute_row_def revalidate_row_def
      classify_fetch_partition_error_def Let_def update_conv' split: if_splits fetch_partition_action.splits auto_offset_reset.splits option.splits)

lemma process_row_fetched:
  assumes "process_row is_known still_owned c name part s = (failure, s')"
  shows "rs_fetched s' = rs_fetched s
    \<or> pd_diverging_end_offset part < 0 \<and> pd_error_code part = 0
      \<and> (\<exists>bp. rs_fetched s' = rs_fetched s @ [bp]
           \<and> process_partition_records (co_isolation_level c) (rs_offsets s)
               (name, pd_partition_index part) name part = Some bp)"
  using assms
  by (auto simp: process_row_def handle_truncation_in_poll_def reset_row_def reroute_row_def revalidate_row_def
      classify_fetch_partition_error_def Let_def
      split: if_splits fetch_partition_action.splits auto_offset_reset.splits option.splits)

lemma process_row_ok:
  assumes wf: "logs_wf logs" and "row_ok (co_isolation_level c) logs (rs_offsets s) (name, part)"
    and "\<forall>bp\<in>set (rs_fetched s). entry_ok (co_isolation_level c) logs bp"
    and step: "process_row is_known still_owned c name part s = (failure, s')"
  shows "\<forall>bp\<in>set (rs_fetched s'). entry_ok (co_isolation_level c) logs bp"
proof -
  let ?key = "(name, pd_partition_index part)" and ?i = "co_isolation_level c"
  consider (same) "rs_fetched s' = rs_fetched s"
    | (new) bp where "pd_diverging_end_offset part < 0" "pd_error_code part = 0" "rs_fetched s' = rs_fetched s @ [bp]"
        "process_partition_records ?i (rs_offsets s) ?key name part = Some bp"
    using process_row_fetched [OF step] by blast
  then show ?thesis
  proof cases
    case same
    then show ?thesis using assms(3) by simp
  next
    case new
    have "fetched_part ?i (logs ?key) (last_offset (rs_offsets s) ?key) part"
      using assms(2) new(1,2) unfolding row_ok_def by simp
    note facts = process_partition_records_visible [of ?i "rs_offsets s" ?key part bp, OF _ this logs_wfD [OF wf]]
    have "entry_ok ?i logs bp"
      using facts new(4) by (auto simp: entry_ok_def last_offset_def split: option.splits)
    then show ?thesis using assms(3) new(3) by simp
  qed
qed

lemma process_rows_ok:
  assumes "logs_wf logs" "settled rows"
    and "\<And>row. row \<in> set rows \<Longrightarrow> row_ok (co_isolation_level c) logs (rs_offsets s) row"
    and "\<forall>bp\<in>set (rs_fetched s). entry_ok (co_isolation_level c) logs bp"
    and "process_rows is_known still_owned c rows s = (failure, s')"
  shows "\<forall>bp\<in>set (rs_fetched s'). entry_ok (co_isolation_level c) logs bp"
  using assms(2-)
proof (induction is_known still_owned c rows s rule: process_rows.induct)
  case (2 is_known still_owned c name part rows s)
  obtain failure1 s1 where p: "process_row is_known still_owned c name part s = (failure1, s1)"
    by (cases "process_row is_known still_owned c name part s")
  have ok: "\<forall>bp\<in>set (rs_fetched s1). entry_ok (co_isolation_level c) logs bp"
    using process_row_ok [OF assms(1) _ "2.prems"(3) p] "2.prems"(2) by simp
  show ?case
  proof (cases failure1)
    case None
    have "row_ok (co_isolation_level c) logs (rs_offsets s1) row" if r: "row \<in> set rows" for row
    proof -
      obtain name' part' where row: "row = (name', part')" by (cases row)
      have row_key: "(name', pd_partition_index part') \<in> set (row_keys rows)"
        using r unfolding row row_keys_def by force
      have "(name', pd_partition_index part') \<noteq> (name, pd_partition_index part)
          \<or> pd_diverging_end_offset part < 0 \<and> pd_error_code part \<noteq> 1"
        using "2.prems"(1) row_key by (auto simp: not_le)
      then have "map_of (rs_offsets s1) (name', pd_partition_index part')
          = map_of (rs_offsets s) (name', pd_partition_index part')" by (rule process_row_offsets [OF p])
      then show ?thesis using "2.prems"(2) [of row] r unfolding row row_ok_def last_offset_def by simp
    qed
    moreover have "process_rows is_known still_owned c rows s1 = (failure, s')" "settled rows"
      using "2.prems"(1,4) p None by simp_all
    ultimately show ?thesis using "2.IH" p [symmetric] None ok by blast
  next
    case (Some e)
    then show ?thesis using "2.prems"(4) p ok by simp
  qed
qed simp

lemma fold_push: "fold fetch_buffer_push xs buf = buf @ xs"
  by (induction xs arbitrary: buf) (simp_all add: fetch_buffer_push_def)

lemma recover_out_of_range_frame:
  assumes "recover_out_of_range answer out_of_range c = (outcome, c')"
  shows "co_fetch_buffer c' = co_fetch_buffer c" "co_fetches c' = co_fetches c"
    "co_isolation_level c' = co_isolation_level c" "co_topic_ids c' = co_topic_ids c"
  using assms by (auto simp: recover_out_of_range_def Let_def split: sum.splits option.splits if_splits)

lemma process_fetch_responses_ok:
  assumes wf: "logs_wf logs" and others: "unobtrusive name_of others"
    and "settled (rows_of (id_to_name topic_ids) responses)"
    and "\<And>response. response \<in> set responses \<Longrightarrow>
      response_ok (co_isolation_level c) logs (id_to_name topic_ids) (co_next_offsets c) response"
    and ids: "ids_agree name_of (co_topic_ids c)"
    and step: "process_fetch_responses is_known now lookup others responses topic_ids c = (outcome, c')"
  shows "co_isolation_level c' = co_isolation_level c" "ids_agree name_of (co_topic_ids c')"
    "\<exists>replicas. co_fetches c' = (co_fetches c)\<lparr>fl_preferred_read_replicas := replicas\<rparr>"
    "\<exists>new. (\<forall>bp\<in>set new. entry_ok (co_isolation_level c) logs bp) \<and> co_fetch_buffer c' = co_fetch_buffer c @ new"
proof -
  let ?s = "\<lparr>rs_offsets = co_next_offsets c, rs_positions = co_positions c,
             rs_end_offsets = co_end_offsets c, rs_fetched = [], rs_refresh = False,
             rs_update_requested = co_update_requested c, rs_out_of_range = [],
             rs_polled_resets = [], rs_replica_updates = []\<rparr>"
  let ?rows = "rows_of (id_to_name topic_ids) responses"
  obtain failure s where p: "process_rows is_known (set (co_assigned c)) c ?rows ?s = (failure, s)"
    by (cases "process_rows is_known (set (co_assigned c)) c ?rows ?s")
  have new: "\<forall>bp\<in>set (rs_fetched s). entry_ok (co_isolation_level c) logs bp"
    using process_rows_ok [OF wf assms(3) _ _ p] rows_of_ok [OF assms(4)] by simp
  define c1 where "c1 = c\<lparr>co_next_offsets := rs_offsets s, co_positions := rs_positions s,
    co_end_offsets := rs_end_offsets s, co_update_requested := rs_update_requested s\<rparr>"
  define c2 where "c2 = c1\<lparr>co_polled := map_option (reset_polled (rs_polled_resets s)) (co_polled c1),
    co_fetches := (co_fetches c1)\<lparr>fl_preferred_read_replicas :=
      fold (update_replica (now + co_metadata_max_age c1)) (rs_replica_updates s)
        (fl_preferred_read_replicas (co_fetches c1))\<rparr>,
    co_fetch_buffer := fold fetch_buffer_push (rs_fetched s) (co_fetch_buffer c1)\<rparr>"
  let ?lookup = "lookup (map fst (rs_out_of_range s)) c2"
  note step' = step [unfolded process_fetch_responses_def Let_def p prod.case, folded c1_def, folded c2_def]
  have c2: "co_isolation_level c2 = co_isolation_level c" "co_topic_ids c2 = co_topic_ids c"
    "\<exists>replicas. co_fetches c2 = (co_fetches c)\<lparr>fl_preferred_read_replicas := replicas\<rparr>"
    "co_fetch_buffer c2 = co_fetch_buffer c @ rs_fetched s"
    by (auto simp: c2_def c1_def fold_push)
  have o: "co_isolation_level (others c2) = co_isolation_level c2" "ids_agree name_of (co_topic_ids (others c2))"
    "co_fetches (others c2) = co_fetches c2" "co_fetch_buffer (others c2) = co_fetch_buffer c2"
    using others [unfolded unobtrusive_def, rule_format, of c2] ids c2(2) by simp_all
  consider (failed) "c' = c1"
    | (plain) flag where "c' = c2\<lparr>co_update_requested := flag\<rparr>"
    | (recovered) outcome1 c3 flag where "recover_out_of_range ?lookup (rs_out_of_range s) (others c2) = (outcome1, c3)"
        "c' = c3 \<or> c' = c3\<lparr>co_update_requested := flag\<rparr>"
  proof (cases failure)
    case None
    obtain outcome1 c3 where r: "recover_out_of_range ?lookup (rs_out_of_range s) (others c2) = (outcome1, c3)"
      by (cases "recover_out_of_range ?lookup (rs_out_of_range s) (others c2)")
    show thesis
    proof (cases "rs_out_of_range s = []")
      case True
      then show thesis using plain [of "co_update_requested c2 \<or> rs_refresh s"] step' None by simp
    next
      case False
      then have "(case outcome1 of Inl e \<Rightarrow> (Inl e, c3)
          | Inr retry \<Rightarrow> (Inr (), c3\<lparr>co_update_requested := co_update_requested c3 \<or> retry \<or> rs_refresh s\<rparr>))
        = (outcome, c')" using step' None r by simp
      then show thesis using recovered [OF r] by (cases outcome1) auto
    qed
  qed (use failed step' in simp)
  then have "co_isolation_level c' = co_isolation_level c \<and> ids_agree name_of (co_topic_ids c')
    \<and> (\<exists>replicas. co_fetches c' = (co_fetches c)\<lparr>fl_preferred_read_replicas := replicas\<rparr>)
    \<and> (\<exists>new. (\<forall>bp\<in>set new. entry_ok (co_isolation_level c) logs bp) \<and> co_fetch_buffer c' = co_fetch_buffer c @ new)"
  proof cases
    case failed
    have "co_fetches c = (co_fetches c)\<lparr>fl_preferred_read_replicas := fl_preferred_read_replicas (co_fetches c)\<rparr>"
      by simp
    then show ?thesis using failed ids unfolding c1_def
      by (intro conjI exI [of _ "fl_preferred_read_replicas (co_fetches c)"] exI [of _ "[]"]) simp_all
  next
    case plain
    then show ?thesis using c2 new ids by auto
  next
    case recovered
    note r = recover_out_of_range_frame [OF recovered(1)]
    have "co_isolation_level c' = co_isolation_level c3" "co_topic_ids c' = co_topic_ids c3"
      "co_fetches c' = co_fetches c3" "co_fetch_buffer c' = co_fetch_buffer c3"
      using recovered(2) by auto
    then show ?thesis using r o c2 new by auto
  qed
  then show "co_isolation_level c' = co_isolation_level c" "ids_agree name_of (co_topic_ids c')"
    "\<exists>replicas. co_fetches c' = (co_fetches c)\<lparr>fl_preferred_read_replicas := replicas\<rparr>"
    "\<exists>new. (\<forall>bp\<in>set new. entry_ok (co_isolation_level c) logs bp) \<and> co_fetch_buffer c' = co_fetch_buffer c @ new"
    by blast+
qed

section \<open>Every step keeps the invariant\<close>

lemma visible_between_empty [simp]: "visible_between isolation key lg a a = []"
  by (auto simp: visible_between_def filter_empty_conv)

lemma since_ok_None:
  "since_ok isolation logs s \<Longrightarrow> map_of (co_next_offsets (sy_consumer s)) key = None \<Longrightarrow> sy_since s key = []"
  unfolding since_ok_def by (drule spec [of _ key]) simp

lemma since_ok_Some:
  assumes "since_ok isolation logs s" "map_of (co_next_offsets (sy_consumer s)) key = Some b"
  obtains a where "sy_start s key = Some a" "a \<le> b"
    "sy_since s key = visible_between isolation key (logs key) a b"
  using assms(1) [unfolded since_ok_def, rule_format, of key] assms(2) by auto

lemma since_ok_observe:
  assumes "since_ok isolation logs s"
  shows "since_ok isolation logs (observe c s)"
  unfolding since_ok_def
proof
  fix key
  show "case map_of (co_next_offsets (sy_consumer (observe c s))) key of
      None \<Rightarrow> sy_since (observe c s) key = []
    | Some b \<Rightarrow> (\<exists>a. sy_start (observe c s) key = Some a \<and> a \<le> b
        \<and> sy_since (observe c s) key = visible_between isolation key (logs key) a b)"
  proof (cases "map_of (co_next_offsets c) key = map_of (co_next_offsets (sy_consumer s)) key")
    case True
    then have "sy_consumer (observe c s) = c" "sy_start (observe c s) key = sy_start s key"
      "sy_since (observe c s) key = sy_since s key" by (simp_all add: observe_def Let_def)
    then show ?thesis
      using assms [unfolded since_ok_def, rule_format, of key] True
      by (cases "map_of (co_next_offsets (sy_consumer s)) key") simp_all
  next
    case False
    then show ?thesis by (cases "map_of (co_next_offsets c) key") (simp_all add: observe_def Let_def)
  qed
qed

lemma since_ok_cong:
  assumes "since_ok isolation logs s" "sy_start s' = sy_start s" "sy_since s' = sy_since s"
    and "co_next_offsets (sy_consumer s') = co_next_offsets (sy_consumer s)"
  shows "since_ok isolation logs s'"
  using assms(1) unfolding since_ok_def assms(2-) .

lemma since_ok_deliver:
  assumes wf: "logs_wf logs" and ok: "since_ok isolation logs s"
    and adv: "advanced isolation logs (co_next_offsets (sy_consumer s)) (co_next_offsets c) records"
  shows "since_ok isolation logs (s\<lparr>sy_consumer := c, sy_since := (\<lambda>key. sy_since s key @ records_of key records)\<rparr>)"
  unfolding since_ok_def
proof
  fix key
  let ?s = "s\<lparr>sy_consumer := c, sy_since := (\<lambda>key. sy_since s key @ records_of key records)\<rparr>"
  show "case map_of (co_next_offsets (sy_consumer ?s)) key of
      None \<Rightarrow> sy_since ?s key = []
    | Some b \<Rightarrow> (\<exists>a. sy_start ?s key = Some a \<and> a \<le> b
        \<and> sy_since ?s key = visible_between isolation key (logs key) a b)"
  proof (cases "map_of (co_next_offsets (sy_consumer s)) key")
    case None
    then show ?thesis using advanced_None [OF adv None] since_ok_None [OF ok None] by simp
  next
    case (Some m)
    obtain a where a: "sy_start s key = Some a" "a \<le> m"
      "sy_since s key = visible_between isolation key (logs key) a m" by (rule since_ok_Some [OF ok Some])
    obtain b where b: "map_of (co_next_offsets c) key = Some b" "m \<le> b"
      "records_of key records = visible_between isolation key (logs key) m b" by (rule advanced_Some [OF adv Some])
    show ?thesis
      using a b visible_between_append [OF logs_wfD [OF wf] a(2) b(2), of isolation key] by simp
  qed
qed

lemma system_invD:
  assumes "system_inv name_of logs s"
  shows "bp \<in> set (co_fetch_buffer (sy_consumer s)) \<Longrightarrow> entry_ok (co_isolation_level (sy_consumer s)) logs bp"
    "rest_ok name_of (co_isolation_level (sy_consumer s)) logs (sy_brokers s)
      (fl_ready (co_fetches (sy_consumer s))) (co_fetches (sy_consumer s))"
    "ids_agree name_of (co_topic_ids (sy_consumer s))"
    "since_ok (co_isolation_level (sy_consumer s)) logs s"
  using assms unfolding system_inv_def Let_def by blast+

lemma system_invI:
  assumes "\<And>bp. bp \<in> set (co_fetch_buffer (sy_consumer s)) \<Longrightarrow> entry_ok (co_isolation_level (sy_consumer s)) logs bp"
    and "rest_ok name_of (co_isolation_level (sy_consumer s)) logs (sy_brokers s)
      (fl_ready (co_fetches (sy_consumer s))) (co_fetches (sy_consumer s))"
    and "ids_agree name_of (co_topic_ids (sy_consumer s))"
    and "since_ok (co_isolation_level (sy_consumer s)) logs s"
  shows "system_inv name_of logs s"
  using assms unfolding system_inv_def Let_def by blast

lemma system_inv_observe:
  assumes "system_inv name_of logs s" "co_isolation_level c = co_isolation_level (sy_consumer s)"
    and "\<And>bp. bp \<in> set (co_fetch_buffer c) \<Longrightarrow> entry_ok (co_isolation_level c) logs bp"
    and "rest_ok name_of (co_isolation_level c) logs (sy_brokers s) (fl_ready (co_fetches c)) (co_fetches c)"
    and "ids_agree name_of (co_topic_ids c)"
  shows "system_inv name_of logs (observe c s)"
proof -
  have "sy_consumer (observe c s) = c" "sy_brokers (observe c s) = sy_brokers s"
    by (simp_all add: observe_def Let_def)
  then show ?thesis
    using since_ok_observe [OF system_invD(4) [OF assms(1)], of c] assms(2-)
    by (intro system_invI) simp_all
qed

lemma session_inv_evict: "session_inv sess p b \<Longrightarrow> session_inv sess p None"
  by (auto simp: session_inv_def in_step_def split: option.splits)

lemma fetch_ok_simps:
  "fetch_ok name_of isolation logs sess b r requested None \<longleftrightarrow>
     (\<exists>wanted. requested = map (\<lambda>(key, p). (key, sp_fetch_offset p)) wanted
        \<and> (\<forall>key\<in>fst ` set wanted. fst key \<noteq> []) \<and> session_inv sess (Some (wanted, r, None)) b)"
  "fetch_ok name_of isolation logs sess b r requested (Some (Some (Inr response))) \<longleftrightarrow>
     (\<exists>wanted. requested = map (\<lambda>(key, p). (key, sp_fetch_offset p)) wanted
        \<and> (\<forall>key\<in>fst ` set wanted. fst key \<noteq> [])
        \<and> session_inv sess (Some (wanted, r, Some (fr_error_code response, fr_session_id response))) b
        \<and> (fr_error_code response = 0 \<longrightarrow> served_from name_of isolation logs (map_of wanted) response))"
  by (simp_all add: fetch_ok_def)

lemma fetch_ok_lost:
  "fetch_ok name_of isolation logs sess b r requested result \<Longrightarrow> lost = None \<or> lost = Some (Inl e) \<Longrightarrow>
     fetch_ok name_of isolation logs sess b' r requested (Some lost)"
  unfolding fetch_ok_def by auto

lemma fetch_ok_evict:
  assumes "fetch_ok name_of isolation logs sess b r requested result"
  shows "fetch_ok name_of isolation logs sess None r requested result"
proof -
  consider (asked) "result = None" | (answered) response where "result = Some (Some (Inr response))"
    | (lost) lost e where "result = Some lost" "lost = None \<or> lost = Some (Inl e)"
    by (cases result; metis option.exhaust sum.exhaust)
  then show ?thesis
  proof cases
    case asked
    then show ?thesis using assms session_inv_evict unfolding asked fetch_ok_simps by blast
  next
    case answered
    then show ?thesis using assms session_inv_evict unfolding answered fetch_ok_simps by blast
  next
    case lost
    then show ?thesis using fetch_ok_lost [OF assms lost(2)] by simp
  qed
qed

text \<open>A result at one leader, for the fetch \<open>f\<close> that its broker answers or drops.\<close>

lemma rest_ok_at:
  assumes "rest_ok name_of isolation logs bs rest fl" "map_of (fl_in_flight fl) leader = Some f"
    and "leader_ok name_of isolation logs bs' fl' leader"
    and "\<And>l. l \<noteq> leader \<Longrightarrow> session_of l fl' = session_of l fl"
    and "\<And>l. l \<noteq> leader \<Longrightarrow> map_of (fl_in_flight fl') l = map_of (fl_in_flight fl) l"
    and "\<And>l. l \<noteq> leader \<Longrightarrow> bs' l = bs l"
  shows "rest_ok name_of isolation logs bs' rest fl'"
proof -
  have new: "cf_leader cf \<noteq> leader" if "cf \<in> set rest" for cf
    using assms(1,2) that unfolding rest_ok_def by auto
  have "leader_ok name_of isolation logs bs' fl' l" if "l \<notin> cf_leader ` set rest" for l
  proof (cases "l = leader")
    case False
    then show ?thesis
      using assms(1) that leader_ok_cong [of l fl' fl bs' bs] assms(4-) unfolding rest_ok_def by simp
  qed (use assms(3) in simp)
  then show ?thesis using assms(1,4-) new unfolding rest_ok_def by simp
qed

lemma in_flight_leader_ok:
  assumes "rest_ok name_of isolation logs bs rest fl" "map_of (fl_in_flight fl) leader = Some f"
  shows "fetch_ok name_of isolation logs (session_of leader fl) (bs leader) (if_request f) (if_requested f) (if_result f)"
proof -
  have "leader \<notin> cf_leader ` set rest" using assms unfolding rest_ok_def by auto
  then show ?thesis using assms(1) leader_ok_Some [OF assms(2)] unfolding rest_ok_def by blast
qed

lemma system_inv_result:
  assumes inv: "system_inv name_of logs s"
    and f: "map_of (fl_in_flight (co_fetches (sy_consumer s))) leader = Some f"
    and "fetch_ok name_of (co_isolation_level (sy_consumer s)) logs (session_of leader (co_fetches (sy_consumer s))) b
      (if_request f) (if_requested f) (Some result)"
  shows "system_inv name_of logs (s\<lparr>sy_consumer := with_result leader f result (sy_consumer s),
    sy_brokers := (sy_brokers s)(leader := b)\<rparr>)"
proof -
  let ?c = "sy_consumer s" and ?i = "co_isolation_level (sy_consumer s)"
  define fl where "fl = co_fetches (with_result leader f result ?c)"
  have fl: "fl_in_flight fl = AList.update leader (f\<lparr>if_result := Some result\<rparr>) (fl_in_flight (co_fetches ?c))"
    "fl_ready fl = fl_ready (co_fetches ?c)" "session_of l fl = session_of l (co_fetches ?c)" for l
    by (simp_all add: fl_def with_result_def)
  have "map_of (fl_in_flight fl) leader = Some (f\<lparr>if_result := Some result\<rparr>)" by (simp add: fl(1) update_conv')
  then have "leader_ok name_of ?i logs ((sy_brokers s)(leader := b)) fl leader"
    using assms(3) fl(3) by (simp add: leader_ok_Some)
  then have "rest_ok name_of ?i logs ((sy_brokers s)(leader := b)) (fl_ready (co_fetches ?c)) fl"
    by (rule rest_ok_at [OF system_invD(2) [OF inv] f]) (simp_all add: fl update_conv')
  then show ?thesis
    using system_invD [OF inv] fl(2) since_ok_cong [OF system_invD(4) [OF inv]]
    unfolding fl_def by (intro system_invI) (simp_all add: with_result_def)
qed

lemma system_inv_deliver:
  assumes inv: "system_inv name_of logs s" and wf: "logs_wf logs"
    and step: "drain_fetch_buffer (sy_consumer s) = (records, c)"
  shows "system_inv name_of logs (s\<lparr>sy_consumer := c, sy_since := (\<lambda>key. sy_since s key @ records_of key records)\<rparr>)"
proof -
  let ?c = "sy_consumer s" and ?i = "co_isolation_level (sy_consumer s)"
  obtain paused c1 where p: "paused_of (co_ownership_ids ?c) ?c = (paused, c1)"
    by (cases "paused_of (co_ownership_ids ?c) ?c")
  obtain out buf offsets poss where d: "drain (co_max_poll_records c1) (set (co_assigned c1)) paused
      (co_fetch_buffer c1) (co_next_offsets c1) (co_positions c1) = (out, buf, offsets, poss)"
    by (metis prod_cases4)
  have c1: "co_fetch_buffer c1 = co_fetch_buffer ?c" "co_next_offsets c1 = co_next_offsets ?c"
    "co_fetches c1 = co_fetches ?c" "co_isolation_level c1 = ?i" "co_topic_ids c1 = co_topic_ids ?c"
    using p by (auto simp: paused_of_def Let_def)
  have c: "records = out" "c = c1\<lparr>co_fetch_buffer := buf, co_next_offsets := offsets, co_positions := poss\<rparr>"
    using step by (auto simp: drain_fetch_buffer_def p d)
  have buffer: "\<forall>bp\<in>set (co_fetch_buffer c1). entry_ok ?i logs bp" using system_invD(1) [OF inv] c1(1) by simp
  note adv = drain_advances [OF wf buffer d]
  have "since_ok ?i logs (s\<lparr>sy_consumer := c, sy_since := (\<lambda>key. sy_since s key @ records_of key records)\<rparr>)"
    using adv(1) by (intro since_ok_deliver [OF wf system_invD(4) [OF inv]]) (simp add: c c1)
  then show ?thesis
    using system_invD(2,3) [OF inv] adv(2) by (intro system_invI) (simp_all add: c c1)
qed

lemma system_inv_absorb:
  assumes inv: "system_inv name_of logs s" and wf: "logs_wf logs" and others: "unobtrusive name_of others"
    and take: "take_completed_fetches (co_topic_ids (sy_consumer s)) (sy_consumer s) = (Inr responses, c1)"
    and rows: "settled (rows_of (id_to_name (co_topic_ids (sy_consumer s))) responses)"
    and process: "process_fetch_responses is_known now lookup others responses (co_topic_ids (sy_consumer s)) c1
      = (outcome, c2)"
  shows "system_inv name_of logs (observe c2 s)"
proof -
  let ?c = "sy_consumer s"
  note t = take_completed_ok [OF system_invD(2,3) [OF inv] take]
  obtain fl where fl: "c1 = ?c\<lparr>co_fetches := fl\<rparr>" using t(3) by blast
  have c1: "co_isolation_level c1 = co_isolation_level ?c" "co_topic_ids c1 = co_topic_ids ?c"
    "co_next_offsets c1 = co_next_offsets ?c" "co_fetch_buffer c1 = co_fetch_buffer ?c"
    by (simp_all add: fl)
  note p = process_fetch_responses_ok [OF wf others rows _ _ process, unfolded c1, OF t(4) [OF refl] system_invD(3) [OF inv]]
  obtain replicas where replicas: "co_fetches c2 = (co_fetches c1)\<lparr>fl_preferred_read_replicas := replicas\<rparr>"
    using p(3) by auto
  obtain new where new: "\<forall>bp\<in>set new. entry_ok (co_isolation_level ?c) logs bp"
    "co_fetch_buffer c2 = co_fetch_buffer ?c @ new" using p(4) by auto
  show ?thesis
    using t(1,2) p(1,2) system_invD(1) [OF inv] new replicas by (intro system_inv_observe [OF inv]) auto
qed

lemma system_inv_send:
  assumes inv: "system_inv name_of logs s" and "\<forall>key\<in>set (co_assigned (sy_consumer s)). fst key \<noteq> []"
    and ready: "fl_ready (co_fetches (sy_consumer s)) = []"
    and "group_fetches knows_broker now (co_assigned (sy_consumer s)) (sy_consumer s) = (by_leader, c)"
  shows "system_inv name_of logs (observe (send_fetches by_leader (co_topic_ids c) c) s)"
proof -
  note g = group_fetches_effect [OF assms(4)]
  obtain replicas where fl: "co_fetches c = (co_fetches (sy_consumer s))\<lparr>fl_preferred_read_replicas := replicas\<rparr>"
    using g(3) by blast
  have "\<forall>l. leader_ok name_of (co_isolation_level (sy_consumer s)) logs (sy_brokers s) (co_fetches c) l"
    using system_invD(2) [OF inv] ready unfolding fl by simp
  note ok = send_fetches_ok [OF this g(1) [OF assms(2)]]
  show ?thesis
    using ok system_invD(1,3) [OF inv] g(2,4,5) fl ready
    by (intro system_inv_observe [OF inv]) (auto simp: send_fetches_def send_fetches_ready)
qed

lemma system_inv_serve:
  assumes inv: "system_inv name_of logs s"
    and f: "map_of (fl_in_flight (co_fetches (sy_consumer s))) leader = Some f" "if_result f = None"
    and serves: "broker_serves (if_request f) (sy_brokers s leader) b content (fr_session_id response)"
    and "fr_error_code response = 0"
    and "served_from name_of (co_isolation_level (sy_consumer s)) logs content response"
  shows "system_inv name_of logs (s\<lparr>sy_consumer := with_result leader f (Some (Inr response)) (sy_consumer s),
    sy_brokers := (sy_brokers s)(leader := b)\<rparr>)"
proof -
  obtain wanted where w: "if_requested f = map (\<lambda>(key, p). (key, sp_fetch_offset p)) wanted"
    "\<forall>key\<in>fst ` set wanted. fst key \<noteq> []"
    "session_inv (session_of leader (co_fetches (sy_consumer s))) (Some (wanted, if_request f, None)) (sy_brokers s leader)"
    using in_flight_leader_ok [OF system_invD(2) [OF inv] f(1)] unfolding f(2) fetch_ok_simps by blast
  note served = session_inv_serve [OF w(3) serves]
  show ?thesis
    using served assms(5,6) w(1,2) by (intro system_inv_result [OF inv f(1)]) (auto simp: fetch_ok_simps)
qed

lemma system_inv_refuse:
  assumes inv: "system_inv name_of logs s"
    and f: "map_of (fl_in_flight (co_fetches (sy_consumer s))) leader = Some f" "if_result f = None"
    and "fr_error_code response \<noteq> 0"
  shows "system_inv name_of logs (s\<lparr>sy_consumer := with_result leader f (Some (Inr response)) (sy_consumer s),
    sy_brokers := (sy_brokers s)(leader := b)\<rparr>)"
proof -
  obtain wanted where w: "if_requested f = map (\<lambda>(key, p). (key, sp_fetch_offset p)) wanted"
    "\<forall>key\<in>fst ` set wanted. fst key \<noteq> []"
    "session_inv (session_of leader (co_fetches (sy_consumer s))) (Some (wanted, if_request f, None)) (sy_brokers s leader)"
    using in_flight_leader_ok [OF system_invD(2) [OF inv] f(1)] unfolding f(2) fetch_ok_simps by blast
  then have "session_inv (session_of leader (co_fetches (sy_consumer s)))
      (Some (wanted, if_request f, Some (fr_error_code response, fr_session_id response))) b"
    using assms(4) by (simp add: session_inv_def)
  then show ?thesis
    using assms(4) w(1,2) by (intro system_inv_result [OF inv f(1)]) (auto simp: fetch_ok_simps)
qed

lemma rest_ok_evict:
  assumes "rest_ok name_of isolation logs bs rest fl"
  shows "rest_ok name_of isolation logs (bs(leader := None)) rest fl"
proof -
  have "leader_ok name_of isolation logs (bs(leader := None)) fl l" if "leader_ok name_of isolation logs bs fl l" for l
    using that fetch_ok_evict session_inv_evict
    by (cases "map_of (fl_in_flight fl) l") (auto simp: leader_ok_None leader_ok_Some)
  moreover have "\<exists>r. fetch_ok name_of isolation logs sess ((bs(leader := None)) l) r requested result"
    if ex: "\<exists>r. fetch_ok name_of isolation logs sess (bs l) r requested result" for sess l requested result
  proof -
    obtain r where r: "fetch_ok name_of isolation logs sess (bs l) r requested result" using ex by blast
    have "fetch_ok name_of isolation logs sess ((bs(leader := None)) l) r requested result"
      using r fetch_ok_evict [OF r] by (cases "l = leader") simp_all
    then show ?thesis by blast
  qed
  ultimately show ?thesis using assms unfolding rest_ok_def by blast
qed

lemma system_inv_drop:
  assumes inv: "system_inv name_of logs s"
  shows "system_inv name_of logs (s\<lparr>sy_brokers := (sy_brokers s)(leader := None)\<rparr>)"
  using rest_ok_evict [OF system_invD(2) [OF inv]] system_invD [OF inv] since_ok_cong [OF system_invD(4) [OF inv]]
  by (intro system_invI) simp_all

lemma system_inv_collect:
  assumes inv: "system_inv name_of logs s"
  shows "system_inv name_of logs (s\<lparr>sy_consumer :=
    (sy_consumer s)\<lparr>co_fetches := collect_ready (co_fetches (sy_consumer s))\<rparr>\<rparr>)"
  using collect_ready_ok [OF system_invD(2) [OF inv]] system_invD [OF inv] since_ok_cong [OF system_invD(4) [OF inv]]
  by (intro system_invI) simp_all

lemma consumer_step_inv:
  assumes "consumer_step name_of logs s event s'" "logs_wf logs" "system_inv name_of logs s" "orderly event"
  shows "system_inv name_of logs s'"
  using assms(1)
proof cases
  case (deliver records c)
  then show ?thesis using system_inv_deliver [OF assms(3,2)] by simp
next
  case (send knows_broker now by_leader c)
  then show ?thesis using system_inv_send [OF assms(3)] assms(4) by simp
next
  case (serve_fetch leader f b content sid response)
  then show ?thesis using system_inv_serve [OF assms(3)] by simp
next
  case (refuse_fetch leader f response b)
  then show ?thesis using system_inv_refuse [OF assms(3)] by simp
next
  case (lose_fetch leader f result e b)
  have "fetch_ok name_of (co_isolation_level (sy_consumer s)) logs (session_of leader (co_fetches (sy_consumer s))) b
      (if_request f) (if_requested f) (Some result)"
    using in_flight_leader_ok [OF system_invD(2) [OF assms(3)] lose_fetch(3)] fetch_ok_lost lose_fetch(5) by blast
  then show ?thesis using system_inv_result [OF assms(3) lose_fetch(3)] lose_fetch(2) by simp
next
  case (drop_session leader)
  then show ?thesis using system_inv_drop [OF assms(3)] by simp
next
  case collect
  then show ?thesis using system_inv_collect [OF assms(3)] by simp
next
  case (absorb responses c1 others is_known now lookup outcome c2)
  then show ?thesis using system_inv_absorb [OF assms(3,2)] assms(4) by simp
next
  case (absorb_failure e c)
  note t = take_completed_ok [OF system_invD(2,3) [OF assms(3)] absorb_failure(3)]
  obtain fl where "c = (sy_consumer s)\<lparr>co_fetches := fl\<rparr>" using t(3) by blast
  then show ?thesis
    using t(1,2) system_invD(1,3) [OF assms(3)] unfolding absorb_failure(2)
    by (intro system_inv_observe [OF assms(3)]) auto
next
  case (outside c P replicas)
  then show ?thesis
    using system_invD(1,2) [OF assms(3)] unfolding outside(2)
    by (intro system_inv_observe [OF assms(3)]) auto
qed

lemma consumer_run_inv:
  assumes "consumer_run name_of logs s events s'" "logs_wf logs" "system_inv name_of logs s"
    and "\<forall>event\<in>set events. orderly event"
  shows "system_inv name_of logs s'"
  using assms(1,3,4)
  by induction (auto intro: consumer_step_inv [OF _ assms(2)])

lemma consumer_run_single: "consumer_step name_of logs s event s' \<Longrightarrow> consumer_run name_of logs s [event] s'"
  using consumer_run.step [OF consumer_run.start, of name_of logs s event s'] by simp

lemma consumer_run_trans:
  assumes "consumer_run name_of logs s' events' s''" "consumer_run name_of logs s events s'"
  shows "consumer_run name_of logs s (events @ events') s''"
  using assms
proof induction
  case (step s' events' s1 event s2)
  then show ?case using consumer_run.step [of name_of logs s "events @ events'" s1 event s2] by simp
qed simp

section \<open>A poll is a run\<close>

text \<open>The consumer after the first part of \<open>poll_fetch\<close>: the fetches are sent, and ready results collected.\<close>

definition after_send :: "(int \<Rightarrow> bool) \<Rightarrow> nat \<Rightarrow> consumer \<Rightarrow> consumer" where
  "after_send knows_broker now c =
     (let (by_leader, c) = group_fetches knows_broker now (co_assigned c) c;
          c = send_fetches by_leader (co_topic_ids c) c
      in c\<lparr>co_fetches := collect_ready (co_fetches c)\<rparr>)"

lemma observe_unmoved: "co_next_offsets c = co_next_offsets (sy_consumer s) \<Longrightarrow> observe c s = s\<lparr>sy_consumer := c\<rparr>"
  by (simp add: observe_def)

lemma after_send_runs:
  "consumer_run name_of logs s
     [EvSend (co_assigned (sy_consumer s)) (map cf_leader (fl_ready (co_fetches (sy_consumer s)))), EvCollect]
     (s\<lparr>sy_consumer := after_send knows_broker now (sy_consumer s)\<rparr>)"
  "co_topic_ids (after_send knows_broker now (sy_consumer s)) = co_topic_ids (sy_consumer s)"
proof -
  obtain by_leader c where g: "group_fetches knows_broker now (co_assigned (sy_consumer s)) (sy_consumer s) = (by_leader, c)"
    by (cases "group_fetches knows_broker now (co_assigned (sy_consumer s)) (sy_consumer s)")
  let ?sent = "send_fetches by_leader (co_topic_ids c) c"
  let ?asked = "EvSend (co_assigned (sy_consumer s)) (map cf_leader (fl_ready (co_fetches (sy_consumer s))))"
  have "observe ?sent s = s\<lparr>sy_consumer := ?sent\<rparr>"
    using group_fetches_effect(6) [OF g] by (intro observe_unmoved) (simp add: send_fetches_def)
  then have "consumer_step name_of logs s ?asked (s\<lparr>sy_consumer := ?sent\<rparr>)"
    using consumer_step.send [OF g, of name_of logs] by simp
  moreover have "consumer_step name_of logs (s\<lparr>sy_consumer := ?sent\<rparr>) EvCollect
      (s\<lparr>sy_consumer := after_send knows_broker now (sy_consumer s)\<rparr>)"
    using consumer_step.collect [of name_of logs "s\<lparr>sy_consumer := ?sent\<rparr>"] by (simp add: after_send_def g Let_def)
  ultimately show "consumer_run name_of logs s [?asked, EvCollect]
      (s\<lparr>sy_consumer := after_send knows_broker now (sy_consumer s)\<rparr>)"
    using consumer_run.step [OF consumer_run_single] by fastforce
  show "co_topic_ids (after_send knows_broker now (sy_consumer s)) = co_topic_ids (sy_consumer s)"
    using group_fetches_effect(5) [OF g] by (simp add: after_send_def g send_fetches_def Let_def)
qed

text \<open>A poll takes every collected result.\<close>

lemma take_fetch_ready: "fl_ready (fst (take_fetch offsets names cf st)) = fl_ready (fst st)"
  by (auto simp: take_fetch_def Let_def split: prod.splits option.splits sum.splits)

lemma take_fetches_ready: "fl_ready (fst (fold (take_fetch offsets names) cfs st)) = fl_ready (fst st)"
  by (induction cfs arbitrary: st) (simp_all add: take_fetch_ready)

lemma take_completed_ready:
  assumes "take_completed_fetches topic_ids c = (result, c')"
  shows "fl_ready (co_fetches c') = []"
proof -
  let ?fl = "collect_ready (co_fetches c)"
  obtain fl responses failure where f: "fold (take_fetch (co_next_offsets c) (id_to_name topic_ids))
      (fl_ready ?fl) (?fl\<lparr>fl_ready := []\<rparr>, [], None) = (fl, responses, failure)" by (metis prod_cases3)
  have "fl_ready fl = []"
    using take_fetches_ready [of "co_next_offsets c" "id_to_name topic_ids" "fl_ready ?fl" "(?fl\<lparr>fl_ready := []\<rparr>, [], None)"]
    by (simp add: f)
  then show ?thesis using assms f by (auto simp: take_completed_fetches_def Let_def split: if_splits)
qed

lemma process_fetch_responses_ready:
  assumes "process_fetch_responses is_known now lookup others responses topic_ids c = (outcome, c')"
    and "\<And>c. co_fetches (others c) = co_fetches c"
  shows "fl_ready (co_fetches c') = fl_ready (co_fetches c)"
  using assms(1) recover_out_of_range_frame(2)
  by (auto simp: process_fetch_responses_def Let_def assms(2) split: prod.splits option.splits if_splits sum.splits
      dest!: recover_out_of_range_frame(2))

lemma drain_fetches: "drain_fetch_buffer c = (records, c') \<Longrightarrow> co_fetches c' = co_fetches c"
  by (auto simp: drain_fetch_buffer_def paused_of_def Let_def split: prod.splits)

text \<open>What the events of the second part of a poll are, given its result.\<close>

definition absorbs :: "consumer_error + consumer_record list \<Rightarrow> consumer_event list \<Rightarrow> bool" where
  "absorbs result events \<longleftrightarrow>
     (case result of
        Inr records \<Rightarrow> (\<exists>rows. events = [EvAbsorb rows, EvDeliver records])
      | Inl e \<Rightarrow> (\<exists>rows. events = [EvAbsorb rows]) \<or> events = [EvFail e])"

lemma absorb_and_deliver_runs:
  assumes others: "unobtrusive name_of (le_others env)"
    and step: "(case take_completed_fetches (co_topic_ids c) c of
        (Inl e, c) \<Rightarrow> (Inl e, c)
      | (Inr responses, c') \<Rightarrow>
          (case process_fetch_responses is_known (le_now env) (le_lookup env) (le_others env)
                  responses (co_topic_ids c) c' of
             (Inl e, c) \<Rightarrow> (Inl e, c)
           | (Inr _, c) \<Rightarrow> (case drain_fetch_buffer c of (records, c) \<Rightarrow> (Inr records, c)))) = (result, c')"
    and s: "sy_consumer s = c"
  shows "\<exists>s' events. consumer_run name_of logs s events s' \<and> sy_consumer s' = c' \<and> absorbs result events
    \<and> fl_ready (co_fetches c') = []"
proof -
  obtain taken c1 where t: "take_completed_fetches (co_topic_ids c) c = (taken, c1)"
    by (cases "take_completed_fetches (co_topic_ids c) c")
  have r1: "fl_ready (co_fetches c1) = []" by (rule take_completed_ready [OF t])
  have sy: "sy_consumer (observe c2 s) = c2" for c2 by (simp add: observe_def Let_def)
  have o: "co_fetches (le_others env x) = co_fetches x" for x using others by (simp add: unobtrusive_def)
  show ?thesis
  proof (cases taken)
    case (Inl e)
    then have "consumer_step name_of logs s (EvFail e) (observe c1 s)" using consumer_step.absorb_failure t s by simp
    moreover have "result = Inl e" "c' = c1" using step t Inl by simp_all
    ultimately show ?thesis
      using consumer_run_single sy r1 by (intro exI [of _ "observe c1 s"] exI [of _ "[EvFail e]"]) (simp add: absorbs_def)
  next
    case (Inr responses)
    let ?rows = "rows_of (id_to_name (co_topic_ids c)) responses"
    obtain outcome c2 where p: "process_fetch_responses is_known (le_now env) (le_lookup env) (le_others env)
        responses (co_topic_ids c) c1 = (outcome, c2)"
      by (metis surj_pair)
    have r2: "fl_ready (co_fetches c2) = []" using process_fetch_responses_ready [OF p o] r1 by simp
    have a: "consumer_step name_of logs s (EvAbsorb ?rows) (observe c2 s)"
      using consumer_step.absorb [OF t [folded s, unfolded Inr] others p [folded s]] unfolding s .
    obtain records c3 where d: "drain_fetch_buffer c2 = (records, c3)" by (cases "drain_fetch_buffer c2")
    show ?thesis
    proof (cases outcome)
      case (Inl e)
      then have "result = Inl e" "c' = c2" using step t Inr p by simp_all
      then show ?thesis
        using consumer_run_single [OF a] sy r2
        by (intro exI [of _ "observe c2 s"] exI [of _ "[EvAbsorb ?rows]"]) (simp add: absorbs_def)
    next
      case (Inr u)
      let ?s = "(observe c2 s)\<lparr>sy_consumer := c3, sy_since := (\<lambda>key. sy_since (observe c2 s) key @ records_of key records)\<rparr>"
      have "consumer_step name_of logs (observe c2 s) (EvDeliver records) ?s"
        by (rule consumer_step.deliver) (simp add: sy d)
      from consumer_run.step [OF consumer_run_single [OF a] this]
      have "consumer_run name_of logs s [EvAbsorb ?rows, EvDeliver records] ?s" by simp
      moreover have "result = Inr records" "c' = c3" using step t \<open>taken = Inr responses\<close> p Inr d by simp_all
      moreover have "fl_ready (co_fetches c3) = []" using drain_fetches [OF d] r2 by simp
      ultimately show ?thesis
        by (intro exI [of _ ?s] exI [of _ "[EvAbsorb ?rows, EvDeliver records]"]) (simp add: absorbs_def)
    qed
  qed
qed

lemma poll_fetch_cases:
  fixes s :: system
  assumes sent: "sent = after_send knows_broker (le_now env) (sy_consumer s)"
    and arrived: "arrived = sent\<lparr>co_fetches := le_arrive env (co_fetches sent)\<rparr>"
    and step: "poll_fetch is_known knows_broker env (sy_consumer s) = (result, c')"
  obtains "c' = sent" "fl_ready (co_fetches sent) = []" "result = Inl Wakeup \<and> le_woken env
      \<or> result = Inr [] \<and> fl_in_flight (co_fetches sent) = []"
  | "(case take_completed_fetches (co_topic_ids arrived) arrived of
        (Inl e, c) \<Rightarrow> (Inl e, c)
      | (Inr responses, c') \<Rightarrow>
          (case process_fetch_responses is_known (le_now env) (le_lookup env) (le_others env)
                  responses (co_topic_ids arrived) c' of
             (Inl e, c) \<Rightarrow> (Inl e, c)
           | (Inr _, c) \<Rightarrow> (case drain_fetch_buffer c of (records, c) \<Rightarrow> (Inr records, c)))) = (result, c')"
proof -
  note a = after_send_runs(2) [where knows_broker = knows_broker and now = "le_now env" and s = s, folded sent]
  obtain by_leader c where g: "group_fetches knows_broker (le_now env) (co_assigned (sy_consumer s)) (sy_consumer s)
      = (by_leader, c)"
    by (cases "group_fetches knows_broker (le_now env) (co_assigned (sy_consumer s)) (sy_consumer s)")
  let ?sent = "send_fetches by_leader (co_topic_ids c) c"
  have sent': "?sent\<lparr>co_fetches := collect_ready (co_fetches ?sent)\<rparr> = sent" by (simp add: sent after_send_def g Let_def)
  have ids: "co_topic_ids c = co_topic_ids arrived"
    using a group_fetches_effect(5) [OF g] arrived by simp
  note step' = step [unfolded poll_fetch_def g prod.case Let_def sent', folded arrived, unfolded ids]
  show thesis
  proof (cases "le_woken env \<and> fl_ready (co_fetches sent) = []
      \<or> fl_in_flight (co_fetches sent) = [] \<and> fl_ready (co_fetches sent) = []")
    case True
    then show thesis using that(1) step' by (auto split: if_splits)
  next
    case False
    then show thesis using that(2) step' by (simp split: if_splits)
  qed
qed

lemma poll_fetch_runs:
  assumes "unobtrusive name_of (le_others env)"
    and sent: "sent = after_send knows_broker (le_now env) (sy_consumer s)"
    and arrived: "arrived = sent\<lparr>co_fetches := le_arrive env (co_fetches sent)\<rparr>"
    and run: "consumer_run name_of logs (s\<lparr>sy_consumer := sent\<rparr>) arrivals (s\<lparr>sy_consumer := arrived, sy_brokers := brokers\<rparr>)"
    and step: "poll_fetch is_known knows_broker env (sy_consumer s) = (result, c')"
  shows "\<exists>s' events. consumer_run name_of logs s
      ([EvSend (co_assigned (sy_consumer s)) (map cf_leader (fl_ready (co_fetches (sy_consumer s)))), EvCollect] @ events) s'
    \<and> sy_consumer s' = c' \<and> fl_ready (co_fetches c') = []
    \<and> (events = [] \<and> (result = Inl Wakeup \<and> le_woken env \<or> result = Inr [] \<and> fl_in_flight (co_fetches c') = [])
       \<or> (\<exists>last. events = arrivals @ last \<and> absorbs result last))"
proof -
  let ?asked = "[EvSend (co_assigned (sy_consumer s)) (map cf_leader (fl_ready (co_fetches (sy_consumer s)))), EvCollect]"
  have a: "consumer_run name_of logs s ?asked (s\<lparr>sy_consumer := sent\<rparr>)"
    using after_send_runs(1) [where knows_broker = knows_broker and now = "le_now env" and s = s, folded sent] .
  show ?thesis
  proof (rule poll_fetch_cases [OF sent arrived step])
    assume "c' = sent" "fl_ready (co_fetches sent) = []" "result = Inl Wakeup \<and> le_woken env
      \<or> result = Inr [] \<and> fl_in_flight (co_fetches sent) = []"
    then show ?thesis using a by (intro exI [of _ "s\<lparr>sy_consumer := sent\<rparr>"] exI [of _ "[]"]) simp
  next
    assume "(case take_completed_fetches (co_topic_ids arrived) arrived of
        (Inl e, c) \<Rightarrow> (Inl e, c)
      | (Inr responses, c') \<Rightarrow>
          (case process_fetch_responses is_known (le_now env) (le_lookup env) (le_others env)
                  responses (co_topic_ids arrived) c' of
             (Inl e, c) \<Rightarrow> (Inl e, c)
           | (Inr _, c) \<Rightarrow> (case drain_fetch_buffer c of (records, c) \<Rightarrow> (Inr records, c)))) = (result, c')"
    from absorb_and_deliver_runs [OF assms(1) this, of "s\<lparr>sy_consumer := arrived, sy_brokers := brokers\<rparr>" logs]
    obtain s' last where l: "consumer_run name_of logs (s\<lparr>sy_consumer := arrived, sy_brokers := brokers\<rparr>) last s'"
      "sy_consumer s' = c'" "absorbs result last" "fl_ready (co_fetches c') = []" by auto
    from consumer_run_trans [OF consumer_run_trans [OF l(1) run] a]
    have "consumer_run name_of logs s (?asked @ (arrivals @ last)) s'" by simp
    then show ?thesis using l(2-4) by (intro exI [of _ s'] exI [of _ "arrivals @ last"]) blast
  qed
qed

section \<open>The operations of the application are steps\<close>

text \<open>What the operations leave alone; \<open>co_topic_ids\<close> only changes with metadata.\<close>

definition keeps_fetching :: "consumer \<Rightarrow> consumer \<Rightarrow> bool" where
  "keeps_fetching c c' \<longleftrightarrow> co_fetch_buffer c' = co_fetch_buffer c \<and> co_fetches c' = co_fetches c
     \<and> co_isolation_level c' = co_isolation_level c"

lemma keeps_fetching_refl [simp]: "keeps_fetching c c"
  by (simp add: keeps_fetching_def)

lemma keeps_fetching_trans: "keeps_fetching c c' \<Longrightarrow> keeps_fetching c' c'' \<Longrightarrow> keeps_fetching c c''"
  by (simp add: keeps_fetching_def)

lemma keeps_fetching_step:
  assumes "keeps_fetching (sy_consumer s) c" "ids_agree name_of (co_topic_ids c)"
  shows "consumer_step name_of logs s EvOutside (observe c s)"
  by (rule consumer_step.outside [where P = "\<lambda>_. True" and replicas = "fl_preferred_read_replicas (co_fetches (sy_consumer s))"])
    (use assms in \<open>simp_all add: keeps_fetching_def\<close>)

lemma application_keeps_fetching:
  "seek_to_position is_known key offset leader_epoch c = Inr c' \<Longrightarrow> keeps_fetching c c' \<and> co_topic_ids c' = co_topic_ids c"
  "request_offset_reset is_known tps sentinel c = Inr c' \<Longrightarrow> keeps_fetching c c' \<and> co_topic_ids c' = co_topic_ids c"
  "pause tps c = Inr c' \<Longrightarrow> keeps_fetching c c' \<and> co_topic_ids c' = co_topic_ids c"
  "resume tps c = Inr c' \<Longrightarrow> keeps_fetching c c' \<and> co_topic_ids c' = co_topic_ids c"
  by (auto simp: keeps_fetching_def seek_to_position_def request_offset_reset_def pause_def resume_def Let_def
      split: if_splits option.splits)

lemma resolve_committed_keys_keep: "keeps_fetching c (fold (resolve_committed_key is_known committed) keys c)"
proof (induction keys arbitrary: c)
  case (Cons key keys)
  have "keeps_fetching c (resolve_committed_key is_known committed key c)"
    by (auto simp: keeps_fetching_def resolve_committed_key_def split: option.splits)
  then show ?case using Cons keeps_fetching_trans by auto
qed simp

lemma resolve_committed_keep:
  assumes "\<And>c. keeps_fetching c (others c)"
  shows "keeps_fetching c (snd (resolve_committed_sentinels is_known committed others c))"
  using assms keeps_fetching_trans [OF assms resolve_committed_keys_keep]
  by (auto simp: resolve_committed_sentinels_def Let_def split: sum.split)

lemma resolve_reset_keep:
  assumes "\<And>c. keeps_fetching c (others c)"
  shows "keeps_fetching c (snd (resolve_reset_sentinels knows_broker send now_ms others c))"
  using assms [of c] by (simp add: resolve_reset_sentinels_def Let_def keeps_fetching_def split: sum.split)

lemma validate_keep: "keeps_fetching c (snd (validate_positions is_known answers others c))"
  by (simp add: validate_positions_def Let_def keeps_fetching_def split: prod.split)

lemma apply_truncation_keep: "keeps_fetching c (snd (apply_truncation cuts c))"
  by (simp add: apply_truncation_def keeps_fetching_def split: prod.split option.split)

lemma position_step_keep:
  assumes "\<And>c. keeps_fetching c (snd (act c))" "\<And>x c. keeps_fetching c (snd (k x c))"
  shows "keeps_fetching c (snd (position_step woken act k c))"
proof -
  obtain r c1 where a: "act c = (r, c1)" by (cases "act c")
  have "keeps_fetching c c1" using assms(1) [of c] a by simp
  then show ?thesis
    using keeps_fetching_trans [OF _ assms(2)] a by (cases r) (auto simp: position_step_def)
qed

lemma update_fetch_positions_keeps_fetching:
  assumes "\<And>c. keeps_fetching c (pe_others env c)"
  shows "keeps_fetching c (snd (update_fetch_positions is_known knows_broker env c))"
proof -
  let ?cut = "\<lambda>cuts c. if cuts = [] then (Inr True, c)
    else case apply_truncation cuts c of (Inl e, c) \<Rightarrow> (Inl e, c) | (Inr _, c) \<Rightarrow> (Inr True, c)"
  have cut: "keeps_fetching c (snd (?cut cuts c))" for cuts c
    using apply_truncation_keep [of c cuts] by (auto split: prod.split sum.split)
  let ?validate = "position_step (pe_woken env 3) (validate_positions is_known (pe_epochs env) (pe_others_positions env)) ?cut"
  have validate: "keeps_fetching c (snd (?validate c))" for c
    by (rule position_step_keep [OF validate_keep cut])
  let ?resets = "position_step (pe_woken env 2)
    (resolve_reset_sentinels knows_broker (pe_list_offsets env) (pe_now_ms env) (pe_others env)) (\<lambda>_. ?validate)"
  have resets: "keeps_fetching c (snd (?resets c))" for c
    by (rule position_step_keep [OF resolve_reset_keep [OF assms] validate])
  let ?committed = "position_step (pe_woken env 1) (resolve_committed_sentinels is_known (pe_committed env) (pe_others env))
    (\<lambda>_ c. case fail_partitions_without_offset c of Inl e \<Rightarrow> (Inl e, c) | Inr _ \<Rightarrow> ?resets c)"
  have "keeps_fetching c (snd (case fail_partitions_without_offset c of Inl e \<Rightarrow> (Inl e, c) | Inr _ \<Rightarrow> ?resets c))" for c
    using resets by (simp split: sum.split)
  then have committed: "keeps_fetching c (snd (?committed c))" for c
    by (rule position_step_keep [OF resolve_committed_keep [OF assms]])
  have "keeps_fetching c (snd (case pe_metadata env of
      Inl e \<Rightarrow> (Inl (ConsumerClient e), c)
    | Inr topics \<Rightarrow> (Inr (), (refresh_leader_epochs is_known topics c)\<lparr>co_update_requested := False\<rparr>)))" for c
    by (simp add: refresh_leader_epochs_def keeps_fetching_def split: sum.split)
  note due = position_step_keep [OF this committed]
  show ?thesis
    unfolding update_fetch_positions_def Let_def by (split if_split, intro conjI impI due committed)
qed

end
