(* ===== verification/Fetch_Claims.thy ===== *)
theory Fetch_Claims
  imports Fetch_Records
begin

text \<open>
  The properties of the fetch path of the consumer: incremental sessions refine a protocol without
  sessions and build well-typed requests, and a decoded partition holds exactly the records that
  are visible at the isolation level.
\<close>

section \<open>Fetch sessions\<close>

text \<open>A session that has served one full request, and then waits with an incremental one.\<close>

definition partition_example :: "int \<Rightarrow> session_partition" where
  "partition_example off = \<lparr>sp_topic_id = replicate 16 1, sp_fetch_offset = off,
     sp_current_leader_epoch = 3, sp_last_fetched_epoch = 2, sp_partition_max_bytes = 1024\<rparr>"

definition wanted_example :: "int \<Rightarrow> session_partitions" where
  "wanted_example off = [((''orders'', 0), partition_example off), ((''orders'', 1), partition_example 20)]"

definition asked_example :: "session_system" where
  "asked_example = session_start\<lparr>ss_client := snd (build (wanted_example 10) fetch_session_default),
     ss_pending := Some (wanted_example 10, fst (build (wanted_example 10) fetch_session_default), None)\<rparr>"

definition served_example :: "session_system" where
  "served_example = asked_example\<lparr>
     ss_pending := Some (wanted_example 10, fst (build (wanted_example 10) fetch_session_default), Some (0, 77)),
     ss_broker := Some (77, 1, map_of (wanted_example 10)),
     ss_served := [(wanted_example 10, map_of (wanted_example 10))]\<rparr>"

definition received_example :: "session_system" where
  "received_example = served_example\<lparr>
     ss_client := snd (handle_response 0 77 2 0 (ss_client served_example)), ss_pending := None\<rparr>"

lemma partition_example_inject [simp]: "partition_example a = partition_example b \<longleftrightarrow> a = b"
  by (simp add: partition_example_def)

lemma wanted_example_wf: "btree_wf (wanted_example off)"
  by (simp add: wanted_example_def btree_wf_def less_eq_prod_def)

lemma received_example_reachable: "session_reachable received_example"
proof -
  let ?r = "fst (build (wanted_example 10) fetch_session_default)"
  have full: "full_request ?r"
    by (simp add: build_def fetch_session_default_def full_request_def Let_def session_metadata)
  have "session_meaning ?r Map.empty = map_of (wanted_example 10)"
    by (rule build_full_meaning [OF _ full, of _ fetch_session_default "snd (build (wanted_example 10) fetch_session_default)"])
      simp
  then have "broker_serves ?r None (Some (77, 1, map_of (wanted_example 10))) (map_of (wanted_example 10)) 77"
    using serves_new [OF full, of 77 "map_of (wanted_example 10)" None]
    by (simp add: session_consts next_epoch_def)
  moreover have "session_step session_start asked_example"
    using ask [of session_start "wanted_example 10" ?r "snd (build (wanted_example 10) fetch_session_default)"]
      wanted_example_wf by (simp add: asked_example_def session_start_def)
  ultimately have "session_step asked_example served_example" "session_step session_start asked_example"
    using serve [of asked_example "wanted_example 10" ?r "Some (77, 1, map_of (wanted_example 10))"
        "map_of (wanted_example 10)" 77]
    by (simp_all add: served_example_def asked_example_def session_start_def)
  moreover have "session_step served_example received_example"
    using receive [of served_example "wanted_example 10" ?r 0 77 2 0 True
        "snd (handle_response 0 77 2 0 (ss_client served_example))"]
    by (simp add: received_example_def served_example_def asked_example_def session_start_def
        handle_response_def build_def fetch_session_default_def session_metadata Let_def i32_range_def)
  ultimately show ?thesis
    unfolding session_reachable_def by (meson rtranclp.rtrancl_into_rtrancl rtranclp.rtrancl_refl)
qed

lemma received_example_client:
  "ss_client received_example = \<lparr>fs_next = \<lparr>fm_session_id = 77, fm_epoch = 1\<rparr>, fs_partitions = wanted_example 10\<rparr>"
  "ss_pending received_example = None"
  by (simp_all add: received_example_def served_example_def asked_example_def session_start_def
      handle_response_def build_def fetch_session_default_def session_metadata Let_def)

lemma build_example:
  "build (wanted_example 11) (ss_client received_example) =
     (\<lparr>sr_session_id = 77, sr_session_epoch = 1,
       sr_partitions = [((''orders'', 0), partition_example 11)], sr_forgotten = []\<rparr>,
      \<lparr>fs_next = \<lparr>fm_session_id = 77, fm_epoch = 1\<rparr>, fs_partitions = wanted_example 11\<rparr>)"
  by (simp add: received_example_client build_def topic_replaced_def wanted_example_def Let_def
      session_metadata) (simp add: partition_example_def)

text \<open>
  C10. Fetch sessions refine a protocol in which each request names all wanted partitions.  In every
  reachable state of a session and its broker, each step is a step of that protocol: whenever the
  broker serves a request, full or incremental, it reads exactly the wanted partitions at their
  wanted offsets, whatever answers got lost, whatever sessions the broker dropped and whatever
  errors it answered before.
\<close>

theorem fetch_session_refines:
  assumes "session_reachable s" "session_step s s'"
  shows "plain_step (session_abs s) (session_abs s')"
  using session_step_refines [OF assms(2)] session_reachable_inv [OF assms(1)] by blast

theorem fetch_session_refines_witness:
  "session_reachable received_example
   \<and> (\<exists>s'. session_step received_example s' \<and> plain_step (session_abs received_example) (session_abs s')
        \<and> session_abs s' \<noteq> session_abs received_example)"
proof -
  let ?s' = "received_example\<lparr>ss_client := snd (build (wanted_example 11) (ss_client received_example)),
    ss_pending := Some (wanted_example 11, fst (build (wanted_example 11) (ss_client received_example)), None)\<rparr>"
  have step: "session_step received_example ?s'"
    by (rule ask) (simp_all add: received_example_client(2) wanted_example_wf)
  have "session_abs ?s' \<noteq> session_abs received_example"
    by (simp add: session_abs_def received_example_client(2))
  then show ?thesis
    using fetch_session_refines [OF received_example_reachable step] received_example_reachable step
    by blast
qed

text \<open>
  C33. Every request that a reachable session builds is well typed: the session id and the epoch are
  in the range of \<open>i32\<close> and the epoch never wraps to a negative one, an incremental request names a
  session, the partitions are in key order without duplicates, and an incremental request names
  only wanted partitions that are new or changed and forgets only partitions that are not wanted.
\<close>

theorem fetch_session_well_typed:
  assumes "session_reachable s" "btree_wf wanted" "build wanted (ss_client s) = (r, c)"
  shows "i32_range (sr_session_id r) \<and> 0 \<le> sr_session_epoch r \<and> i32_range (sr_session_epoch r)
    \<and> btree_wf (sr_partitions r) \<and> set (sr_partitions r) \<subseteq> set wanted
    \<and> (\<forall>key. key \<in> fst ` set (sr_forgotten r) \<longrightarrow> map_of wanted key = None)
    \<and> (\<not> full_request r \<longrightarrow> sr_session_id r \<noteq> INVALID_SESSION_ID
        \<and> set (sr_partitions r) \<inter> set (fs_partitions (ss_client s)) = {})"
proof -
  have md: "metadata_wf (fs_next c)"
    using metadata_wf_build [OF assms(3)] session_reachable_metadata [OF assms(1)] .
  note c = build_client [OF assms(3)]
  have typed: "i32_range (sr_session_id r)" "0 \<le> sr_session_epoch r" "i32_range (sr_session_epoch r)"
    "\<not> full_request r \<Longrightarrow> sr_session_id r \<noteq> INVALID_SESSION_ID"
    using md c by (simp_all add: metadata_wf_def)
  show ?thesis
  proof (cases "full_request r")
    case True
    then have "sr_partitions r = wanted" "sr_forgotten r = []"
      using assms(3) c(4) by (auto simp: build_def Let_def split: if_splits)
    then show ?thesis using typed True assms(2) by simp
  next
    case False
    note i = build_incremental(3,4) [OF assms(3) False]
    have "p \<notin> set (fs_partitions (ss_client s))" if "p \<in> set (sr_partitions r)"
      "distinct (map fst (fs_partitions (ss_client s)))" for p
      using that unfolding i by (auto dest: map_of_is_SomeI)
    moreover have "distinct (map fst (fs_partitions (ss_client s)))"
      using session_reachable_partitions [OF assms(1)] by (simp add: btree_wf_def)
    ultimately show ?thesis
      using typed False build_partitions_wf [OF assms(3,2)] unfolding i keys_map_filter by auto
  qed
qed

theorem fetch_session_well_typed_witness:
  "session_reachable received_example \<and> btree_wf (wanted_example 11)
   \<and> sr_session_id (fst (build (wanted_example 11) (ss_client received_example))) \<noteq> INVALID_SESSION_ID"
proof -
  have "\<not> full_request (fst (build (wanted_example 11) (ss_client received_example)))"
    by (simp add: build_example full_request_def session_metadata)
  then show ?thesis
    using fetch_session_well_typed [OF received_example_reachable wanted_example_wf, of 11
        "fst (build (wanted_example 11) (ss_client received_example))"
        "snd (build (wanted_example 11) (ss_client received_example))"]
      received_example_reachable wanted_example_wf by simp
qed

section \<open>Decoded records\<close>

text \<open>
  A log with a committed transaction of producer 7 around an aborted one of producer 9, fetched
  from offset 1.
\<close>

definition batch_example :: "int \<Rightarrow> int \<Rightarrow> int \<Rightarrow> bool \<Rightarrow> wire_batch" where
  "batch_example base lod pid control =
     \<lparr>wb_base_offset = base, wb_last_offset_delta = lod, wb_partition_leader_epoch = 4,
      wb_timestamp_type = CreateTime, wb_is_transactional = True, wb_is_control_batch = control,
      wb_base_timestamp = 100, wb_max_timestamp = 100, wb_producer_id = pid,
      wb_records = map (\<lambda>d. \<lparr>wr_offset_delta = d, wr_timestamp_delta = 0, wr_key = None,
        wr_value = None, wr_headers = []\<rparr>) [0..lod]\<rparr>"

definition log_example :: log where
  "log_example = [(batch_example 0 1 7 False, False), (batch_example 2 0 9 False, False),
     (batch_example 3 0 9 True, True), (batch_example 4 0 7 True, False)]"

definition part_example :: partition_data where
  "part_example = \<lparr>pd_partition_index = 0, pd_error_code = 0, pd_high_watermark = 5,
     pd_last_stable_offset = 5, pd_diverging_end_offset = -1, pd_current_leader_id = -1,
     pd_current_leader_epoch = -1, pd_preferred_read_replica = -1,
     pd_aborted_transactions = Some [(2, 9)], pd_records = V2 (map fst log_example)\<rparr>"

lemma log_example_wf: "log_wf log_example"
  by (simp add: log_wf_def log_example_def batch_example_def batch_wf_def batch_end_def upto_rec1)

lemma less_4_cases: "(\<forall>n<4. P n) \<longleftrightarrow> P 0 \<and> P 1 \<and> P 2 \<and> P (3::nat)"
  by (auto simp: numeral_eq_Suc less_Suc_eq)

lemma part_example_fetched: "fetched_part ReadCommitted log_example 1 part_example"
proof -
  have len: "length log_example = 4" by (simp add: log_example_def)
  have "\<forall>n<4. \<forall>pid. txn_data log_example n pid \<longrightarrow>
      (next_marker pid (drop (Suc n) log_example) = Some True \<longrightarrow> n = 1 \<and> pid = 9)
      \<and> next_marker pid (drop (Suc n) log_example) \<noteq> None"
    unfolding less_4_cases by (simp add: txn_data_def log_example_def batch_example_def)
  moreover have "base_at log_example 1 = 2" "\<not> marked log_example 9 1 1"
    by (simp_all add: marked_def log_example_def batch_example_def)
  ultimately have "aborted_complete log_example 0 4 [(2, 9)]" "txns_decided log_example 0 4"
    unfolding aborted_complete_def txns_decided_def by fastforce+
  moreover have "aborted_sound log_example 0 [(2, 9)]"
    unfolding aborted_sound_def len
    by (simp add: marked_def, rule exI [of _ 1]) (simp add: txn_data_def log_example_def batch_example_def)
  moreover have "\<forall>i<4. 1 < batch_end (fst (log_example ! i))"
    unfolding less_4_cases by (simp add: log_example_def batch_example_def batch_end_def)
  ultimately have "fetched_range ReadCommitted log_example 1 0 4 [(2, 9)]"
    unfolding fetched_range_def len by simp
  then show ?thesis
    unfolding fetched_part_def part_example_def
    by (intro allI impI exI [of _ 0] exI [of _ 4]) (simp add: len)
qed

text \<open>
  C11. A partition row that a broker serves from a log at offset \<open>off\<close> decodes to exactly the records
  of that log that are visible at the isolation level, from \<open>off\<close> up to the end of the last batch,
  in log order.  Under \<open>read_committed\<close> these are the records outside transactions and those of
  committed transactions, although the row carries the batches of aborted transactions as well.
\<close>

theorem decoded_records_are_visible:
  assumes "log_wf lg" "fetched_part isolation lg off part" "pd_partition_index part = snd key"
    and "pd_records part = V2 batches" "batches \<noteq> []" "map_of offsets key = Some off"
  shows "\<exists>bp. process_partition_records isolation offsets key (fst key) part = Some bp
    \<and> bp_key bp = key \<and> bp_position bp = off \<and> off < bp_next_offset bp
    \<and> next_offset_after batches = Some (bp_next_offset bp)
    \<and> bp_records bp = visible_between isolation key lg off (bp_next_offset bp)"
proof -
  obtain bp where bp: "process_partition_records isolation offsets key (fst key) part = Some bp"
    "next_offset_after batches = Some (bp_next_offset bp)"
    using process_partition_records_Some [OF assms(4,5)] by blast
  show ?thesis
    using process_partition_records_visible [OF bp(1) assms(2,1,3)] assms(6) bp by blast
qed

theorem decoded_records_are_visible_witness:
  "\<exists>bp. process_partition_records ReadCommitted [((''orders'', 0), 1)] (''orders'', 0) ''orders'' part_example = Some bp
    \<and> map cr_offset (bp_records bp) = [1] \<and> bp_next_offset bp = 5"
proof -
  have r: "pd_records part_example = V2 (map fst log_example)" by (simp add: part_example_def)
  have n: "next_offset_after (map fst log_example) = Some 5"
    by (simp add: next_offset_after_def log_example_def batch_example_def batch_end_def)
  have v: "map cr_offset (visible_between ReadCommitted (''orders'', 0) log_example 1 5) = [1]"
    by (simp add: visible_between_def log_example_def batch_visible_def batch_example_def
        upto_rec1 consumer_record_of_def record_offset_def record_timestamp_def)
  have "\<exists>bp. process_partition_records ReadCommitted [((''orders'', 0), 1)] (''orders'', 0) (fst (''orders'', 0::int)) part_example = Some bp
    \<and> bp_key bp = (''orders'', 0) \<and> bp_position bp = 1 \<and> 1 < bp_next_offset bp
    \<and> next_offset_after (map fst log_example) = Some (bp_next_offset bp)
    \<and> bp_records bp = visible_between ReadCommitted (''orders'', 0) log_example 1 (bp_next_offset bp)"
    by (rule decoded_records_are_visible [OF log_example_wf part_example_fetched _ r])
      (simp_all add: part_example_def log_example_def)
  then show ?thesis using n v by auto
qed

end
