(* ===== verification/Consumer_Claims.thy ===== *)
theory Consumer_Claims
  imports Consumer_Run Fetch_Claims
begin

text \<open>
  The properties of the consumer: what it asks for, what it delivers over a run, that a poll is such a
  run, and two ways in which a position and its data come apart.
\<close>

section \<open>What the consumer asks for\<close>

definition asked :: "fetch_by_leader \<Rightarrow> int \<Rightarrow> string \<Rightarrow> fetch_spec \<Rightarrow> bool" where
  "asked by_leader leader topic spec \<longleftrightarrow>
     (\<exists>by_topic specs. map_of by_leader leader = Some by_topic \<and> map_of by_topic topic = Some specs
        \<and> spec \<in> set specs)"

lemma asked_Nil [simp]: "\<not> asked [] leader topic spec"
  by (simp add: asked_def)

lemma asked_entry [simp]:
  "asked (hash_entry l [] (hash_entry t [] (\<lambda>specs. specs @ [new])) grouped) leader topic spec
     \<longleftrightarrow> asked grouped leader topic spec \<or> leader = l \<and> topic = t \<and> spec = new"
  by (auto simp: asked_def map_of_hash_entry split: option.splits if_splits) metis

definition fetch_target ::
  "(int \<Rightarrow> bool) \<Rightarrow> nat \<Rightarrow> consumer \<Rightarrow> (topic_partition \<times> int \<times> nat) list \<Rightarrow> topic_partition \<Rightarrow> int" where
  "fetch_target knows_broker now c preferred key =
     (let leader_id = pp_leader_id (case map_of (co_positions c) key of
            None \<Rightarrow> partition_position_default | Some p \<Rightarrow> p)
      in fst (read_replica knows_broker now (fetch_leader_id leader_id (knows_broker leader_id)) key preferred))"

definition fetch_spec_of :: "consumer \<Rightarrow> topic_partition \<Rightarrow> fetch_spec" where
  "fetch_spec_of c key =
     (let pos = (case map_of (co_positions c) key of None \<Rightarrow> partition_position_default | Some p \<Rightarrow> p)
      in (snd key, last_offset (co_next_offsets c) key, pp_leader_epoch pos, pp_offset_epoch pos))"

lemma read_replica_stable:
  assumes "read_replica knows_broker now leader key preferred = (target, preferred', stale)"
  shows "fst (read_replica knows_broker now leader' key' preferred') = fst (read_replica knows_broker now leader' key' preferred)"
  using assms
  by (auto simp: read_replica_def delete_conv' split: option.splits if_splits prod.splits)

lemma group_fetch_asks:
  assumes "group_fetch knows_broker now paused c key (grouped, preferred, refresh) = (grouped', preferred', refresh')"
  shows "asked grouped' leader topic spec \<longleftrightarrow> asked grouped leader topic spec
    \<or> fetchable paused c key \<and> fetch_target knows_broker now c preferred key = leader
      \<and> map_of (fl_in_flight (co_fetches c)) leader = None \<and> topic = fst key \<and> spec = fetch_spec_of c key"
    "fetch_target knows_broker now c preferred' key' = fetch_target knows_broker now c preferred key'"
proof -
  let ?pos = "case map_of (co_positions c) key of None \<Rightarrow> partition_position_default | Some p \<Rightarrow> p"
  let ?leader = "fetch_leader_id (pp_leader_id ?pos) (knows_broker (pp_leader_id ?pos))"
  obtain target preferred1 stale where r:
    "read_replica knows_broker now ?leader key preferred = (target, preferred1, stale)"
    by (metis prod_cases3)
  have t: "fetch_target knows_broker now c preferred key = target" by (simp add: fetch_target_def r Let_def)
  show "asked grouped' leader topic spec \<longleftrightarrow> asked grouped leader topic spec
    \<or> fetchable paused c key \<and> fetch_target knows_broker now c preferred key = leader
      \<and> map_of (fl_in_flight (co_fetches c)) leader = None \<and> topic = fst key \<and> spec = fetch_spec_of c key"
    using assms by (auto simp: group_fetch_def Let_def r t fetch_spec_of_def split: if_splits)
  have "preferred' = preferred \<or> preferred' = preferred1"
    using assms by (auto simp: group_fetch_def Let_def r split: if_splits)
  then show "fetch_target knows_broker now c preferred' key' = fetch_target knows_broker now c preferred key'"
    unfolding fetch_target_def Let_def using read_replica_stable [OF r, of _ key'] by metis
qed

lemma group_fetch_fold_asks:
  assumes "fold (group_fetch knows_broker now paused c) keys (grouped, preferred, refresh) = (grouped', preferred', refresh')"
  shows "asked grouped' leader topic spec \<longleftrightarrow> asked grouped leader topic spec
    \<or> (\<exists>key\<in>set keys. fetchable paused c key \<and> fetch_target knows_broker now c preferred key = leader
      \<and> map_of (fl_in_flight (co_fetches c)) leader = None \<and> topic = fst key \<and> spec = fetch_spec_of c key)"
  using assms
proof (induction keys arbitrary: grouped preferred refresh)
  case (Cons key keys)
  obtain grouped1 preferred1 refresh1 where
    g: "group_fetch knows_broker now paused c key (grouped, preferred, refresh) = (grouped1, preferred1, refresh1)"
    by (metis prod_cases3)
  have "fold (group_fetch knows_broker now paused c) keys (grouped1, preferred1, refresh1) = (grouped', preferred', refresh')"
    using Cons.prems g by simp
  note IH = Cons.IH [OF this, unfolded group_fetch_asks [OF g]]
  then show ?case by (simp only: list.set bex_simps(5)) argo
qed simp

lemma paused_of_frame:
  assumes "paused_of ownership_ids c = (paused, c1)"
  shows "fetchable paused' c1 key = fetchable paused' c key"
    "fetch_target knows_broker now c1 preferred key = fetch_target knows_broker now c preferred key"
    "fetch_spec_of c1 key = fetch_spec_of c key" "co_fetches c1 = co_fetches c"
proof -
  have "c1 = c\<lparr>co_paused := co_paused c1\<rparr>" using assms by (auto simp: paused_of_def Let_def)
  then obtain p where c1: "c1 = c\<lparr>co_paused := p\<rparr>" by blast
  show "fetchable paused' c1 key = fetchable paused' c key"
    "fetch_target knows_broker now c1 preferred key = fetch_target knows_broker now c preferred key"
    "fetch_spec_of c1 key = fetch_spec_of c key" "co_fetches c1 = co_fetches c"
    unfolding c1 by (simp_all add: fetchable_def fetch_target_def fetch_spec_of_def)
qed


text \<open>
  When a partition may be fetched, and from which broker, in terms of the consumer's state: the five
  highest 64-bit numbers stand for a position that is not known yet, a pause holds for the ownership
  it was made under, and without a known leader the bootstrap connection, which has the number -1,
  takes the request.
\<close>

definition may_fetch :: "consumer \<Rightarrow> topic_partition \<Rightarrow> int \<Rightarrow> bool" where
  "may_fetch c key offset \<longleftrightarrow>
     key \<in> set (co_assigned c) \<and> key \<notin> co_assigned_callback_pending c
     \<and> (sub_manual_assignment (co_subscription c) \<or> sub_pattern (co_subscription c) \<noteq> None
        \<or> sub_regex (co_subscription c) \<noteq> None \<or> fst key \<in> set (sub_topics (co_subscription c)))
     \<and> (\<forall>p. map_of (co_positions c) key = Some p \<longrightarrow> \<not> pp_awaiting_validation p)
     \<and> offset = (case map_of (co_next_offsets c) key of Some n \<Rightarrow> n | None \<Rightarrow> 0) \<and> offset < 2 ^ 63 - 5
     \<and> (\<forall>owner. (key, owner) \<in> set (co_paused c) \<longrightarrow> map_of (co_ownership_ids c) key \<noteq> Some owner)
     \<and> (\<forall>bp\<in>set (co_fetch_buffer c). bp_key bp \<noteq> key)"

definition reads_from :: "(int \<Rightarrow> bool) \<Rightarrow> nat \<Rightarrow> consumer \<Rightarrow> topic_partition \<Rightarrow> int \<Rightarrow> bool" where
  "reads_from knows_broker now c key broker \<longleftrightarrow>
     (if \<exists>replica expires. map_of (fl_preferred_read_replicas (co_fetches c)) key = Some (replica, expires)
           \<and> now \<le> expires \<and> knows_broker replica
      then \<exists>expires. map_of (fl_preferred_read_replicas (co_fetches c)) key = Some (broker, expires)
      else if \<exists>p. map_of (co_positions c) key = Some p \<and> 0 \<le> pp_leader_id p \<and> knows_broker (pp_leader_id p)
      then \<exists>p. map_of (co_positions c) key = Some p \<and> broker = pp_leader_id p
      else broker = - 1)"

lemma fetchable_iff:
  assumes "paused_of (co_ownership_ids c) c = (paused, c1)" "key \<in> set (co_assigned c)"
  shows "fetchable paused c key \<longleftrightarrow> may_fetch c key (last_offset (co_next_offsets c) key)"
proof -
  have p: "key \<notin> paused \<longleftrightarrow>
      (\<forall>owner. (key, owner) \<in> set (co_paused c) \<longrightarrow> map_of (co_ownership_ids c) key \<noteq> Some owner)"
    using assms(1) by (cases key) (force simp: paused_of_def Let_def)
  have b: "key \<notin> buffered_partitions (co_fetch_buffer c) \<longleftrightarrow> (\<forall>bp\<in>set (co_fetch_buffer c). bp_key bp \<noteq> key)"
    by (auto simp: buffered_partitions_def)
  have v: "\<not> (case map_of (co_positions c) key of None \<Rightarrow> False | Some p \<Rightarrow> pp_awaiting_validation p)
      \<longleftrightarrow> (\<forall>p. map_of (co_positions c) key = Some p \<longrightarrow> \<not> pp_awaiting_validation p)"
    by (simp split: option.split)
  have o: "\<not> is_reset_sentinel n \<longleftrightarrow> n < 2 ^ 63 - 5" for n
    by (simp add: is_reset_sentinel_def NO_OFFSET_SENTINEL_def i64_max_def not_le)
  show ?thesis
    unfolding fetchable_def may_fetch_def de_Morgan_disj p b v o subscription_contains_def
    using assms(2) by (simp only: last_offset_def) (auto split: option.split)
qed

lemma fetch_target_iff:
  "fetch_target knows_broker now c (fl_preferred_read_replicas (co_fetches c)) key = broker
     \<longleftrightarrow> reads_from knows_broker now c key broker"
proof -
  let ?pos = "case map_of (co_positions c) key of None \<Rightarrow> partition_position_default | Some p \<Rightarrow> p"
  let ?leader = "fetch_leader_id (pp_leader_id ?pos) (knows_broker (pp_leader_id ?pos))"
  have l: "?leader = broker \<longleftrightarrow>
    (if \<exists>p. map_of (co_positions c) key = Some p \<and> 0 \<le> pp_leader_id p \<and> knows_broker (pp_leader_id p)
      then \<exists>p. map_of (co_positions c) key = Some p \<and> broker = pp_leader_id p
      else broker = - 1)"
    by (cases "map_of (co_positions c) key") (auto simp: fetch_leader_id_def partition_position_default_def)
  show ?thesis
    unfolding fetch_target_def reads_from_def Let_def l [symmetric]
    by (cases "map_of (fl_preferred_read_replicas (co_fetches c)) key")
      (auto simp: read_replica_def not_less split: if_splits)
qed

text \<open>
  C13. A poll asks for exactly the partitions that it may fetch, each from the right broker.  A request
  to a broker names a partition at an offset if and only if the partition is assigned, its assignment
  callback has run, the subscription covers it, its position needs no validation and is known, it is
  not paused, no fetched data of it is in the buffer, the broker is its live preferred read replica or
  else its leader, and no other fetch to that broker is in flight.  The offset is the position of the
  partition, and the epochs are those of the position.
\<close>

theorem fetches_exactly_what_is_fetchable:
  assumes "group_fetches knows_broker now (co_assigned c) c = (by_leader, c')"
  shows "(\<exists>by_topic specs. map_of by_leader broker = Some by_topic \<and> map_of by_topic topic = Some specs
        \<and> (index, offset, leader_epoch, offset_epoch) \<in> set specs)
    \<longleftrightarrow> may_fetch c (topic, index) offset \<and> reads_from knows_broker now c (topic, index) broker
      \<and> map_of (fl_in_flight (co_fetches c)) broker = None
      \<and> (leader_epoch, offset_epoch) = (case map_of (co_positions c) (topic, index) of
           None \<Rightarrow> (- 1, - 1) | Some p \<Rightarrow> (pp_leader_epoch p, pp_offset_epoch p))"
proof -
  obtain paused c1 where p: "paused_of (co_ownership_ids c) c = (paused, c1)"
    by (cases "paused_of (co_ownership_ids c) c")
  note c1 = paused_of_frame [OF p]
  obtain grouped preferred refresh where g: "fold (group_fetch knows_broker now paused c1) (co_assigned c)
      ([], fl_preferred_read_replicas (co_fetches c1), False) = (grouped, preferred, refresh)"
    by (metis prod_cases3)
  let ?spec = "(index, offset, leader_epoch, offset_epoch)"
  have "by_leader = grouped" using assms by (simp add: group_fetches_def p g)
  then have "(\<exists>by_topic specs. map_of by_leader broker = Some by_topic \<and> map_of by_topic topic = Some specs
        \<and> ?spec \<in> set specs)
    \<longleftrightarrow> (\<exists>key\<in>set (co_assigned c). fetchable paused c key \<and> reads_from knows_broker now c key broker
      \<and> map_of (fl_in_flight (co_fetches c)) broker = None \<and> topic = fst key \<and> ?spec = fetch_spec_of c key)"
    using group_fetch_fold_asks [OF g, of broker topic ?spec]
    unfolding asked_def [symmetric] c1 fetch_target_iff by simp
  moreover have "topic = fst key \<and> ?spec = fetch_spec_of c key \<longleftrightarrow>
      key = (topic, index) \<and> offset = last_offset (co_next_offsets c) (topic, index)
      \<and> (leader_epoch, offset_epoch) = (case map_of (co_positions c) (topic, index) of
           None \<Rightarrow> (- 1, - 1) | Some p \<Rightarrow> (pp_leader_epoch p, pp_offset_epoch p))" for key
    by (cases key) (auto simp: fetch_spec_of_def Let_def partition_position_default_def split: option.splits)
  moreover have "(topic, index) \<in> set (co_assigned c) \<and> fetchable paused c (topic, index)
      \<and> offset = last_offset (co_next_offsets c) (topic, index) \<longleftrightarrow> may_fetch c (topic, index) offset"
    using fetchable_iff [OF p, of "(topic, index)"] by (auto simp: may_fetch_def last_offset_def)
  ultimately show ?thesis by (simp only:) blast
qed

text \<open>A consumer with one assigned partition, whose leader is broker 5.\<close>

definition consumer_example :: consumer where
  "consumer_example = \<lparr>
     co_subscription = \<lparr>sub_topics = [], sub_pattern = None, sub_regex = None,
       sub_exclude_internal_topics = True, sub_unsubscribes = 0, sub_version = 0, sub_manual_assignment = True\<rparr>,
     co_assigned = [(''orders'', 0)], co_next_offsets = [((''orders'', 0), 1)],
     co_positions = [((''orders'', 0), \<lparr>pp_offset_epoch = 2, pp_leader_id = 5,
       pp_leader_epoch = 3, pp_awaiting_validation = False\<rparr>)],
     co_topic_ids = [(''orders'', replicate 16 1)], co_ownership_ids = [((''orders'', 0), 1)], co_paused = [],
     co_assigned_callback_pending = {}, co_fetch_buffer = [],
     co_fetches = \<lparr>fl_sessions = [], fl_in_flight = [], fl_ready = [], fl_preferred_read_replicas = []\<rparr>,
     co_end_offsets = [], co_polled = None, co_update_requested = False, co_isolation_level = ReadCommitted,
     co_auto_offset_reset = Earliest, co_max_poll_records = 10, co_fetch_partition_max = 1024,
     co_metadata_max_age = 300000\<rparr>"

lemma consumer_example_fetches:
  "group_fetches (\<lambda>_. True) 0 (co_assigned consumer_example) consumer_example
     = ([(5, [(''orders'', [(0, 1, 3, 2)])])], consumer_example)"
  by (simp add: consumer_example_def group_fetches_def paused_of_def group_fetch_def fetchable_def read_replica_def
      fetch_leader_id_def last_offset_def is_reset_sentinel_def LATEST_SENTINEL_def BEGINNING_SENTINEL_def END_SENTINEL_def COMMITTED_SENTINEL_def NO_OFFSET_SENTINEL_def  i64_max_def buffered_partitions_def hash_entry_def)

theorem fetches_exactly_what_is_fetchable_witness:
  "may_fetch consumer_example (''orders'', 0) 1 \<and> reads_from (\<lambda>_. True) 0 consumer_example (''orders'', 0) 5
   \<and> \<not> (may_fetch consumer_example (''orders'', 0) 2 \<and> reads_from (\<lambda>_. True) 0 consumer_example (''orders'', 0) 5)"
proof -
  have p: "map_of (co_positions consumer_example) (''orders'', 0) = Some \<lparr>pp_offset_epoch = 2, pp_leader_id = 5,
       pp_leader_epoch = 3, pp_awaiting_validation = False\<rparr>"
    "fl_in_flight (co_fetches consumer_example) = []"
    by (simp_all add: consumer_example_def)
  show ?thesis
    using fetches_exactly_what_is_fetchable [OF consumer_example_fetches, of 5 "''orders''" 0 1 3 2]
      fetches_exactly_what_is_fetchable [OF consumer_example_fetches, of 5 "''orders''" 0 2 3 2] p by simp
qed

section \<open>What the consumer delivers\<close>

text \<open>A consumer before its first fetch.\<close>

definition system_started :: "(uuid \<Rightarrow> string) \<Rightarrow> system \<Rightarrow> bool" where
  "system_started name_of s \<longleftrightarrow>
     (let c = sy_consumer s
      in co_fetch_buffer c = [] \<and> fl_sessions (co_fetches c) = [] \<and> fl_in_flight (co_fetches c) = []
         \<and> fl_ready (co_fetches c) = [] \<and> ids_agree name_of (co_topic_ids c)
         \<and> sy_start s = map_of (co_next_offsets c) \<and> sy_since s = (\<lambda>_. []))"

lemma system_started_inv:
  assumes "system_started name_of s"
  shows "system_inv name_of logs s"
proof (rule system_invI)
  have "session_of l (co_fetches (sy_consumer s)) = fetch_session_default" for l
    using assms by (simp add: system_started_def session_of_def Let_def)
  then show "rest_ok name_of (co_isolation_level (sy_consumer s)) logs (sy_brokers s)
      (fl_ready (co_fetches (sy_consumer s))) (co_fetches (sy_consumer s))"
    using assms by (simp add: system_started_def Let_def leader_ok_def session_inv_def in_step_full fetch_session_default_def)
  show "since_ok (co_isolation_level (sy_consumer s)) logs s"
    unfolding since_ok_def
  proof
    fix key
    show "case map_of (co_next_offsets (sy_consumer s)) key of
        None \<Rightarrow> sy_since s key = []
      | Some b \<Rightarrow> (\<exists>a. sy_start s key = Some a \<and> a \<le> b
          \<and> sy_since s key = visible_between (co_isolation_level (sy_consumer s)) key (logs key) a b)"
      using assms by (cases "map_of (co_next_offsets (sy_consumer s)) key") (simp_all add: system_started_def Let_def)
  qed
qed (use assms in \<open>simp_all add: system_started_def Let_def\<close>)

text \<open>
  C9. Over every orderly run the consumer delivers exactly once.  Whatever fetches are sent, answered,
  refused or lost, whatever brokers forget their sessions, and whatever seeks, resets and rebalances
  change in between: since the position of a partition was last moved (to \<open>start\<close>) by anything other
  than a delivery, the application has received exactly the records of that partition that are
  visible at the isolation level from \<open>start\<close> up to the current position, once each and in log order.
  A run is orderly when topics have names, no fetch is sent while a collected result waits to be
  taken, and no poll absorbs a row of a partition after a row that moved the position of that
  partition (a diverging log or an offset out of range).  Kafka has no topic without a
  name, and a poll takes every result that it collects, but \<open>poll.rs\<close> does not check the last
  condition, which two fetches of one partition in flight can break.
\<close>

theorem consumer_delivers_exactly_once:
  assumes "logs_wf logs" "system_started name_of s0" "consumer_run name_of logs s0 events s"
    and "\<forall>event\<in>set events. orderly event"
    and "map_of (co_next_offsets (sy_consumer s)) key = Some position"
  shows "\<exists>start. sy_start s key = Some start \<and> start \<le> position
    \<and> sy_since s key = visible_between (co_isolation_level (sy_consumer s)) key (logs key) start position
    \<and> sorted_wrt (\<lambda>r r'. cr_offset r < cr_offset r') (sy_since s key)"
proof -
  have "since_ok (co_isolation_level (sy_consumer s)) logs s"
    using system_invD(4) [OF consumer_run_inv [OF assms(3,1) system_started_inv [OF assms(2)] assms(4)]] .
  then obtain start where "sy_start s key = Some start" "start \<le> position"
    "sy_since s key = visible_between (co_isolation_level (sy_consumer s)) key (logs key) start position"
    using since_ok_Some assms(5) by blast
  then show ?thesis
    using visible_between_facts(1) [OF logs_wfD [OF assms(1)]] by simp
qed

text \<open>One round of the example consumer: it asks broker 5, which serves the partition from its log.\<close>

definition logs_example :: "topic_partition \<Rightarrow> log" where
  "logs_example key = (if key = (''orders'', 0) then log_example else [])"

definition start_example :: system where
  "start_example = \<lparr>sy_consumer = consumer_example, sy_brokers = (\<lambda>_. None),
     sy_start = map_of (co_next_offsets consumer_example), sy_since = (\<lambda>_. [])\<rparr>"

definition round_wanted :: session_partitions where
  "round_wanted = [((''orders'', 0), \<lparr>sp_topic_id = replicate 16 1, sp_fetch_offset = 1,
     sp_current_leader_epoch = 3, sp_last_fetched_epoch = 2, sp_partition_max_bytes = 1024\<rparr>)]"

definition round_fetch :: in_flight_fetch where
  "round_fetch = \<lparr>if_request = fst (build round_wanted fetch_session_default), if_result = None,
     if_requested = [((''orders'', 0), 1)], if_from_replica = {}\<rparr>"

definition round_response :: fetch_response where
  "round_response = \<lparr>fr_error_code = 0, fr_session_id = 77, fr_throttle_time_ms = 0,
     fr_responses = [\<lparr>tr_topic = [], tr_topic_id = replicate 16 1, tr_partitions = [part_example]\<rparr>]\<rparr>"

definition sent_example :: consumer where
  "sent_example = consumer_example\<lparr>co_fetches := \<lparr>
     fl_sessions = [(5, snd (build round_wanted fetch_session_default))],
     fl_in_flight = [(5, round_fetch)], fl_ready = [], fl_preferred_read_replicas = []\<rparr>\<rparr>"

definition taken_example :: consumer where
  "taken_example = consumer_example\<lparr>co_fetches := \<lparr>
     fl_sessions = [(5, (snd (build round_wanted fetch_session_default))\<lparr>fs_next :=
       \<lparr>fm_session_id = 77, fm_epoch = 1\<rparr>\<rparr>)],
     fl_in_flight = [], fl_ready = [], fl_preferred_read_replicas = []\<rparr>\<rparr>"

lemma consumer_example_simps [simp]:
  "co_topic_ids consumer_example = [(''orders'', replicate 16 1)]" "co_fetch_partition_max consumer_example = 1024"
  "co_fetches consumer_example = \<lparr>fl_sessions = [], fl_in_flight = [], fl_ready = [], fl_preferred_read_replicas = []\<rparr>"
  "co_next_offsets consumer_example = [((''orders'', 0), 1)]" "co_assigned consumer_example = [(''orders'', 0)]"
  "co_isolation_level consumer_example = ReadCommitted" "co_fetch_buffer consumer_example = []"
  by (simp_all add: consumer_example_def)

lemma round_wanted_collect:
  "wanted_partitions [(''orders'', replicate 16 1)] 1024 [(''orders'', [(0, 1, 3, 2)])] = round_wanted"
  by (simp add: wanted_partitions_def round_wanted_def session_partition_def btree_collect_def btree_insert_def)

lemma send_round:
  "send_fetch [(''orders'', replicate 16 1)] 1024 (5, [(''orders'', [(0, 1, 3, 2)])])
     \<lparr>fl_sessions = [], fl_in_flight = [], fl_ready = [], fl_preferred_read_replicas = []\<rparr>
   = \<lparr>fl_sessions = [(5, snd (build round_wanted fetch_session_default))],
      fl_in_flight = [(5, round_fetch)], fl_ready = [], fl_preferred_read_replicas = []\<rparr>"
  unfolding send_fetch_def prod.case round_wanted_collect
  by (simp add: Let_def round_fetch_def session_of_def case_prod_beta) (simp add: round_wanted_def)

lemma send_example: "after_send (\<lambda>_. True) 0 consumer_example = sent_example"
  unfolding after_send_def consumer_example_fetches
  by (simp add: send_fetches_def send_round Let_def sent_example_def collect_ready_def collect_fetch_def round_fetch_def)

definition answered_example :: consumer where
  "answered_example = with_result 5 round_fetch (Some (Inr round_response)) sent_example"

lemma round_keeps_row:
  "retain_response \<lparr>cf_leader = 5, cf_requested = [((''orders'', 0), 1)], cf_from_replica = {}, cf_result = r\<rparr>
     [((''orders'', 0), 1)] [(replicate 16 1, ''orders'')] round_response = round_response"
  by (simp add: retain_response_def round_response_def topic_name_def retain_row_def last_offset_def part_example_def)

lemma round_session:
  "handle_response (fr_error_code round_response) (fr_session_id round_response) (response_rows round_response)
     (fr_throttle_time_ms round_response) (snd (build round_wanted fetch_session_default))
   = (True, (snd (build round_wanted fetch_session_default))\<lparr>fs_next := \<lparr>fm_session_id = 77, fm_epoch = 1\<rparr>\<rparr>)"
proof -
  have "is_full (fs_next (snd (build round_wanted fetch_session_default)))"
    by (simp add: build_def fetch_session_default_def Let_def)
  then show ?thesis by (simp add: handle_response_def round_response_def response_rows_def session_metadata)
qed

lemma take_example:
  "take_completed_fetches (co_topic_ids answered_example) answered_example = (Inr [round_response], taken_example)"
  by (simp add: take_completed_fetches_def answered_example_def with_result_def sent_example_def taken_example_def
      collect_ready_def collect_fetch_def take_fetch_def round_fetch_def id_to_name_def session_of_def
      round_keeps_row round_session Let_def)

definition bp_example :: buffered_partition where
  "bp_example = the (process_partition_records ReadCommitted [((''orders'', 0), 1)] (''orders'', 0) ''orders'' part_example)"

lemma bp_example_facts:
  "process_partition_records ReadCommitted [((''orders'', 0), 1)] (''orders'', 0) ''orders'' part_example = Some bp_example"
  "bp_key bp_example = (''orders'', 0)" "bp_position bp_example = 1" "bp_next_offset bp_example = 5"
  "\<exists>r. bp_records bp_example = [r] \<and> cr_offset r = 1 \<and> (cr_topic r, cr_partition r) = (''orders'', 0)"
proof -
  have r: "pd_records part_example = V2 (map fst log_example)" by (simp add: part_example_def)
  have n: "next_offset_after (map fst log_example) = Some 5"
    by (simp add: next_offset_after_def log_example_def batch_example_def batch_end_def)
  have v: "map (\<lambda>r. (cr_offset r, cr_topic r, cr_partition r)) (visible_between ReadCommitted (''orders'', 0) log_example 1 5)
      = [(1, ''orders'', 0)]"
    by (simp add: visible_between_def log_example_def batch_visible_def batch_example_def
        upto_rec1 consumer_record_of_def record_offset_def record_timestamp_def)
  have ne: "map fst log_example \<noteq> []" by (simp add: log_example_def)
  obtain bp where bp: "process_partition_records ReadCommitted [((''orders'', 0), 1)] (''orders'', 0)
      (fst (''orders'', 0::int)) part_example = Some bp" "next_offset_after (map fst log_example) = Some (bp_next_offset bp)"
    using process_partition_records_Some [OF r] ne by blast
  then show some: "process_partition_records ReadCommitted [((''orders'', 0), 1)] (''orders'', 0) ''orders'' part_example
      = Some bp_example" by (simp add: bp_example_def)
  have "bp = bp_example" using bp(1) some by simp
  moreover note process_partition_records_visible [OF bp(1) part_example_fetched log_example_wf]
  ultimately show "bp_key bp_example = (''orders'', 0)" "bp_position bp_example = 1" "bp_next_offset bp_example = 5"
    "\<exists>r. bp_records bp_example = [r] \<and> cr_offset r = 1 \<and> (cr_topic r, cr_partition r) = (''orders'', 0)"
    using n v bp(2) by (auto simp: part_example_def)
qed

definition absorbed_example :: consumer where
  "absorbed_example = taken_example\<lparr>co_end_offsets := [((''orders'', 0), 5)], co_fetch_buffer := [bp_example]\<rparr>"

lemma round_rows: "rows_of [(replicate 16 1, ''orders'')] [round_response] = [(''orders'', part_example)]"
  by (simp add: rows_of_def round_response_def topic_name_def)

lemma absorb_example:
  "process_fetch_responses is_known now lookup others [round_response] [(''orders'', replicate 16 1)] taken_example
     = (Inr (), absorbed_example)"
proof -
  have "pd_partition_index part_example = 0" "pd_diverging_end_offset part_example = -1" "pd_error_code part_example = 0"
    "pd_preferred_read_replica part_example = -1" "pd_high_watermark part_example = 5" "pd_last_stable_offset part_example = 5"
    by (simp_all add: part_example_def)
  moreover have "id_to_name [(''orders'', replicate 16 1)] = [(replicate 16 1, ''orders'')]"
    by (simp add: id_to_name_def)
  moreover have "co_assigned taken_example = [(''orders'', 0)]" "co_next_offsets taken_example = [((''orders'', 0), 1)]"
    "co_isolation_level taken_example = ReadCommitted" "co_end_offsets taken_example = []" "co_polled taken_example = None"
    "co_fetch_buffer taken_example = []" "co_update_requested taken_example = False"
    by (simp_all add: taken_example_def consumer_example_def)
  ultimately show ?thesis
    by (simp add: process_fetch_responses_def round_rows process_row_def classify_fetch_partition_error_def
        bp_example_facts(1) record_readable_end_def readable_end_offset_def Let_def fetch_buffer_push_def
        absorbed_example_def)
qed

lemma deliver_example:
  "\<exists>r c. drain_fetch_buffer absorbed_example = ([r], c) \<and> cr_offset r = 1 \<and> records_of (''orders'', 0) [r] = [r]
    \<and> co_next_offsets c = [((''orders'', 0), 5)]"
proof -
  obtain r where r: "bp_records bp_example = [r]" "cr_offset r = 1" "cr_topic r = ''orders''" "cr_partition r = 0"
    using bp_example_facts(5) by blast
  have "co_ownership_ids absorbed_example = [((''orders'', 0), 1)]" "co_paused absorbed_example = []"
    "co_max_poll_records absorbed_example = 10" "co_assigned absorbed_example = [(''orders'', 0)]"
    "co_fetch_buffer absorbed_example = [bp_example]" "co_next_offsets absorbed_example = [((''orders'', 0), 1)]"
    by (simp_all add: absorbed_example_def taken_example_def consumer_example_def)
  then show ?thesis
    using r by (simp add: drain_fetch_buffer_def paused_of_def drain_def drain_entry_def bp_example_facts(1-4)
      records_of_def Let_def)
qed

lemma logs_example_wf: "logs_wf logs_example"
  using log_example_wf by (simp add: logs_wf_def logs_example_def log_wf_def)

lemma start_example_started: "system_started (\<lambda>_. ''orders'') start_example"
  by (simp add: system_started_def start_example_def ids_agree_def)

lemma round_arrives:
  "consumer_step (\<lambda>_. ''orders'') logs_example (start_example\<lparr>sy_consumer := sent_example\<rparr>) (EvServe 5)
     (start_example\<lparr>sy_consumer := answered_example,
        sy_brokers := (\<lambda>_. None)(5 := Some (77, 1, map_of round_wanted))\<rparr>)"
proof -
  let ?r = "fst (build round_wanted fetch_session_default)"
  have full: "full_request ?r"
    using build_client(4) [of round_wanted fetch_session_default]
    by (simp add: build_def fetch_session_default_def Let_def)
  have "session_meaning ?r Map.empty = map_of round_wanted"
    by (rule build_full_meaning [OF _ full, of _ fetch_session_default "snd (build round_wanted fetch_session_default)"])
      (simp_all add: round_wanted_def)
  then have "broker_serves ?r None (Some (77, 1, map_of round_wanted)) (map_of round_wanted) 77"
    using serves_new [OF full, of 77 "map_of round_wanted" None] by (simp add: session_metadata)
  moreover have "served_from (\<lambda>_. ''orders'') ReadCommitted logs_example (map_of round_wanted) round_response"
    using part_example_fetched
    by (simp add: served_from_def round_response_def true_name_def logs_example_def round_wanted_def part_example_def)
  ultimately show ?thesis
    using consumer_step.serve_fetch [of "start_example\<lparr>sy_consumer := sent_example\<rparr>" 5 round_fetch
        "Some (77, 1, map_of round_wanted)" "map_of round_wanted" 77 round_response "\<lambda>_. ''orders''" logs_example]
    by (simp add: sent_example_def round_fetch_def answered_example_def start_example_def round_response_def)
qed

definition round_events :: "consumer_event list" where
  "round_events = [EvSend [(''orders'', 0)] [], EvCollect, EvServe 5, EvAbsorb [(''orders'', part_example)]]"

lemma round_events_orderly: "\<forall>event\<in>set round_events. orderly event"
  by (simp add: round_events_def row_keys_def)

lemma round_example:
  "\<exists>s r. consumer_run (\<lambda>_. ''orders'') logs_example start_example (round_events @ [EvDeliver [r]]) s
    \<and> map_of (co_next_offsets (sy_consumer s)) (''orders'', 0) = Some 5 \<and> sy_start s (''orders'', 0) = Some 1
    \<and> sy_since s (''orders'', 0) = [r] \<and> cr_offset r = 1"
proof -
  let ?run = "consumer_run (\<lambda>_. ''orders'') logs_example"
  let ?step = "consumer_step (\<lambda>_. ''orders'') logs_example"
  let ?s2 = "start_example\<lparr>sy_consumer := answered_example, sy_brokers := (\<lambda>_. None)(5 := Some (77, 1, map_of round_wanted))\<rparr>"
  obtain r c where d: "drain_fetch_buffer absorbed_example = ([r], c)" "cr_offset r = 1"
    "records_of (''orders'', 0) [r] = [r]" "co_next_offsets c = [((''orders'', 0), 5)]"
    using deliver_example by blast
  let ?s3 = "observe absorbed_example ?s2"
  let ?s4 = "?s3\<lparr>sy_consumer := c, sy_since := (\<lambda>key. sy_since ?s3 key @ records_of key [r])\<rparr>"
  have ids: "co_topic_ids answered_example = [(''orders'', replicate 16 1)]"
    by (simp add: answered_example_def with_result_def sent_example_def)
  have names: "id_to_name [(''orders'', replicate 16 1)] = [(replicate 16 1, ''orders'')]" by (simp add: id_to_name_def)
  have s3: "?s3 = ?s2\<lparr>sy_consumer := absorbed_example\<rparr>"
    by (rule observe_unmoved)
      (simp add: absorbed_example_def taken_example_def answered_example_def with_result_def sent_example_def)
  have "?run start_example [EvSend [(''orders'', 0)] [], EvCollect] (start_example\<lparr>sy_consumer := sent_example\<rparr>)"
    using after_send_runs(1) [of "\<lambda>_. ''orders''" logs_example start_example "\<lambda>_. True" 0]
    by (simp add: start_example_def send_example)
  from consumer_run.step [OF this round_arrives]
  have "?run start_example [EvSend [(''orders'', 0)] [], EvCollect, EvServe 5] ?s2" by simp
  moreover have "?step ?s2 (EvAbsorb [(''orders'', part_example)]) ?s3"
  proof -
    have take: "take_completed_fetches (co_topic_ids (sy_consumer ?s2)) (sy_consumer ?s2) = (Inr [round_response], taken_example)"
      using take_example by simp
    have process: "process_fetch_responses (\<lambda>_. True) 0 (\<lambda>_ _. Inl Wakeup) (\<lambda>c. c) [round_response]
        (co_topic_ids (sy_consumer ?s2)) taken_example = (Inr (), absorbed_example)"
      using absorb_example by (simp add: ids)
    have "unobtrusive (\<lambda>_. ''orders'') (\<lambda>c. c)" by (simp add: unobtrusive_def)
    from consumer_step.absorb [OF take this process] show ?thesis by (simp add: ids names round_rows)
  qed
  ultimately have "?run start_example round_events ?s3"
    unfolding round_events_def using consumer_run.step by fastforce
  moreover have "?step ?s3 (EvDeliver [r]) ?s4" by (rule consumer_step.deliver) (simp add: s3 d(1))
  ultimately have run: "?run start_example (round_events @ [EvDeliver [r]]) ?s4" by (rule consumer_run.step)
  have "sy_start ?s3 (''orders'', 0) = Some 1" "sy_since ?s3 (''orders'', 0) = []"
    unfolding s3 by (simp_all add: start_example_def)
  then have "map_of (co_next_offsets (sy_consumer ?s4)) (''orders'', 0) = Some 5" "sy_start ?s4 (''orders'', 0) = Some 1"
    "sy_since ?s4 (''orders'', 0) = [r]"
    using d(3,4) by simp_all
  then show ?thesis using run d(2) by blast
qed

theorem consumer_delivers_exactly_once_witness:
  "\<exists>s r. consumer_run (\<lambda>_. ''orders'') logs_example start_example (round_events @ [EvDeliver [r]]) s
    \<and> map_of (co_next_offsets (sy_consumer s)) (''orders'', 0) = Some 5
    \<and> sy_since s (''orders'', 0)
        = visible_between (co_isolation_level (sy_consumer s)) (''orders'', 0) log_example 1 5
    \<and> map cr_offset (sy_since s (''orders'', 0)) = [1]"
proof -
  obtain s r where s: "consumer_run (\<lambda>_. ''orders'') logs_example start_example (round_events @ [EvDeliver [r]]) s"
    "map_of (co_next_offsets (sy_consumer s)) (''orders'', 0) = Some 5" "sy_start s (''orders'', 0) = Some 1"
    "sy_since s (''orders'', 0) = [r]" "cr_offset r = 1" using round_example by blast
  have log: "logs_example (''orders'', 0) = log_example" by (simp add: logs_example_def)
  have o: "\<forall>event\<in>set (round_events @ [EvDeliver [r]]). orderly event"
    using round_events_orderly by simp
  have "\<exists>start. sy_start s (''orders'', 0) = Some start \<and> start \<le> 5
    \<and> sy_since s (''orders'', 0)
        = visible_between (co_isolation_level (sy_consumer s)) (''orders'', 0) (logs_example (''orders'', 0)) start 5
    \<and> sorted_wrt (\<lambda>r r'. cr_offset r < cr_offset r') (sy_since s (''orders'', 0))"
    by (rule consumer_delivers_exactly_once [OF logs_example_wf start_example_started s(1) o s(2)])
  then have since: "sy_since s (''orders'', 0)
      = visible_between (co_isolation_level (sy_consumer s)) (''orders'', 0) log_example 1 5"
    unfolding s(3) log by (elim exE conjE) (simp only: option.inject)
  have "map cr_offset (sy_since s (''orders'', 0)) = [1]" unfolding s(4) using s(5) by simp
  with since show ?thesis by (intro exI [of _ s] exI [of _ r] conjI s(1,2))
qed

text \<open>
  C12. The fetch part of a poll is a run of this system whose events are known, so the delivery guarantee
  covers it.  Between sending and taking, answers arrive as steps of the brokers, the events
  \<open>arrivals\<close>.  Every poll first sends and collects.  Then it is over without a further step if a wakeup
  came, with that error, or if nothing is in flight, with no records.  Otherwise the arrivals follow
  and one absorption: a poll that returns records ends with the delivery of exactly these records, and
  a poll that fails with an error delivers nothing.  No collected result is left behind, so the
  next poll may send.
\<close>

theorem poll_fetch_is_a_run:
  assumes "unobtrusive name_of (le_others env)"
    and "sent = after_send knows_broker (le_now env) (sy_consumer s)"
    and "arrived = sent\<lparr>co_fetches := le_arrive env (co_fetches sent)\<rparr>"
    and "consumer_run name_of logs (s\<lparr>sy_consumer := sent\<rparr>) arrivals
      (s\<lparr>sy_consumer := arrived, sy_brokers := brokers\<rparr>)"
    and "poll_fetch is_known knows_broker env (sy_consumer s) = (result, c')"
  shows "\<exists>s' events. consumer_run name_of logs s
      ([EvSend (co_assigned (sy_consumer s)) (map cf_leader (fl_ready (co_fetches (sy_consumer s)))), EvCollect]
         @ events) s'
    \<and> sy_consumer s' = c' \<and> fl_ready (co_fetches c') = []
    \<and> (events = [] \<and> (result = Inl Wakeup \<and> le_woken env \<or> result = Inr [] \<and> fl_in_flight (co_fetches c') = [])
       \<or> (\<exists>last. events = arrivals @ last
            \<and> (case result of
                 Inr records \<Rightarrow> (\<exists>rows. last = [EvAbsorb rows, EvDeliver records])
               | Inl e \<Rightarrow> (\<exists>rows. last = [EvAbsorb rows]) \<or> last = [EvFail e])))"
  using poll_fetch_runs [OF assms] unfolding absorbs_def .

definition env_example :: poll_env where
  "env_example = \<lparr>le_wakeup = False, le_prepare = (\<lambda>c. (Inr True, c)), le_rebalance = (\<lambda>c. (Inr True, c)),
     le_woken = False, le_now = 0, le_arrive = (\<lambda>_. co_fetches answered_example),
     le_lookup = (\<lambda>_ _. Inl Wakeup), le_others = (\<lambda>c. c)\<rparr>"

lemma arrived_example: "sent_example\<lparr>co_fetches := le_arrive env_example (co_fetches sent_example)\<rparr> = answered_example"
  by (simp add: env_example_def answered_example_def with_result_def)

lemma poll_example:
  "poll_fetch (\<lambda>_. True) (\<lambda>_. True) env_example consumer_example
     = (case drain_fetch_buffer absorbed_example of (records, c) \<Rightarrow> (Inr records, c))"
proof -
  have sent: "fl_in_flight (co_fetches sent_example) \<noteq> []" "fl_ready (co_fetches sent_example) = []"
    "le_woken env_example = False" "le_now env_example = 0"
    by (simp_all add: sent_example_def env_example_def)
  have ids: "co_topic_ids answered_example = [(''orders'', replicate 16 1)]"
    by (simp add: answered_example_def with_result_def sent_example_def)
  have send: "send_fetches [(5, [(''orders'', [(0, 1, 3, 2)])])] (co_topic_ids consumer_example) consumer_example = sent_example"
    by (simp add: send_fetches_def send_round sent_example_def)
  have collect: "sent_example\<lparr>co_fetches := collect_ready (co_fetches sent_example)\<rparr> = sent_example"
    by (simp add: sent_example_def collect_ready_def collect_fetch_def round_fetch_def)
  have "poll_fetch (\<lambda>_. True) (\<lambda>_. True) env_example consumer_example
    = (case take_completed_fetches (co_topic_ids consumer_example) answered_example of
         (Inl e, c) \<Rightarrow> (Inl e, c)
       | (Inr responses, c) \<Rightarrow>
           (case process_fetch_responses (\<lambda>_. True) (le_now env_example) (le_lookup env_example) (le_others env_example)
                   responses (co_topic_ids consumer_example) c of
              (Inl e, c) \<Rightarrow> (Inl e, c)
            | (Inr _, c) \<Rightarrow> (case drain_fetch_buffer c of (records, c) \<Rightarrow> (Inr records, c))))"
    unfolding poll_fetch_def sent(4) consumer_example_fetches prod.case Let_def send collect arrived_example
    using sent by simp
  then show ?thesis by (simp add: take_example [unfolded ids] absorb_example)
qed

theorem poll_fetch_is_a_run_witness:
  "\<exists>s' r rows. consumer_run (\<lambda>_. ''orders'') logs_example start_example
      [EvSend [(''orders'', 0)] [], EvCollect, EvServe 5, EvAbsorb rows, EvDeliver [r]] s'
    \<and> poll_fetch (\<lambda>_. True) (\<lambda>_. True) env_example consumer_example = (Inr [r], sy_consumer s')
    \<and> cr_offset r = 1 \<and> fl_ready (co_fetches (sy_consumer s')) = []"
proof -
  let ?asked = "[EvSend [(''orders'', 0)] [], EvCollect]"
  obtain r c where d: "drain_fetch_buffer absorbed_example = ([r], c)" "cr_offset r = 1"
    using deliver_example by blast
  have s: "sy_consumer start_example = consumer_example" by (simp add: start_example_def)
  have e: "le_now env_example = 0" "unobtrusive (\<lambda>_. ''orders'') (le_others env_example)"
    by (simp_all add: env_example_def unobtrusive_def)
  have p: "poll_fetch (\<lambda>_. True) (\<lambda>_. True) env_example (sy_consumer start_example) = (Inr [r], c)"
    by (simp add: poll_example d(1) s)
  have sent: "sent_example = after_send (\<lambda>_. True) (le_now env_example) (sy_consumer start_example)"
    by (simp add: s e(1) send_example)
  have asked: "[EvSend (co_assigned (sy_consumer start_example))
      (map cf_leader (fl_ready (co_fetches (sy_consumer start_example)))), EvCollect] = ?asked"
    by (simp add: s)
  from poll_fetch_is_a_run [OF e(2) sent arrived_example [symmetric] consumer_run_single [OF round_arrives] p,
    unfolded asked]
  obtain s' events where run: "consumer_run (\<lambda>_. ''orders'') logs_example start_example (?asked @ events) s'"
    "sy_consumer s' = c" "fl_ready (co_fetches c) = []"
    "events = [] \<and> fl_in_flight (co_fetches c) = [] \<and> [r] = [] \<or>
      (\<exists>rows. events = [EvServe 5] @ [EvAbsorb rows, EvDeliver [r]])"
    by (elim exE conjE) (simp only: sum.case sum.inject sum.distinct, blast)
  then obtain rows where "events = [EvServe 5] @ [EvAbsorb rows, EvDeliver [r]]" by blast
  then have "consumer_run (\<lambda>_. ''orders'') logs_example start_example
      [EvSend [(''orders'', 0)] [], EvCollect, EvServe 5, EvAbsorb rows, EvDeliver [r]] s'"
    using run(1) by simp
  moreover have "poll_fetch (\<lambda>_. True) (\<lambda>_. True) env_example consumer_example = (Inr [r], sy_consumer s')"
    using p unfolding s run(2) .
  ultimately show ?thesis using d(2) run(2,3) by (intro exI [of _ s'] exI [of _ r] exI [of _ rows]) simp
qed

section \<open>Where a position and its data come apart\<close>

lemma to_validate_entry:
  assumes "(key, offset, offset_epoch, leader_epoch) \<in> set (to_validate is_known offsets poss)" "distinct (map fst poss)"
  obtains p where "map_of poss key = Some p" "pp_leader_epoch p = leader_epoch" "pp_offset_epoch p = offset_epoch"
    "map_of offsets key = Some offset"
proof -
  obtain p where "(key, p) \<in> set poss" "pp_leader_epoch p = leader_epoch" "pp_offset_epoch p = offset_epoch"
    "map_of offsets key = Some offset"
    using assms(1) by (auto simp: to_validate_def map_filter_def split: if_splits)
  then show thesis using that map_of_is_SomeI [OF assms(2)] by blast
qed

text \<open>
  C31. A detected truncation is forgotten when a later request fails.  The broker answers that the log of
  the first partition is truncated below the position, and the request for the next partition fails.
  Then the validation fails, no position is reset, and the first partition no longer awaits
  validation: it is not validated again, and its old offset counts as a valid position.
\<close>

theorem validation_forgets_truncation:
  assumes "distinct (map fst (co_positions c))"
    and "to_validate is_known (co_next_offsets c)
      (map (\<lambda>(key, p). (key, clear_unvalidatable_position is_known p)) (co_positions c))
        = (key, offset, offset_epoch, leader_epoch) # (key', next) # rest"
    and "answers key = Inr answer" "eo_error_code answer = 0"
    and "classify offset offset_epoch (eo_leader_epoch answer) (eo_end_offset answer) = Truncated safe_offset"
    and "answers key' = Inl e" "\<not> is_reset_sentinel offset"
  shows "\<exists>c'. validate_positions is_known answers (\<lambda>_ poss. poss) c = (Inl (ConsumerClient e), c')
    \<and> co_next_offsets c' = co_next_offsets c
    \<and> (\<exists>p. map_of (co_positions c') key = Some p \<and> \<not> should_validate_position is_known p)
    \<and> valid_position key c' = Some offset"
proof -
  let ?poss = "map (\<lambda>(key, p). (key, clear_unvalidatable_position is_known p)) (co_positions c)"
  have d: "distinct (map fst ?poss)" using assms(1) by (simp add: case_prod_beta o_def)
  obtain p where p: "map_of ?poss key = Some p" "pp_leader_epoch p = leader_epoch" "map_of (co_next_offsets c) key = Some offset"
    by (rule to_validate_entry [of key offset offset_epoch leader_epoch is_known "co_next_offsets c" ?poss])
      (use assms(2) d in simp_all)
  have "apply_epoch_answer answer offset offset_epoch leader_epoch (Some p)
      = (Some safe_offset, Some (p\<lparr>pp_awaiting_validation := False\<rparr>))"
    using p(2) assms(4,5)
    by (simp add: apply_epoch_answer_def should_skip_stale_response_def response_has_error_def)
  then have "validate_positions is_known answers (\<lambda>_ poss. poss) c = (Inl (ConsumerClient e),
      c\<lparr>co_positions := AList.update key (p\<lparr>pp_awaiting_validation := False\<rparr>) ?poss\<rparr>)"
    unfolding validate_positions_def Let_def assms(2)
    by (cases "next") (simp add: assms(3,6) p(1))
  then show ?thesis
    using p(3) assms(7)
    by (simp add: update_conv' should_validate_position_def valid_position_def)
qed

definition two_partitions :: consumer where
  "two_partitions = consumer_example\<lparr>
     co_assigned := [(''orders'', 0), (''orders'', 1)],
     co_next_offsets := [((''orders'', 0), 10), ((''orders'', 1), 20)],
     co_positions := [((''orders'', 0), \<lparr>pp_offset_epoch = 2, pp_leader_id = 5, pp_leader_epoch = 3,
         pp_awaiting_validation = True\<rparr>),
       ((''orders'', 1), \<lparr>pp_offset_epoch = 2, pp_leader_id = 6, pp_leader_epoch = 3,
         pp_awaiting_validation = True\<rparr>)]\<rparr>"

theorem validation_forgets_truncation_witness:
  "\<exists>c'. validate_positions (\<lambda>epoch. 0 \<le> epoch)
      (\<lambda>key. if key = (''orders'', 0) then Inr \<lparr>eo_leader_epoch = 2, eo_end_offset = 4, eo_error_code = 0\<rparr> else Inl ClientDisconnected)
      (\<lambda>_ poss. poss) two_partitions = (Inl (ConsumerClient ClientDisconnected), c')
    \<and> valid_position (''orders'', 0) c' = Some 10"
proof -
  let ?known = "\<lambda>epoch::int. 0 \<le> epoch"
  let ?answers = "\<lambda>key. if key = (''orders'', 0::int)
    then Inr \<lparr>eo_leader_epoch = 2, eo_end_offset = 4, eo_error_code = 0\<rparr> else Inl ClientDisconnected"
  have v: "to_validate ?known (co_next_offsets two_partitions)
      (map (\<lambda>(key, p). (key, clear_unvalidatable_position ?known p)) (co_positions two_partitions))
      = ((''orders'', 0), 10, 2, 3) # ((''orders'', 1), 20, 2, 3) # []"
    by (simp add: two_partitions_def to_validate_def map_filter_def clear_unvalidatable_position_def
        should_validate_position_def)
  show ?thesis
    using validation_forgets_truncation [OF _ v, of ?answers "\<lparr>eo_leader_epoch = 2, eo_end_offset = 4, eo_error_code = 0\<rparr>" 4
        ClientDisconnected]
    by (auto simp: two_partitions_def classify_def is_reset_sentinel_def LATEST_SENTINEL_def BEGINNING_SENTINEL_def
        END_SENTINEL_def COMMITTED_SENTINEL_def NO_OFFSET_SENTINEL_def i64_max_def)
qed

text \<open>
  A row that was asked for above the position \<open>start\<close> which it is decoded at: it is buffered at
  \<open>start\<close>, but holds only what is visible from its first batch on.
\<close>

lemma decode_floor:
  assumes "\<And>b w. b \<in> set batches \<Longrightarrow> w \<in> set (wb_records b) \<Longrightarrow>
    lo \<le> wb_base_offset b + wr_offset_delta w \<and> hi \<le> wb_base_offset b + wr_offset_delta w"
  shows "fold (decode_batch rc lo name index) batches st = fold (decode_batch rc hi name index) batches st"
proof (rule fold_cong [OF refl refl])
  fix b assume b: "b \<in> set batches"
  have all: "filter (\<lambda>w. \<not> record_offset (wb_base_offset b) (wr_offset_delta w) < lo) (wb_records b) = wb_records b"
    "filter (\<lambda>w. \<not> record_offset (wb_base_offset b) (wr_offset_delta w) < hi) (wb_records b) = wb_records b"
    using assms [OF b] by (simp_all add: filter_id_conv record_offset_def not_less)
  show "decode_batch rc lo name index b = decode_batch rc hi name index b"
    unfolding decode_batch_def all ..
qed

lemma fetched_from_base:
  assumes part: "fetched_part isolation lg f part" and wf: "log_wf lg"
    and b: "pd_records part = V2 batches" "batches \<noteq> []"
  shows "fetched_part isolation lg (wb_base_offset (hd batches)) part"
    "x \<in> set batches \<Longrightarrow> w \<in> set (wb_records x) \<Longrightarrow>
       wb_base_offset (hd batches) \<le> wb_base_offset x + wr_offset_delta w"
proof -
  let ?a = "case pd_aborted_transactions part of None \<Rightarrow> [] | Some a \<Rightarrow> a"
  obtain start stop where seg: "batches = map fst (take (stop - start) (drop start lg))"
    "fetched_range isolation lg f start stop ?a"
    using part b(1) unfolding fetched_part_def by blast
  have ne: "start < stop" using seg(1) b(2) by auto
  have stop: "stop \<le> length lg" using seg(2) by (simp add: fetched_range_def)
  have batches: "batches = map (\<lambda>i. fst (lg ! i)) [start..<stop]"
    using seg(1) map_fst_range [OF less_imp_le [OF ne] stop] by simp
  have hd: "wb_base_offset (hd batches) = base_at lg start"
    using ne by (simp add: batches upt_conv_Cons)
  have base: "base_at lg start \<le> base_at lg i" if "start \<le> i" "i < stop" for i
    using base_less_iff [OF wf, of start i] that stop by (cases "start = i") auto
  have "fetched_range isolation lg (base_at lg start) start stop ?a"
    unfolding fetched_range_def
  proof (intro conjI allI impI)
    fix i assume "i < start"
    then show "batch_end (fst (lg ! i)) \<le> base_at lg start" using log_wf_order [OF wf] ne stop by simp
  next
    fix i assume i: "start \<le> i" "i < stop"
    then show "base_at lg start < batch_end (fst (lg ! i))"
      using base [OF i] log_wf_nth(2) [OF wf, of i] stop by simp
  qed (use seg(2) ne stop in \<open>auto simp: fetched_range_def\<close>)
  then show "fetched_part isolation lg (wb_base_offset (hd batches)) part"
    unfolding fetched_part_def hd using b(1) seg(1) by auto
  assume x: "x \<in> set batches" "w \<in> set (wb_records x)"
  then obtain i where i: "start \<le> i" "i < stop" "x = fst (lg ! i)" by (auto simp: batches)
  have "0 \<le> wr_offset_delta w"
    using log_wf_nth(1) [OF wf, of i] i stop x(2) by (auto simp: batch_wf_def)
  then show "wb_base_offset (hd batches) \<le> wb_base_offset x + wr_offset_delta w"
    using base [OF i(1,2)] i(3) hd by simp
qed

lemma row_decoded_below:
  assumes part: "fetched_part isolation lg f part" and wf: "log_wf lg"
    and b: "pd_records part = V2 batches" "batches \<noteq> []"
    and key: "pd_partition_index part = snd key" "map_of offsets key = Some start"
    and low: "start \<le> wb_base_offset (hd batches)"
  obtains bp where "process_partition_records isolation offsets key (fst key) part = Some bp"
    "bp_key bp = key" "bp_position bp = start" "wb_base_offset (hd batches) \<le> bp_next_offset bp"
    "bp_records bp = visible_between isolation key lg (wb_base_offset (hd batches)) (bp_next_offset bp)"
proof -
  let ?base = "wb_base_offset (hd batches)"
  let ?offsets = "AList.update key ?base offsets"
  have at: "map_of ?offsets key = Some ?base" by (simp add: update_conv')
  obtain bp where bp: "process_partition_records isolation ?offsets key (fst key) part = Some bp"
    using process_partition_records_Some [OF b] by blast
  note v = process_partition_records_visible [OF bp fetched_from_base(1) [OF part wf b] wf key(1) disjI1 [OF at]]
  have "fold (decode_batch rc start name i) batches st = fold (decode_batch rc ?base name i) batches st"
    for rc name i st
    by (rule decode_floor) (use fetched_from_base(2) [OF part wf b] low in force)
  then have "process_partition_records isolation offsets key (fst key) part = Some (bp\<lparr>bp_position := start\<rparr>)"
    using bp by (auto simp: process_partition_records_def b(1) key(2) at Let_def split: option.splits prod.splits)
  then show thesis using that v by simp
qed

lemma pop_all:
  "length out + length rs \<le> m \<Longrightarrow> \<exists>position' epoch'. pop_records m out position rs epoch = (out @ rs, position', [], epoch')"
proof (induction rs arbitrary: out position epoch)
  case (Cons r rs)
  then show ?case using Cons.IH [of "out @ [r]" "cr_offset r + 1" "Some (cr_leader_epoch r)"] by simp
qed simp

lemma drain_single:
  assumes "co_fetch_buffer c = [bp]" "bp_key bp \<in> set (co_assigned c)"
    and "map_of (co_next_offsets c) (bp_key bp) = Some (bp_position bp)"
    and "bp_key bp \<notin> fst (paused_of (co_ownership_ids c) c)" "length (bp_records bp) \<le> co_max_poll_records c"
  obtains c' where "drain_fetch_buffer c = (bp_records bp, c')"
    "map_of (co_next_offsets c') (bp_key bp) = Some (bp_next_offset bp)"
proof -
  obtain paused c1 where p: "paused_of (co_ownership_ids c) c = (paused, c1)"
    by (cases "paused_of (co_ownership_ids c) c")
  have c1: "co_fetch_buffer c1 = [bp]" "co_assigned c1 = co_assigned c" "co_next_offsets c1 = co_next_offsets c"
    "co_max_poll_records c1 = co_max_poll_records c"
    using p assms(1) by (auto simp: paused_of_def Let_def)
  obtain position epoch where pop: "pop_records (co_max_poll_records c) [] (bp_position bp) (bp_records bp) None
      = (bp_records bp, position, [], epoch)"
    using pop_all [of "[]" "bp_records bp" "co_max_poll_records c" "bp_position bp" None] assms(5) by auto
  have "\<exists>c'. drain_fetch_buffer c = (bp_records bp, c') \<and> map_of (co_next_offsets c') (bp_key bp) = Some (bp_next_offset bp)"
    using assms(2-4) p
    by (simp add: drain_fetch_buffer_def c1 drain_def drain_entry_def pop Let_def update_conv')
  then show thesis using that by blast
qed

lemma absorb_two_rows:
  assumes rows: "rows_of (id_to_name topic_ids) responses = [(fst key, moved), (fst key, data)]"
    and index: "pd_partition_index moved = snd key" "pd_partition_index data = snd key" "key \<in> set (co_assigned c)"
    and moved: "0 \<le> pd_diverging_end_offset moved" "co_auto_offset_reset c \<noteq> ResetNone"
    and data: "pd_diverging_end_offset data < 0" "pd_error_code data = 0"
    and bp: "process_partition_records (co_isolation_level c)
      (AList.update key (pd_diverging_end_offset moved) (co_next_offsets c)) key (fst key) data = Some bp"
  obtains c' where "process_fetch_responses is_known now lookup others responses topic_ids c = (Inr (), c')"
    "co_next_offsets c' = AList.update key (pd_diverging_end_offset moved) (co_next_offsets c)"
    "co_fetch_buffer c' = co_fetch_buffer c @ [bp]" "co_assigned c' = co_assigned c"
    "co_ownership_ids c' = co_ownership_ids c" "co_paused c' = co_paused c"
    "co_max_poll_records c' = co_max_poll_records c" "co_isolation_level c' = co_isolation_level c"
proof -
  have key: "(fst key, snd key) = key" by simp
  have "\<exists>c'. process_fetch_responses is_known now lookup others responses topic_ids c = (Inr (), c')
    \<and> co_next_offsets c' = AList.update key (pd_diverging_end_offset moved) (co_next_offsets c)
    \<and> co_fetch_buffer c' = co_fetch_buffer c @ [bp] \<and> co_assigned c' = co_assigned c
    \<and> co_ownership_ids c' = co_ownership_ids c \<and> co_paused c' = co_paused c
    \<and> co_max_poll_records c' = co_max_poll_records c \<and> co_isolation_level c' = co_isolation_level c"
    using index moved data bp
    by (simp add: process_fetch_responses_def rows process_row_def key handle_truncation_in_poll_def
        classify_fetch_partition_error_def Let_def fetch_buffer_push_def del: prod.collapse)
  then show thesis using that by blast
qed

lemma taken_row_fetched:
  assumes "system_inv name_of logs s"
    and "take_completed_fetches (co_topic_ids (sy_consumer s)) (sy_consumer s) = (Inr responses, c)"
    and "(fst key, data) \<in> set (rows_of (id_to_name (co_topic_ids (sy_consumer s))) responses)"
    and "pd_partition_index data = snd key" "pd_diverging_end_offset data < 0" "pd_error_code data = 0"
  shows "fetched_part (co_isolation_level (sy_consumer s)) (logs key)
    (last_offset (co_next_offsets (sy_consumer s)) key) data"
proof -
  note t = take_completed_ok(4) [OF system_invD(2,3) [OF assms(1)] assms(2) refl]
  have "row_ok (co_isolation_level (sy_consumer s)) logs (co_next_offsets (sy_consumer s)) (fst key, data)"
    by (rule rows_of_ok [OF t assms(3)])
  then show ?thesis using assms(4-) by (simp add: row_ok_def)
qed

text \<open>The first half of a poll that takes a row with a diverging log and then a row with data.\<close>

lemma stale_row_absorbed:
  assumes wf: "logs_wf logs" and inv: "system_inv name_of logs s"
    and take: "take_completed_fetches (co_topic_ids (sy_consumer s)) (sy_consumer s) = (Inr responses, c1)"
    and rows: "rows_of (id_to_name (co_topic_ids (sy_consumer s))) responses = [(fst key, moved), (fst key, data)]"
    and index: "pd_partition_index moved = snd key" "pd_partition_index data = snd key"
    and key: "key \<in> set (co_assigned (sy_consumer s))" "co_auto_offset_reset (sy_consumer s) \<noteq> ResetNone"
    and empty: "co_fetch_buffer (sy_consumer s) = []"
    and moved: "pd_diverging_end_offset moved = start" "0 \<le> start"
      "map_of (co_next_offsets (sy_consumer s)) key \<noteq> Some start"
    and data: "pd_diverging_end_offset data < 0" "pd_error_code data = 0"
      "pd_records data = V2 batches" "batches \<noteq> []" "start \<le> wb_base_offset (hd batches)"
  obtains c bp where
    "consumer_step name_of logs s (EvAbsorb [(fst key, moved), (fst key, data)]) (observe c s)"
    "sy_start (observe c s) key = Some start" "sy_since (observe c s) key = []"
    "co_fetch_buffer c = [bp]" "map_of (co_next_offsets c) key = Some start" "bp_key bp = key" "bp_position bp = start"
    "wb_base_offset (hd batches) \<le> bp_next_offset bp"
    "bp_records bp = visible_between (co_isolation_level (sy_consumer s)) key (logs key)
       (wb_base_offset (hd batches)) (bp_next_offset bp)"
    "co_assigned c = co_assigned (sy_consumer s)" "co_max_poll_records c = co_max_poll_records (sy_consumer s)"
    "fst (paused_of (co_ownership_ids c) c) = fst (paused_of (co_ownership_ids (sy_consumer s)) (sy_consumer s))"
proof -
  let ?c = "sy_consumer s" and ?i = "co_isolation_level (sy_consumer s)"
  have part: "fetched_part ?i (logs key) (last_offset (co_next_offsets ?c) key) data"
    by (rule taken_row_fetched [OF inv take _ index(2) data(1,2)]) (use rows in auto)
  obtain fl where fl: "c1 = ?c\<lparr>co_fetches := fl\<rparr>"
    using take_completed_ok(3) [OF system_invD(2,3) [OF inv] take] by blast
  let ?offsets = "AList.update key start (co_next_offsets ?c)"
  have at: "map_of ?offsets key = Some start" by (simp add: update_conv')
  obtain bp where bp: "process_partition_records ?i ?offsets key (fst key) data = Some bp"
    "bp_key bp = key" "bp_position bp = start" "wb_base_offset (hd batches) \<le> bp_next_offset bp"
    "bp_records bp = visible_between ?i key (logs key) (wb_base_offset (hd batches)) (bp_next_offset bp)"
    using row_decoded_below [OF part logs_wfD [OF wf] data(3,4) index(2) at data(5)] by blast
  obtain c2 where c2: "process_fetch_responses (\<lambda>_. True) 0 (\<lambda>_ _. Inl Wakeup) (\<lambda>c. c) responses (co_topic_ids ?c) c1
      = (Inr (), c2)" "co_next_offsets c2 = ?offsets" "co_fetch_buffer c2 = [bp]" "co_assigned c2 = co_assigned ?c"
    "co_ownership_ids c2 = co_ownership_ids ?c" "co_paused c2 = co_paused ?c"
    "co_max_poll_records c2 = co_max_poll_records ?c"
    by (rule absorb_two_rows [OF rows index, of c1]) (use key empty moved data bp(1) in \<open>simp_all add: fl\<close>)
  have "unobtrusive name_of (\<lambda>c. c)" by (simp add: unobtrusive_def)
  from consumer_step.absorb [OF take this c2(1), of logs] have "consumer_step name_of logs s
      (EvAbsorb [(fst key, moved), (fst key, data)]) (observe c2 s)" unfolding rows .
  moreover have "sy_start (observe c2 s) key = Some start" "sy_since (observe c2 s) key = []"
    using moved(3) at by (simp_all add: observe_def Let_def c2(2))
  moreover have "fst (paused_of (co_ownership_ids c2) c2) = fst (paused_of (co_ownership_ids ?c) ?c)"
    by (simp add: paused_of_def c2 Let_def)
  ultimately show thesis using that c2(2-4,7) at bp(2-5) by simp
qed


text \<open>
  A run that ends in such a state.  The consumer is at offset 2 and asks its leader 6.  Before the answer
  comes the leader changes to 5, and the next poll asks 5 as well.  Broker 6 reports that the log
  diverges at offset 0, and broker 5 serves the batch at offset 2.
\<close>

definition short_log :: log where
  "short_log = [(batch_example 0 1 7 False, False), (batch_example 2 0 7 False, False)]"

definition short_logs :: "topic_partition \<Rightarrow> log" where
  "short_logs key = (if key = (''orders'', 0) then short_log else [])"

definition row_example :: "int \<Rightarrow> wire_batch list \<Rightarrow> partition_data" where
  "row_example diverging batches = part_example\<lparr>pd_high_watermark := 3, pd_last_stable_offset := 3,
     pd_diverging_end_offset := diverging, pd_aborted_transactions := None, pd_records := V2 batches\<rparr>"

abbreviation moved_row :: partition_data where
  "moved_row \<equiv> row_example 0 []"

abbreviation data_row :: partition_data where
  "data_row \<equiv> row_example (-1) [batch_example 2 0 7 False]"

definition row_response :: "partition_data \<Rightarrow> fetch_response" where
  "row_response part = round_response\<lparr>fr_responses :=
     [\<lparr>tr_topic = [], tr_topic_id = replicate 16 1, tr_partitions = [part]\<rparr>]\<rparr>"

definition moving :: "int \<Rightarrow> fetches \<Rightarrow> consumer" where
  "moving leader fl = consumer_example\<lparr>co_next_offsets := [((''orders'', 0), 2)], co_isolation_level := ReadUncommitted,
     co_positions := [((''orders'', 0), \<lparr>pp_offset_epoch = 2, pp_leader_id = leader,
       pp_leader_epoch = 3, pp_awaiting_validation = False\<rparr>)], co_fetches := fl\<rparr>"

definition moving_system :: "int \<Rightarrow> fetches \<Rightarrow> (int \<Rightarrow> broker_session option) \<Rightarrow> system" where
  "moving_system leader fl brokers = \<lparr>sy_consumer = moving leader fl, sy_brokers = brokers,
     sy_start = map_of [((''orders'', 0), 2)], sy_since = (\<lambda>_. [])\<rparr>"

definition moving_wanted :: session_partitions where
  "moving_wanted = [((''orders'', 0), \<lparr>sp_topic_id = replicate 16 1, sp_fetch_offset = 2,
     sp_current_leader_epoch = 3, sp_last_fetched_epoch = 2, sp_partition_max_bytes = 1024\<rparr>)]"

definition moving_fetch :: "fetch_result option \<Rightarrow> in_flight_fetch" where
  "moving_fetch result = \<lparr>if_request = fst (build moving_wanted fetch_session_default), if_result = result,
     if_requested = [((''orders'', 0), 2)], if_from_replica = {}\<rparr>"

definition moving_fetches :: "(int \<times> fetch_result option) list \<Rightarrow> fetches" where
  "moving_fetches fs = \<lparr>fl_sessions = map (\<lambda>(l, _). (l, snd (build moving_wanted fetch_session_default))) fs,
     fl_in_flight = map (\<lambda>(l, r). (l, moving_fetch r)) fs, fl_ready = [], fl_preferred_read_replicas = []\<rparr>"

lemma moving_simps [simp]:
  "co_topic_ids (moving l fl) = [(''orders'', replicate 16 1)]" "co_fetch_partition_max (moving l fl) = 1024"
  "co_fetches (moving l fl) = fl" "co_next_offsets (moving l fl) = [((''orders'', 0), 2)]"
  "co_assigned (moving l fl) = [(''orders'', 0)]" "co_isolation_level (moving l fl) = ReadUncommitted"
  "co_fetch_buffer (moving l fl) = []" "co_fetches_update f (moving l fl) = moving l (f fl)"
  "co_max_poll_records (moving l fl) = 10" "co_auto_offset_reset (moving l fl) = Earliest"
  "co_ownership_ids (moving l fl) = [((''orders'', 0), 1)]" "co_paused (moving l fl) = []"
  "sy_consumer (moving_system l fl b) = moving l fl" "sy_brokers (moving_system l fl b) = b"
  "(moving_system l fl b)\<lparr>sy_consumer := moving l' fl'\<rparr> = moving_system l' fl' b"
  "(moving_system l fl b)\<lparr>sy_brokers := b'\<rparr> = moving_system l fl b'"
  by (simp_all add: moving_def moving_system_def consumer_example_def)

lemma moving_group:
  assumes "map_of (fl_in_flight (moving_fetches fs)) l = None" "0 \<le> l"
  shows "group_fetches (\<lambda>_. True) 0 [(''orders'', 0)] (moving l (moving_fetches fs))
    = ([(l, [(''orders'', [(0, 2, 3, 2)])])], moving l (moving_fetches fs))"
  using assms
  by (simp add: moving_def consumer_example_def group_fetches_def paused_of_def group_fetch_def fetchable_def
      read_replica_def fetch_leader_id_def last_offset_def is_reset_sentinel_def NO_OFFSET_SENTINEL_def i64_max_def
      buffered_partitions_def hash_entry_def moving_fetches_def)

lemma moving_collect: "\<forall>(l, r)\<in>set fs. r = None \<Longrightarrow> collect_ready (moving_fetches fs) = moving_fetches fs"
proof -
  assume none: "\<forall>(l, r)\<in>set fs. r = None"
  have "collect_fetch l (moving_fetches fs) = moving_fetches fs" for l
  proof (cases "map_of (fl_in_flight (moving_fetches fs)) l")
    case (Some f)
    have "(l, f) \<in> set (fl_in_flight (moving_fetches fs))" using map_of_SomeD [OF Some] .
    then have "if_result f = None" using none by (auto simp: moving_fetches_def moving_fetch_def)
    then show ?thesis using Some by (simp add: collect_fetch_def)
  qed (simp add: collect_fetch_def)
  then have "fold collect_fetch ls (moving_fetches fs) = moving_fetches fs" for ls
    by (induction ls) simp_all
  then show ?thesis by (simp add: collect_ready_def)
qed

lemma moving_wanted_collect:
  "wanted_partitions [(''orders'', replicate 16 1)] 1024 [(''orders'', [(0, 2, 3, 2)])] = moving_wanted"
  by (simp add: wanted_partitions_def moving_wanted_def session_partition_def btree_collect_def btree_insert_def)

lemma moving_requested:
  "map (\<lambda>(key, p). (key, sp_fetch_offset p)) moving_wanted = [((''orders'', 0), 2)]"
  by (simp add: moving_wanted_def)

lemma moving_send:
  assumes "(l, fs) = (6, []) \<or> (l, fs) = (5, [(6, None)])"
  shows "send_fetch [(''orders'', replicate 16 1)] 1024 (l, [(''orders'', [(0, 2, 3, 2)])]) (moving_fetches fs)
    = moving_fetches (fs @ [(l, None)])"
  using assms unfolding send_fetch_def prod.case moving_wanted_collect
  by (auto simp: Let_def moving_fetches_def moving_fetch_def session_of_def case_prod_beta)
    (rule moving_requested)+

lemma moving_after_send:
  assumes "(l, fs) = (6, []) \<or> (l, fs) = (5, [(6, None)])"
  shows "after_send (\<lambda>_. True) 0 (moving l (moving_fetches fs)) = moving l (moving_fetches (fs @ [(l, None)]))"
proof -
  have l: "map_of (fl_in_flight (moving_fetches fs)) l = None" "0 \<le> l" "\<forall>(l, r)\<in>set (fs @ [(l, None)]). r = None"
    using assms by (auto simp: moving_fetches_def)
  show ?thesis
    unfolding after_send_def moving_simps moving_group [OF l(1,2)]
    by (simp add: send_fetches_def moving_send [OF assms] moving_collect [OF l(3)] Let_def)
qed

lemma moving_serves: "broker_serves (fst (build moving_wanted fetch_session_default)) None
    (Some (77, 1, map_of moving_wanted)) (map_of moving_wanted) 77"
proof -
  let ?r = "fst (build moving_wanted fetch_session_default)"
  have full: "full_request ?r"
    using build_client(4) [of moving_wanted fetch_session_default]
    by (simp add: build_def fetch_session_default_def Let_def)
  have "session_meaning ?r Map.empty = map_of moving_wanted"
    by (rule build_full_meaning [OF _ full, of _ fetch_session_default "snd (build moving_wanted fetch_session_default)"])
      (simp_all add: moving_wanted_def)
  then show ?thesis using serves_new [OF full, of 77 "map_of moving_wanted" None] by (simp add: session_metadata)
qed

lemma short_log_wf: "logs_wf short_logs"
  by (auto simp: logs_wf_def log_wf_def short_logs_def short_log_def batch_example_def batch_wf_def batch_end_def upto_rec1)

lemma data_row_fetched: "fetched_part ReadUncommitted short_log 2 data_row"
proof -
  have "fetched_range ReadUncommitted short_log 2 1 2 []"
    by (auto simp: fetched_range_def short_log_def batch_example_def batch_end_def less_Suc_eq numeral_2_eq_2)
  then show ?thesis
    unfolding fetched_part_def
    by (intro allI impI exI [of _ 1] exI [of _ 2] conjI) (simp_all add: row_example_def short_log_def)
qed

lemma moving_rows_served:
  "part \<in> {moved_row, data_row} \<Longrightarrow>
     served_from (\<lambda>_. ''orders'') ReadUncommitted short_logs (map_of moving_wanted) (row_response part)"
  using data_row_fetched
  by (auto simp: served_from_def row_response_def true_name_def short_logs_def moving_wanted_def row_example_def part_example_def)

lemma moving_serve:
  assumes "part \<in> {moved_row, data_row}" "brokers l = None"
    and "(l, fs, fs') = (6, [(6, None), (5, None)], [(6, Some (Some (Inr (row_response part)))), (5, None)])
      \<or> (l, fs, fs') = (5, [(6, r), (5, None)], [(6, r), (5, Some (Some (Inr (row_response part))))])"
  shows "consumer_step (\<lambda>_. ''orders'') short_logs (moving_system 5 (moving_fetches fs) brokers) (EvServe l)
    (moving_system 5 (moving_fetches fs') (brokers(l := Some (77, 1, map_of moving_wanted))))"
proof -
  have f: "map_of (fl_in_flight (moving_fetches fs)) l = Some (moving_fetch None)"
    using assms(3) by (auto simp: moving_fetches_def)
  have w: "with_result l (moving_fetch None) (Some (Inr (row_response part))) (moving 5 (moving_fetches fs))
      = moving 5 (moving_fetches fs')"
    using assms(3) by (auto simp: with_result_def moving_fetches_def moving_fetch_def)
  have b: "broker_serves (if_request (moving_fetch None)) (brokers l) (Some (77, 1, map_of moving_wanted))
      (map_of moving_wanted) 77"
    using moving_serves assms(2) by (simp add: moving_fetch_def)
  have r: "if_result (moving_fetch None) = None" "fr_error_code (row_response part) = 0" "fr_session_id (row_response part) = 77"
    by (simp_all add: moving_fetch_def row_response_def round_response_def)
  show ?thesis
    using consumer_step.serve_fetch [of "moving_system 5 (moving_fetches fs) brokers" l "moving_fetch None"
        "Some (77, 1, map_of moving_wanted)" "map_of moving_wanted" 77 "row_response part" "\<lambda>_. ''orders''" short_logs]
      f r b moving_rows_served [OF assms(1)] by (simp add: w)
qed

definition moving_events :: "consumer_event list" where
  "moving_events = [EvSend [(''orders'', 0)] [], EvCollect, EvOutside, EvSend [(''orders'', 0)] [], EvCollect,
     EvServe 6, EvServe 5]"

definition moved_system :: system where
  "moved_system = moving_system 5
     (moving_fetches [(6, Some (Some (Inr (row_response moved_row)))), (5, Some (Some (Inr (row_response data_row))))])
     ((\<lambda>_. None)(6 := Some (77, 1, map_of moving_wanted), 5 := Some (77, 1, map_of moving_wanted)))"

lemma moving_run:
  "consumer_run (\<lambda>_. ''orders'') short_logs (moving_system 6 (moving_fetches []) (\<lambda>_. None)) moving_events moved_system"
proof -
  let ?run = "consumer_run (\<lambda>_. ''orders'') short_logs (moving_system 6 (moving_fetches []) (\<lambda>_. None))"
  let ?asked = "[EvSend [(''orders'', 0)] [], EvCollect]"
  have ready: "fl_ready (moving_fetches fs) = []" for fs by (simp add: moving_fetches_def)
  have a: "?run ?asked (moving_system 6 (moving_fetches [(6, None)]) (\<lambda>_. None))"
    using after_send_runs(1) [of "\<lambda>_. ''orders''" short_logs "moving_system 6 (moving_fetches []) (\<lambda>_. None)" "\<lambda>_. True" 0]
    by (simp add: moving_after_send ready)
  have o: "consumer_step (\<lambda>_. ''orders'') short_logs (moving_system 6 (moving_fetches [(6, None)]) (\<lambda>_. None)) EvOutside
      (moving_system 5 (moving_fetches [(6, None)]) (\<lambda>_. None))"
  proof -
    have "consumer_step (\<lambda>_. ''orders'') short_logs (moving_system 6 (moving_fetches [(6, None)]) (\<lambda>_. None)) EvOutside
        (observe (moving 5 (moving_fetches [(6, None)])) (moving_system 6 (moving_fetches [(6, None)]) (\<lambda>_. None)))"
      by (rule keeps_fetching_step) (simp_all add: keeps_fetching_def ids_agree_def)
    then show ?thesis by (simp add: observe_unmoved)
  qed
  have b: "consumer_run (\<lambda>_. ''orders'') short_logs (moving_system 5 (moving_fetches [(6, None)]) (\<lambda>_. None)) ?asked
      (moving_system 5 (moving_fetches [(6, None), (5, None)]) (\<lambda>_. None))"
    using after_send_runs(1) [of "\<lambda>_. ''orders''" short_logs "moving_system 5 (moving_fetches [(6, None)]) (\<lambda>_. None)" "\<lambda>_. True" 0]
    by (simp add: moving_after_send ready)
  note s6 = moving_serve [of moved_row "\<lambda>_. None" 6 "[(6, None), (5, None)]"
      "[(6, Some (Some (Inr (row_response moved_row)))), (5, None)]", simplified]
  note s5 = moving_serve [of data_row "(\<lambda>_. None)(6 := Some (77, 1, map_of moving_wanted))" 5
      "[(6, Some (Some (Inr (row_response moved_row)))), (5, None)]"
      "[(6, Some (Some (Inr (row_response moved_row)))), (5, Some (Some (Inr (row_response data_row))))]", simplified]
  from consumer_run.step [OF consumer_run.step [OF consumer_run_trans [OF b consumer_run.step [OF a o]] s6] s5]
  show ?thesis by (simp add: moving_events_def moved_system_def)
qed

lemma moved_taken:
  "\<exists>c. take_completed_fetches [(''orders'', replicate 16 1)] (sy_consumer moved_system)
     = (Inr [row_response moved_row, row_response data_row], c)"
proof -
  have full: "is_full (fs_next (snd (build moving_wanted fetch_session_default)))"
    by (simp add: build_def fetch_session_default_def Let_def)
  have h: "\<exists>sess. handle_response (fr_error_code (row_response part)) (fr_session_id (row_response part))
      (response_rows (row_response part)) (fr_throttle_time_ms (row_response part))
      (snd (build moving_wanted fetch_session_default)) = (True, sess)" for part
    using full by (simp add: handle_response_def row_response_def round_response_def response_rows_def session_metadata)
  have k: "retain_response \<lparr>cf_leader = l, cf_requested = [((''orders'', 0), 2)], cf_from_replica = {}, cf_result = r\<rparr>
      [((''orders'', 0), 2)] [(replicate 16 1, ''orders'')] (row_response (row_example x y)) = row_response (row_example x y)"
    for l r x y
    by (simp add: retain_response_def row_response_def topic_name_def retain_row_def last_offset_def row_example_def part_example_def)
  obtain sess6 where s6: "handle_response (fr_error_code (row_response moved_row)) (fr_session_id (row_response moved_row))
      (response_rows (row_response moved_row)) (fr_throttle_time_ms (row_response moved_row))
      (snd (build moving_wanted fetch_session_default)) = (True, sess6)" using h by blast
  obtain sess5 where s5: "handle_response (fr_error_code (row_response data_row)) (fr_session_id (row_response data_row))
      (response_rows (row_response data_row)) (fr_throttle_time_ms (row_response data_row))
      (snd (build moving_wanted fetch_session_default)) = (True, sess5)" using h by blast
  show ?thesis
    by (simp add: take_completed_fetches_def moved_system_def moving_fetches_def moving_fetch_def
        collect_ready_def collect_fetch_def take_fetch_def id_to_name_def session_of_def k s6 s5 Let_def)
qed

lemma short_log_visible:
  "map cr_offset (visible_between ReadUncommitted (''orders'', 0) short_log 0 2) = [0, 1]"
  "length (visible ReadUncommitted (''orders'', 0) short_log) = 3"
  by (simp_all add: visible_between_def short_log_def batch_visible_def batch_example_def upto_rec1
      consumer_record_of_def record_offset_def record_timestamp_def)


end
